(* ===== verification/Prelude.thy ===== *)
theory Prelude
  imports Main "HOL-Library.Word"
begin

unbundle bit_operations_syntax

text \<open>
  Shared ground of the development: the types that name the C program's data, the values of
  the C library that the code uses (errno numbers, \<open>memcpy\<close>, \<open>memcmp\<close>, \<open>strncmp\<close>,
  \<open>snprintf\<close>), the trace of calls into code outside the repository, and the runs of a
  component over a list of events.

  The repository links against Zephyr, the Nordic SDK and QCBOR, which are not part of it. A
  call into them is recorded in the trace of the calling component, in program order and with
  its arguments; what it returns is taken from an environment function, a parameter of every definition that
  makes such a call. That function may depend on the whole history, so no behaviour of the
  outside code is excluded. Where a property needs documented behaviour of that code, the
  behaviour is a named predicate on it and a hypothesis of the property.
\<close>

section \<open>Collections of facts\<close>

named_theorems buffer_simps "facts on byte buffers and C strings"
named_theorems trace_simps "facts on the trace of external calls"

section \<open>C data\<close>

type_synonym byte = "8 word"

lemma byte_bound: "unat (b :: byte) < 256"
  using unsigned_less [of b] by simp

text \<open>
  The errno numbers of the C library. The development uses only that they are positive and
  that the ones compared with each other differ.
\<close>

abbreviation ENOENT :: int where "ENOENT \<equiv> 2"
abbreviation EIO :: int where "EIO \<equiv> 5"
abbreviation EAGAIN :: int where "EAGAIN \<equiv> 11"
abbreviation ENOMEM :: int where "ENOMEM \<equiv> 12"
abbreviation EBUSY :: int where "EBUSY \<equiv> 16"
abbreviation EINVAL :: int where "EINVAL \<equiv> 22"
abbreviation ENETDOWN :: int where "ENETDOWN \<equiv> 115"
abbreviation EINPROGRESS :: int where "EINPROGRESS \<equiv> 119"
abbreviation EALREADY :: int where "EALREADY \<equiv> 120"
abbreviation EMSGSIZE :: int where "EMSGSIZE \<equiv> 122"
abbreviation ENOTCONN :: int where "ENOTCONN \<equiv> 128"

text \<open>Subtraction of two \<open>size_t\<close> values on the 32-bit targets of the program: it wraps.\<close>

definition size_sub :: "nat \<Rightarrow> nat \<Rightarrow> nat" where
  "size_sub a b = unat ((word_of_nat a :: 32 word) - word_of_nat b)"

lemma size_sub_eq:
  assumes "a < 2 ^ 32" and "b < 2 ^ 32"
  shows "size_sub a b = (if b \<le> a then a - b else 2 ^ 32 + a - b)"
  using assms by (auto simp: size_sub_def unat_sub_if' unat_of_nat)

lemma size_sub_le [simp]: "b \<le> a \<Longrightarrow> a < 2 ^ 32 \<Longrightarrow> size_sub a b = a - b"
  by (simp add: size_sub_eq)

section \<open>Buffers and strings\<close>

text \<open>
  \<open>memcpy(buf + off, src, n)\<close> where \<open>src\<close> is the list of the \<open>n\<close> bytes copied. A write
  past the end of the array is undefined behaviour in C; here it is \<open>None\<close>.
\<close>

definition memcpy_at :: "'a list \<Rightarrow> nat \<Rightarrow> 'a list \<Rightarrow> 'a list option" where
  "memcpy_at buf off src =
     (if off + length src \<le> length buf
      then Some (take off buf @ src @ drop (off + length src) buf) else None)"

lemma memcpy_at_length [buffer_simps]:
  "memcpy_at buf off src = Some buf' \<Longrightarrow> length buf' = length buf"
  by (auto simp: memcpy_at_def split: if_splits)

lemma memcpy_at_fits [buffer_simps]:
  "off + length src \<le> length buf \<Longrightarrow>
   memcpy_at buf off src = Some (take off buf @ src @ drop (off + length src) buf)"
  by (simp add: memcpy_at_def)

lemma nth_upd: "xs[i := y] ! j = (if i = j \<and> j < length xs then y else xs ! j)"
  by (induction xs arbitrary: i j) (auto split: nat.split simp: nth_Cons)

lemma memcpy_at_overflow [buffer_simps]:
  "length buf < off + length src \<Longrightarrow> memcpy_at buf off src = None"
  by (simp add: memcpy_at_def)

text \<open>\<open>memcmp(a, b, n)\<close>: the sign of the first difference among the first \<open>n\<close> bytes.\<close>

fun memcmp :: "byte list \<Rightarrow> byte list \<Rightarrow> nat \<Rightarrow> int" where
  "memcmp (a # as) (b # bs) (Suc n) =
     (if a < b then - 1 else if b < a then 1 else memcmp as bs n)"
| "memcmp _ _ _ = 0"

lemma memcmp_eq_0_iff:
  "n \<le> length as \<Longrightarrow> n \<le> length bs \<Longrightarrow> memcmp as bs n = 0 \<longleftrightarrow> take n as = take n bs"
  by (induction as bs n rule: memcmp.induct) auto

text \<open>The C string that starts at the beginning of some memory: what is before the first NUL.\<close>

definition c_string :: "byte list \<Rightarrow> byte list" where
  "c_string mem = takeWhile (\<lambda>b. b \<noteq> 0) mem"

lemma c_string_append [buffer_simps]: "0 \<notin> set xs \<Longrightarrow> c_string (xs @ ys) = xs @ c_string ys"
  unfolding c_string_def by (rule takeWhile_append2) metis

lemma c_string_NUL [simp]: "c_string (0 # xs) = []"
  by (simp add: c_string_def)

text \<open>\<open>strncmp(a, b, n)\<close>; the end of a list stands for the NUL that ends the string.\<close>

fun strncmp :: "byte list \<Rightarrow> byte list \<Rightarrow> nat \<Rightarrow> int" where
  "strncmp _ _ 0 = 0"
| "strncmp [] [] (Suc n) = 0"
| "strncmp [] (b # bs) (Suc n) = (if b = 0 then 0 else - 1)"
| "strncmp (a # as) [] (Suc n) = (if a = 0 then 0 else 1)"
| "strncmp (a # as) (b # bs) (Suc n) =
     (if a < b then - 1 else if b < a then 1 else if a = 0 then 0 else strncmp as bs n)"

lemma strncmp_eq_0_iff:
  "0 \<notin> set a \<Longrightarrow> 0 \<notin> set b \<Longrightarrow> strncmp a b n = 0 \<longleftrightarrow> take n a = take n b"
  by (induction a b n rule: strncmp.induct) auto

text \<open>
  \<open>snprintf(buf, size, ...)\<close> of a text \<open>s\<close>: the characters that fit before the
  terminating NUL. Its return value is the length of the whole text.
\<close>

definition snprintf :: "nat \<Rightarrow> 'a list \<Rightarrow> 'a list" where
  "snprintf sz s = take (sz - 1) s"

lemma snprintf_fits [buffer_simps]: "length s < sz \<Longrightarrow> snprintf sz s = s"
  by (simp add: snprintf_def)

lemma snprintf_length: "0 < sz \<Longrightarrow> length (snprintf sz s) < sz"
  by (simp add: snprintf_def)

text \<open>
  The text that a format makes whose conversions are all \<open>%.*s\<close>; the arguments are the strings
  that these conversions print, and \<open>prec n s\<close> is the one for the precision \<open>n\<close> and the memory \<open>s\<close>.
\<close>

definition prec :: "nat \<Rightarrow> byte list \<Rightarrow> byte list" where
  "prec n s = take n (c_string s)"

function render :: "string \<Rightarrow> byte list list \<Rightarrow> byte list" where
  "render fmt args =
     (case fmt of
        [] \<Rightarrow> []
      | c # cs \<Rightarrow>
          if take 4 fmt = ''%.*s'' \<and> args \<noteq> [] then hd args @ render (drop 4 fmt) (tl args)
          else of_char c # render cs args)"
  by pat_completeness auto
termination
  by (relation "measure (\<lambda>(fmt, _). length fmt)") auto

declare render.simps [simp del]

lemma render_Nil [simp]: "render [] args = []"
  by (simp add: render.simps)

lemma render_arg: "take 4 fmt = ''%.*s'' \<Longrightarrow> render fmt (a # as) = a @ render (drop 4 fmt) as"
  by (subst render.simps) (auto split: list.split)

lemma render_char: "take 4 (c # cs) \<noteq> ''%.*s'' \<or> args = [] \<Longrightarrow> render (c # cs) args = of_char c # render cs args"
  by (auto simp: render.simps [of "c # cs"])

text \<open>The conversion \<open>%d\<close> of a non-negative number.\<close>

fun show_nat :: "nat \<Rightarrow> string" where
  "show_nat n =
     (if n < 10 then [char_of (48 + n)] else show_nat (n div 10) @ [char_of (48 + n mod 10)])"

declare show_nat.simps [simp del]

lemma show_nat_digit [simp]: "n < 10 \<Longrightarrow> show_nat n = [char_of (48 + n)]"
  by (simp add: show_nat.simps)

lemma show_nat_step: "10 \<le> n \<Longrightarrow> show_nat n = show_nat (n div 10) @ [char_of (48 + n mod 10)]"
  by (simp add: show_nat.simps [of n])

lemma length_show_nat_2: "10 \<le> n \<Longrightarrow> n < 100 \<Longrightarrow> length (show_nat n) = 2"
  by (simp add: show_nat_step div_less_iff_less_mult)

lemma show_nat_hundreds_length: "100 \<le> n \<Longrightarrow> n < 1000 \<Longrightarrow> length (show_nat n) = 3"
  by (simp add: show_nat_step length_show_nat_2 div_less_iff_less_mult less_eq_div_iff_mult_less_eq)

lemma show_nat_byte_length: "n < 256 \<Longrightarrow> length (show_nat n) \<le> 3"
  by (cases "n < 10"; cases "n < 100")
    (auto simp: length_show_nat_2 show_nat_hundreds_length)

section \<open>Calls into code outside the repository\<close>

text \<open>
  The state of every component that calls outside code extends this record: \<open>calls\<close> is the
  list of the calls made so far, each with what it returned (0 for a call that returns
  nothing, or whose result the code does not look at), the oldest first.
\<close>

record 'c world =
  calls :: "('c \<times> int) list"

type_synonym 'c env = "('c \<times> int) list \<Rightarrow> 'c \<Rightarrow> int"

definition ext :: "'c env \<Rightarrow> 'c \<Rightarrow> ('c, 'z) world_scheme \<Rightarrow> int \<times> ('c, 'z) world_scheme" where
  "ext E c s = (E (calls s) c, s\<lparr>calls := calls s @ [(c, E (calls s) c)]\<rparr>)"

definition emit :: "'c \<Rightarrow> ('c, 'z) world_scheme \<Rightarrow> ('c, 'z) world_scheme" where
  "emit c s = s\<lparr>calls := calls s @ [(c, 0)]\<rparr>"

lemma calls_emit [simp, trace_simps]: "calls (emit c s) = calls s @ [(c, 0)]"
  by (simp add: emit_def)

lemma calls_ext [simp, trace_simps]: "calls (snd (ext E c s)) = calls s @ [(c, E (calls s) c)]"
  by (simp add: ext_def)

lemma fst_ext [simp, trace_simps]: "fst (ext E c s) = E (calls s) c"
  by (simp add: ext_def)

section \<open>Runs over a list of events\<close>

text \<open>
  A component is a step function from a state and an event to the state after it, or \<open>None\<close>
  where the C code fails an assertion or leaves defined behaviour. \<open>ok s e\<close> says what the
  environment guarantees of the event \<open>e\<close> when it arrives in state \<open>s\<close>. \<open>total\<close> adds up a number
  over the steps of a run.
\<close>

fun exec :: "('s \<Rightarrow> 'e \<Rightarrow> 's option) \<Rightarrow> 's \<Rightarrow> 'e list \<Rightarrow> 's option" where
  "exec step s [] = Some s"
| "exec step s (e # es) = (case step s e of None \<Rightarrow> None | Some s' \<Rightarrow> exec step s' es)"

fun exec_ok :: "('s \<Rightarrow> 'e \<Rightarrow> 's option) \<Rightarrow> ('s \<Rightarrow> 'e \<Rightarrow> bool) \<Rightarrow> 's \<Rightarrow> 'e list \<Rightarrow> bool" where
  "exec_ok step ok s [] = True"
| "exec_ok step ok s (e # es) =
     (ok s e \<and> (case step s e of None \<Rightarrow> True | Some s' \<Rightarrow> exec_ok step ok s' es))"

fun total :: "('s \<Rightarrow> 'e \<Rightarrow> 's option) \<Rightarrow> ('s \<Rightarrow> 'e \<Rightarrow> int) \<Rightarrow> 's \<Rightarrow> 'e list \<Rightarrow> int" where
  "total step delta s [] = 0"
| "total step delta s (e # es) =
     delta s e + (case step s e of None \<Rightarrow> 0 | Some s' \<Rightarrow> total step delta s' es)"

lemma exec_append:
  "exec step s (es @ fs) = (case exec step s es of None \<Rightarrow> None | Some s' \<Rightarrow> exec step s' fs)"
  by (induction es arbitrary: s) (auto split: option.split)

lemma exec_ok_True: "exec_ok step (\<lambda>_ _. True) s es"
  by (induction es arbitrary: s) (simp_all split: option.split)

lemma exec_ok_append:
  "exec_ok step ok s (es @ fs) = (exec_ok step ok s es \<and> (case exec step s es of None \<Rightarrow> True | Some s' \<Rightarrow> exec_ok step ok s' fs))"
  by (induction es arbitrary: s) (auto split: option.split)

lemma exec_ok_always: "\<forall>e \<in> set es. \<forall>s. ok s e \<Longrightarrow> exec_ok step ok s es"
  by (induction es arbitrary: s) (auto split: option.split)

lemma total_stateless:
  "exec step s es = Some s' \<Longrightarrow> total step (\<lambda>s. delta) s es = sum_list (map delta es)"
  by (induction es arbitrary: s) (auto split: option.splits)

text \<open>An invariant that the steps keep which are made.\<close>

lemma exec_invariant:
  assumes "\<And>s e s'. e \<in> A \<Longrightarrow> I s \<Longrightarrow> step s e = Some s' \<Longrightarrow> I s'"
  shows "set es \<subseteq> A \<Longrightarrow> I s \<Longrightarrow> exec step s es = Some s' \<Longrightarrow> I s'"
proof (induction es arbitrary: s)
  case (Cons e es)
  then show ?case using assms [of e s] by (auto split: option.splits)
qed simp

text \<open>A reflexive and transitive relation that every step keeps relates the ends of a run.\<close>

lemma exec_lift:
  assumes "\<And>s e s'. e \<in> A \<Longrightarrow> step s e = Some s' \<Longrightarrow> R s s'" and "\<And>s. R s s"
    and "\<And>s1 s2 s3. R s1 s2 \<Longrightarrow> R s2 s3 \<Longrightarrow> R s1 s3"
  shows "set es \<subseteq> A \<Longrightarrow> exec step s es = Some s' \<Longrightarrow> R s s'"
proof (induction es arbitrary: s)
  case (Cons e es)
  obtain s1 where "step s e = Some s1" "exec step s1 es = Some s'" using Cons.prems by (auto split: option.splits)
  then show ?case using Cons.IH [of s1] Cons.prems assms(1) [of e s s1] assms(3) [of s s1 s'] by simp
qed (simp add: assms(2))

text \<open>A component whose steps never fail and keep an invariant.\<close>

locale event_system =
  fixes step :: "'s \<Rightarrow> 'e \<Rightarrow> 's option" and ok :: "'s \<Rightarrow> 'e \<Rightarrow> bool" and inv :: "'s \<Rightarrow> bool"
  assumes step_ok: "inv s \<Longrightarrow> ok s e \<Longrightarrow> \<exists>s'. step s e = Some s' \<and> inv s'"
begin

lemma exec_inv: "inv s \<Longrightarrow> exec_ok step ok s es \<Longrightarrow> \<exists>s'. exec step s es = Some s' \<and> inv s'"
proof (induction es arbitrary: s)
  case (Cons e es)
  obtain s1 where "step s e = Some s1" "inv s1" using step_ok [of s e] Cons.prems by auto
  then show ?case using Cons by simp
qed simp

text \<open>Any relation to the start that every step keeps holds at the end.\<close>

lemma exec_rel:
  assumes "\<And>s e s'. inv s \<Longrightarrow> ok s e \<Longrightarrow> step s e = Some s' \<Longrightarrow> R (f s) (f s')"
    and "\<And>x. R x x" and "\<And>x y z. R x y \<Longrightarrow> R y z \<Longrightarrow> R x z"
  shows "inv s \<Longrightarrow> exec_ok step ok s es \<Longrightarrow> exec step s es = Some s' \<Longrightarrow> R (f s) (f s')"
proof (induction es arbitrary: s)
  case (Cons e es)
  obtain s1 where "step s e = Some s1" "inv s1" using step_ok [of s e] Cons.prems by auto
  then show ?case using Cons assms(1) [of s e s1] assms(3) by auto
qed (simp add: assms(2))

end

text \<open>A number that every step changes by a known amount.\<close>

locale accounting =
  fixes step :: "'s \<Rightarrow> 'e \<Rightarrow> 's option" and quantity :: "'s \<Rightarrow> int" and delta :: "'s \<Rightarrow> 'e \<Rightarrow> int"
  assumes step_quantity: "step s e = Some s' \<Longrightarrow> quantity s' = quantity s + delta s e"
begin

lemma exec_quantity: "exec step s es = Some s' \<Longrightarrow> quantity s' = quantity s + total step delta s es"
  by (induction es arbitrary: s) (auto simp: step_quantity split: option.splits)

end

text \<open>
  A system that contains another: every step of the outer one is a sequence of steps of the inner one, which \<open>ev\<close> names, on the
  state that \<open>abs\<close> picks out. Then so is every run.
\<close>

fun inner_events :: "('s \<Rightarrow> 'e \<Rightarrow> 's option) \<Rightarrow> ('s \<Rightarrow> 'e \<Rightarrow> 'f list) \<Rightarrow> 's \<Rightarrow> 'e list \<Rightarrow> 'f list" where
  "inner_events step ev s [] = []"
| "inner_events step ev s (e # es) =
     ev s e @ (case step s e of None \<Rightarrow> [] | Some s' \<Rightarrow> inner_events step ev s' es)"

locale simulation =
  fixes step :: "'s \<Rightarrow> 'e \<Rightarrow> 's option" and inner :: "'t \<Rightarrow> 'f \<Rightarrow> 't option"
    and abs :: "'s \<Rightarrow> 't" and ev :: "'s \<Rightarrow> 'e \<Rightarrow> 'f list"
  assumes step_simulated: "step s e = Some s' \<Longrightarrow> exec inner (abs s) (ev s e) = Some (abs s')"
begin

lemma exec_simulated:
  "exec step s es = Some s' \<Longrightarrow> exec inner (abs s) (inner_events step ev s es) = Some (abs s')"
proof (induction es arbitrary: s)
  case (Cons e es)
  then obtain s1 where "step s e = Some s1" "exec step s1 es = Some s'" by (auto split: option.splits)
  then show ?case using Cons.IH [of s1] step_simulated [of s e s1] by (simp add: exec_append)
qed simp

end

end
