(* ===== verification/Ota_Version.thy ===== *)
theory Ota_Version
  imports Prelude
begin

text \<open>
  Firmware versions: the union \<open>pyrinas_cloud_ota_version\<close> of
  \<open>include/pyrinas_cloud/pyrinas_cloud.h\<close>, the comparison \<open>ver_comp\<close> of
  \<open>subsys/pyrinas_cloud/pyrinas_cloud_helper.c\<close> that decides whether an update is started,
  and \<open>get_version_string\<close> of \<open>applications/sample/src/version.c\<close>. The comparison is
  specified by a linear order on the four version numbers.
\<close>

section \<open>The version union\<close>

record ota_version =
  major :: byte
  minor :: byte
  patch :: byte
  commit :: byte
  hash :: "byte list"

text \<open>The member \<open>hash\<close> is an array of eight bytes.\<close>

definition ver_wf :: "ota_version \<Rightarrow> bool" where
  "ver_wf v \<longleftrightarrow> length (hash v) = 8"

text \<open>The other view of the union: the array \<open>raw[12]\<close>.\<close>

definition raw :: "ota_version \<Rightarrow> byte list" where
  "raw v = [major v, minor v, patch v, commit v] @ hash v"

section \<open>Comparison\<close>

definition VER_ENTIRES :: nat where
  "VER_ENTIRES = 4"

text \<open>The loop over the version numbers; \<open>None\<close> when it runs to its end.\<close>

function ver_comp_loop :: "byte list \<Rightarrow> byte list \<Rightarrow> nat \<Rightarrow> int option" where
  "ver_comp_loop first second i =
     (if i < VER_ENTIRES then
        if second ! i < first ! i then Some (- 1)
        else if first ! i = second ! i then ver_comp_loop first second (i + 1)
        else Some 1
      else None)"
  by pat_completeness auto
termination
  by (relation "measure (\<lambda>(_, _, i). VER_ENTIRES - i)") auto

declare ver_comp_loop.simps [simp del]

definition ver_comp :: "ota_version \<Rightarrow> ota_version \<Rightarrow> int" where
  "ver_comp first second =
     (case ver_comp_loop (raw first) (raw second) 0 of
        Some r \<Rightarrow> r
      | None \<Rightarrow>
          if memcmp (hash first) (hash second) 8 \<noteq> 0 then 1 else 0)"

text \<open>The specification: the numbers in their lexicographic order.\<close>

datatype ver_num = Ver_Num (n_major: byte) (n_minor: byte) (n_patch: byte) (n_commit: byte)

instantiation ver_num :: linorder
begin

definition less_ver_num :: "ver_num \<Rightarrow> ver_num \<Rightarrow> bool" where
  "a < b \<longleftrightarrow>
     n_major a < n_major b \<or> n_major a = n_major b \<and>
     (n_minor a < n_minor b \<or> n_minor a = n_minor b \<and>
     (n_patch a < n_patch b \<or> n_patch a = n_patch b \<and> n_commit a < n_commit b))"

definition less_eq_ver_num :: "ver_num \<Rightarrow> ver_num \<Rightarrow> bool" where
  "a \<le> b \<longleftrightarrow> a < b \<or> a = (b :: ver_num)"

instance
  by intro_classes
    (auto simp: less_ver_num_def less_eq_ver_num_def intro: ver_num.expand dest: leI)

end

definition numbers :: "ota_version \<Rightarrow> ver_num" where
  "numbers v = Ver_Num (major v) (minor v) (patch v) (commit v)"

lemma raw_nth [simp]:
  "raw v ! 0 = major v" "raw v ! Suc 0 = minor v"
  "raw v ! Suc (Suc 0) = patch v" "raw v ! Suc (Suc (Suc 0)) = commit v"
  by (simp_all add: raw_def)

lemma ver_comp_loop_step:
  "ver_comp_loop as bs i =
     (if 4 \<le> i then None
      else if bs ! i < as ! i then Some (- 1)
      else if as ! i < bs ! i then Some 1
      else ver_comp_loop as bs (Suc i))"
  by (subst ver_comp_loop.simps) (auto simp: VER_ENTIRES_def not_less_iff_gr_or_eq)

lemma ver_comp_loop_unrolled:
  "ver_comp_loop (raw a) (raw b) 0 =
     (if major b < major a then Some (- 1) else if major a < major b then Some 1
      else if minor b < minor a then Some (- 1) else if minor a < minor b then Some 1
      else if patch b < patch a then Some (- 1) else if patch a < patch b then Some 1
      else if commit b < commit a then Some (- 1) else if commit a < commit b then Some 1
      else None)"
  by (subst ver_comp_loop_step, subst ver_comp_loop_step, subst ver_comp_loop_step,
      subst ver_comp_loop_step, subst ver_comp_loop_step) simp

lemma ver_comp_loop_numbers:
  "ver_comp_loop (raw a) (raw b) 0 =
     (if numbers b < numbers a then Some (- 1)
      else if numbers a < numbers b then Some 1 else None)"
  unfolding ver_comp_loop_unrolled numbers_def less_ver_num_def ver_num.sel
  by (cases "major a" "major b" rule: linorder_cases; cases "minor a" "minor b" rule: linorder_cases;
      cases "patch a" "patch b" rule: linorder_cases; cases "commit a" "commit b" rule: linorder_cases;
      simp)

lemma hash_differs_iff:
  "ver_wf a \<Longrightarrow> ver_wf b \<Longrightarrow> memcmp (hash a) (hash b) 8 = 0 \<longleftrightarrow> hash a = hash b"
  by (simp add: ver_wf_def memcmp_eq_0_iff)

lemma numbers_hash_eq: "numbers a = numbers b \<Longrightarrow> hash a = hash b \<Longrightarrow> a = (b :: ota_version)"
  by (simp add: numbers_def)

lemma ver_comp_cases:
  "ver_wf a \<Longrightarrow> ver_wf b \<Longrightarrow> ver_comp a b =
    (if numbers b < numbers a then - 1 else if numbers a < numbers b then 1
     else if hash a = hash b then 0 else 1)"
  using hash_differs_iff [of a b] by (simp add: ver_comp_def ver_comp_loop_numbers)

text \<open>The versions that count as an update: higher numbers, or the same numbers and another hash.\<close>

definition is_update :: "ota_version \<Rightarrow> ota_version \<Rightarrow> bool" where
  "is_update running offered \<longleftrightarrow>
     numbers running < numbers offered \<or> numbers running = numbers offered \<and> hash running \<noteq> hash offered"

lemma ver_comp_1_iff: "ver_wf a \<Longrightarrow> ver_wf b \<Longrightarrow> ver_comp a b = 1 \<longleftrightarrow> is_update a b"
  by (auto simp: ver_comp_cases is_update_def)

text \<open>
  C26. On well-formed versions \<open>ver_comp\<close> decides by the lexicographic order of the four
  version numbers, and among equal numbers by equality of the hashes: 0 for the same build,
  1 for another build with the same numbers.
\<close>

theorem ver_comp_spec:
  assumes "ver_wf a" and "ver_wf b"
  shows "ver_comp a b =
    (if numbers b < numbers a then - 1 else if numbers a < numbers b then 1
     else if hash a = hash b then 0 else 1)"
  by (rule ver_comp_cases [OF assms])

theorem ver_comp_spec_witness:
  "ver_comp \<lparr>major = 1, minor = 2, patch = 3, commit = 4, hash = replicate 8 97\<rparr>
     \<lparr>major = 1, minor = 3, patch = 0, commit = 0, hash = replicate 8 97\<rparr> = 1"
  by (subst ver_comp_spec) (simp_all add: ver_wf_def numbers_def less_ver_num_def)

text \<open>The result 0 means the same build: \<open>ver_comp\<close> separates well-formed versions.\<close>

lemma ver_comp_0_iff: "ver_wf a \<Longrightarrow> ver_wf b \<Longrightarrow> ver_comp a b = 0 \<longleftrightarrow> a = b"
  using numbers_hash_eq [of a b] by (auto simp: ver_comp_cases)

lemma ver_comp_range: "ver_comp a b \<in> {- 1, 0, 1}"
  by (simp add: ver_comp_def ver_comp_loop_numbers)

section \<open>The update gate\<close>

text \<open>
  The MQTT handler starts an update exactly when the comparison of the running version with
  the offered one returns 1. Its contract with the comparison, and what follows for a device
  that is offered one version after another and boots each one it accepts.
\<close>

definition accepts :: "('v \<Rightarrow> 'v \<Rightarrow> int) \<Rightarrow> 'v \<Rightarrow> 'v \<Rightarrow> bool" where
  "accepts cmp running offer \<longleftrightarrow> cmp running offer = 1"

fun boots :: "('v \<Rightarrow> 'v \<Rightarrow> int) \<Rightarrow> 'v \<Rightarrow> 'v list \<Rightarrow> 'v" where
  "boots cmp running [] = running"
| "boots cmp running (offer # offers) =
     boots cmp (if accepts cmp running offer then offer else running) offers"

locale update_gate =
  fixes cmp :: "'v \<Rightarrow> 'v \<Rightarrow> int" and key :: "'v \<Rightarrow> 'k :: linorder" and wf :: "'v \<Rightarrow> bool"
  assumes cmp_self: "wf v \<Longrightarrow> cmp v v = 0"
    and cmp_newer: "wf a \<Longrightarrow> wf b \<Longrightarrow> key a < key b \<Longrightarrow> cmp a b = 1"
    and cmp_older: "wf a \<Longrightarrow> wf b \<Longrightarrow> key b < key a \<Longrightarrow> cmp a b \<noteq> 1"
begin

lemma accepted_not_older: "wf a \<Longrightarrow> wf b \<Longrightarrow> accepts cmp a b \<Longrightarrow> key a \<le> key b"
  using cmp_older [of a b] by (cases "key b < key a") (simp_all add: accepts_def)

lemma not_accepted_again: "wf b \<Longrightarrow> \<not> accepts cmp b b"
  by (simp add: accepts_def cmp_self)

lemma boots_wf: "wf v \<Longrightarrow> list_all wf offers \<Longrightarrow> wf (boots cmp v offers)"
  by (induction offers arbitrary: v) auto

lemma boots_monotone: "wf v \<Longrightarrow> list_all wf offers \<Longrightarrow> key v \<le> key (boots cmp v offers)"
proof (induction offers arbitrary: v)
  case (Cons w ws)
  let ?v' = "if accepts cmp v w then w else v"
  have "key v \<le> key ?v'"
    using Cons.prems accepted_not_older [of v w] by simp
  also have "key ?v' \<le> key (boots cmp ?v' ws)"
    using Cons.prems by (intro Cons.IH) simp_all
  finally show ?case by simp
qed simp

lemma boots_reaches_offer:
  "wf v \<Longrightarrow> list_all wf offers \<Longrightarrow> w \<in> set offers \<Longrightarrow> key w \<le> key (boots cmp v offers)"
proof (induction offers arbitrary: v)
  case (Cons u us)
  let ?v' = "if accepts cmp v u then u else v"
  have "wf ?v'" using Cons.prems by simp
  have "key u \<le> key ?v'"
    using Cons.prems(1,2) cmp_newer [of v u]
    by (cases "key v < key u") (auto simp: accepts_def)
  also have "key ?v' \<le> key (boots cmp ?v' us)"
    using Cons.prems \<open>wf ?v'\<close> by (intro boots_monotone) simp_all
  finally show ?case
    using Cons.IH [OF \<open>wf ?v'\<close>] Cons.prems by auto
qed simp

end

interpretation ver_gate: update_gate ver_comp numbers ver_wf
  by unfold_locales (auto simp: ver_comp_cases)

text \<open>
  Whatever well-formed versions a device is offered, one after the other, the version
  numbers of what it runs never decrease, and at the end they are at least those of every
  version it was offered: no downgrade, and no newer version is passed over.
\<close>

theorem updates_never_downgrade:
  assumes "ver_wf running" and "list_all ver_wf offers"
  shows "numbers running \<le> numbers (boots ver_comp running offers) \<and>
    list_all (\<lambda>w. numbers w \<le> numbers (boots ver_comp running offers)) offers"
  using ver_gate.boots_monotone [OF assms] ver_gate.boots_reaches_offer [OF assms]
  by (simp add: list_all_iff)

theorem updates_never_downgrade_witness:
  "let v = \<lparr>major = 1, minor = 2, patch = 3, commit = 4, hash = replicate 8 97\<rparr>;
       w = v\<lparr>minor := 3, patch := 0\<rparr>
   in boots ver_comp v [w, v] = w \<and> numbers v \<le> numbers (boots ver_comp v [w, v])"
proof -
  let ?v = "\<lparr>major = 1, minor = 2, patch = 3, commit = 4, hash = replicate 8 97\<rparr> :: ota_version"
  let ?w = "?v\<lparr>minor := 3, patch := 0\<rparr>"
  have wf: "ver_wf ?v" "list_all ver_wf [?w, ?v]" by (simp_all add: ver_wf_def)
  have "boots ver_comp ?v [?w, ?v] = ?w"
    by (simp add: accepts_def ver_comp_cases ver_wf_def numbers_def less_ver_num_def)
  with updates_never_downgrade [OF wf] show ?thesis by (simp only: Let_def simp_thms)
qed

section \<open>The version string\<close>

text \<open>
  \<open>get_version_string\<close> prints \<open>pyrinas_version\<close>, here the argument \<open>v\<close>: its members are set
  by the build. The conversion \<open>%.*s\<close> with the precision 8 prints the hash up to a NUL.
\<close>

definition hash_text :: "ota_version \<Rightarrow> string" where
  "hash_text v = map (\<lambda>b. char_of (unat b)) (takeWhile (\<lambda>b. b \<noteq> 0) (take 8 (hash v)))"

definition version_text :: "ota_version \<Rightarrow> string" where
  "version_text v =
     show_nat (unat (major v)) @ ''.'' @ show_nat (unat (minor v)) @ ''.'' @
     show_nat (unat (patch v)) @ ''-'' @ show_nat (unat (commit v)) @ ''-'' @ hash_text v"

definition get_version_string :: "ota_version \<Rightarrow> nat \<Rightarrow> nat \<times> string" where
  "get_version_string v sz = (length (version_text v), snprintf sz (version_text v))"

lemma hash_text_length: "length (hash_text v) \<le> 8"
  using length_takeWhile_le [of "\<lambda>b. b \<noteq> 0" "take 8 (hash v)"] by (simp add: hash_text_def)

lemma version_text_length: "length (version_text v) \<le> 24"
proof -
  have "length (show_nat (unat b)) \<le> 3" for b :: byte
    using byte_bound [of b] by (intro show_nat_byte_length) simp
  from this [of "major v"] this [of "minor v"] this [of "patch v"] this [of "commit v"]
  show ?thesis using hash_text_length [of v] by (simp add: version_text_def)
qed

text \<open>
  A buffer of more than 24 bytes, as the 64 bytes of the sample application, holds every
  version string whole. The 24 bytes of the member \<open>version\<close> of the telemetry data do not:
  the string of a version whose four numbers have three digits and whose hash has eight
  characters is cut, and the return value 24 says so.
\<close>

theorem version_string_fits:
  "(25 \<le> sz \<longrightarrow> get_version_string v sz = (length (version_text v), version_text v)) \<and>
   (100 \<le> unat (major v) \<and> 100 \<le> unat (minor v) \<and> 100 \<le> unat (patch v) \<and>
    100 \<le> unat (commit v) \<and> length (hash_text v) = 8 \<longrightarrow>
    get_version_string v 24 = (24, butlast (version_text v)))"
proof -
  have "length (show_nat (unat b)) = 3" if "100 \<le> unat b" for b :: byte
    using that byte_bound [of b] by (intro show_nat_hundreds_length) simp_all
  then have "length (version_text v) = 24"
    if "100 \<le> unat (major v)" "100 \<le> unat (minor v)" "100 \<le> unat (patch v)"
      "100 \<le> unat (commit v)" "length (hash_text v) = 8"
    using that by (simp add: version_text_def)
  then show ?thesis
    using version_text_length [of v]
    by (auto simp: get_version_string_def snprintf_def butlast_conv_take)
qed

theorem version_string_fits_witness:
  "get_version_string \<lparr>major = 100, minor = 101, patch = 102, commit = 103, hash = [97, 97, 97, 97, 97, 97, 97, 97]\<rparr> 24
     = (24, ''100.101.102-103-aaaaaaa'')"
proof -
  let ?v = "\<lparr>major = 100, minor = 101, patch = 102, commit = 103, hash = [97, 97, 97, 97, 97, 97, 97, 97]\<rparr>"
  have t: "version_text ?v = ''100.101.102-103-aaaaaaaa''"
    by (simp add: version_text_def hash_text_def show_nat_step char_of_def bit_Suc_0_iff)
  have "length (hash_text ?v) = 8"
    by (simp add: hash_text_def)
  then show ?thesis
    using version_string_fits [of 24 ?v] by (simp add: t)
qed

end
