(* ===== verification/Comms_Uart.thy ===== *)
theory Comms_Uart
  imports Prelude
begin

text \<open>
  The UART link of \<open>subsys/comms/comms.c\<close>. The first part is the receive thread, which cuts
  the byte stream into messages: each message is one length byte and that many bytes. The
  second part is the driver side: the transmit queue, the receive buffers and the callback of
  the UART driver.

  The ring buffers, the memory slab, the semaphore and the UART driver are Zephyr's: calls
  into them are recorded in the trace. What \<open>ring_buf_get_claim\<close> gives the receive thread is an
  argument of its iteration.
\<close>

section \<open>State\<close>

definition UART_RINGBUF_SIZE :: nat where
  "UART_RINGBUF_SIZE = 512"

definition UART_SLAB_BUF_SIZE :: nat where
  "UART_SLAB_BUF_SIZE = 128"

text \<open>The calls into Zephyr and into the application. \<open>Tx\<close> and \<open>Rx\<close> name the two ring buffers.\<close>

datatype comms_call =
  Tx_get_claim nat | Tx_get_finish nat | Tx_is_empty | Tx_put "byte list"
| Rx_put "byte list" | Rx_get_finish nat
| Uart_tx nat | Uart_rx_enable nat nat | Uart_rx_buf_rsp nat
| Slab_alloc | Slab_free nat | Sem_give
| Device_get_binding | Uart_callback_set
| App_callback "byte list"

text \<open>
  \<open>message\<close> is the static buffer of 256 bytes, \<open>message_size\<close> the local of that name, and
  \<open>next_off\<close> is \<open>p_message_next - message\<close>. \<open>callback\<close> says whether \<open>comms_init\<close> has stored
  the application's callback.
\<close>

record comms = "comms_call world" +
  message :: "byte list"
  message_size :: nat
  next_off :: nat
  callback :: bool

section \<open>The receive thread\<close>

text \<open>
  The end of an iteration that has completed a message: \<open>rest\<close> are the bytes from
  \<open>p_data_start\<close> to \<open>p_data_end\<close>. \<open>None\<close> is a write past the end of \<open>message\<close>.
\<close>

definition rx_after_message :: "byte list \<Rightarrow> comms \<Rightarrow> comms option" where
  "rx_after_message rest s =
     (let s = s\<lparr>next_off := 0\<rparr> in
      if rest \<noteq> [] then
        let s = s\<lparr>message_size := unat (hd rest)\<rparr> in
        if message_size s = 0 then Some s
        else case memcpy_at (message s) (next_off s) (tl rest) of
               None \<Rightarrow> None
             | Some m \<Rightarrow> Some (s\<lparr>message := m, next_off := next_off s + length (tl rest)\<rparr>)
      else Some (s\<lparr>message_size := 0\<rparr>))"

text \<open>
  One iteration between the claim and the label \<open>free\<close>. When no message is being read, the
  first byte is the size of the next one (\<open>rx_start\<close>); a size of 0 skips the rest of the chunk.
  Then as many bytes as the message still needs are copied (\<open>rx_data\<close>).
\<close>

definition rx_start :: "byte list \<Rightarrow> comms \<Rightarrow> comms \<times> byte list" where
  "rx_start chunk s =
     (if message_size s = 0
      then (s\<lparr>next_off := 0, message_size := unat (hd chunk)\<rparr>, tl chunk)
      else (s, chunk))"

definition rx_data :: "byte list \<Rightarrow> comms \<Rightarrow> comms option" where
  "rx_data data s =
     (let remaining = size_sub (message_size s) (next_off s);
          read_cnt = (if remaining < length data then remaining else length data)
      in case memcpy_at (message s) (next_off s) (take read_cnt data) of
           None \<Rightarrow> None
         | Some m \<Rightarrow>
             let s = s\<lparr>message := m\<rparr> in
             if remaining - read_cnt = 0 then
               rx_after_message (drop read_cnt data)
                 (emit (App_callback (take (message_size s) (message s))) s)
             else Some (s\<lparr>next_off := next_off s + read_cnt\<rparr>))"

definition rx_chunk :: "byte list \<Rightarrow> comms \<Rightarrow> comms option" where
  "rx_chunk chunk s =
     (let (s, data) = rx_start chunk s in
      if message_size s = 0 then Some s else rx_data data s)"

text \<open>
  One turn of the loop after the semaphore: an empty claim goes back to waiting, any other is
  worked off and released.
\<close>

definition comms_rx_iter :: "byte list \<Rightarrow> comms \<Rightarrow> comms option" where
  "comms_rx_iter chunk s =
     (if chunk = [] then Some s
      else map_option (emit (Rx_get_finish (length chunk))) (rx_chunk chunk s))"

text \<open>The thread starts with no message and runs over the chunks it claims, one after the other.\<close>

definition comms_rx_init :: "comms \<Rightarrow> comms" where
  "comms_rx_init s = s\<lparr>message_size := 0\<rparr>"

fun comms_rx_run :: "comms \<Rightarrow> byte list list \<Rightarrow> comms option" where
  "comms_rx_run s [] = Some s"
| "comms_rx_run s (c # cs) =
     (case comms_rx_iter c s of None \<Rightarrow> None | Some s' \<Rightarrow> comms_rx_run s' cs)"

section \<open>Framing\<close>

text \<open>The messages handed to the application, oldest first.\<close>

fun deliveries_of :: "(comms_call \<times> int) list \<Rightarrow> byte list list" where
  "deliveries_of [] = []"
| "deliveries_of ((App_callback m, _) # t) = m # deliveries_of t"
| "deliveries_of (_ # t) = deliveries_of t"

lemma deliveries_of_append [trace_simps]:
  "deliveries_of (t @ u) = deliveries_of t @ deliveries_of u"
  by (induction t rule: deliveries_of.induct) auto

abbreviation deliveries :: "comms \<Rightarrow> byte list list" where
  "deliveries s \<equiv> deliveries_of (calls s)"

text \<open>A message on the wire, and the part of a message the thread holds between two chunks.\<close>

definition frame :: "byte list \<Rightarrow> byte list" where
  "frame m = word_of_nat (length m) # m"

definition message_wf :: "byte list \<Rightarrow> bool" where
  "message_wf m \<longleftrightarrow> m \<noteq> [] \<and> length m < 256"

definition pending :: "comms \<Rightarrow> byte list" where
  "pending s = (if message_size s = 0 then []
     else word_of_nat (message_size s) # take (next_off s) (message s))"

definition rx_inv :: "comms \<Rightarrow> bool" where
  "rx_inv s \<longleftrightarrow> length (message s) = 256 \<and> message_size s < 256 \<and>
     (message_size s \<noteq> 0 \<longrightarrow> next_off s \<le> message_size s)"

text \<open>
  What the thread relies on: a chunk reaches at most to the end of the message after the one
  that is being read, and no message is empty.
\<close>

definition frame_rest :: "comms \<Rightarrow> byte list \<Rightarrow> byte list" where
  "frame_rest s chunk =
     drop (if message_size s = 0 then 1 + unat (hd chunk) else message_size s - next_off s) chunk"

definition chunk_ok :: "comms \<Rightarrow> byte list \<Rightarrow> bool" where
  "chunk_ok s chunk \<longleftrightarrow> (message_size s = 0 \<longrightarrow> chunk \<noteq> [] \<longrightarrow> hd chunk \<noteq> 0) \<and>
     length chunk \<le> UART_RINGBUF_SIZE \<and>
     (let rest = frame_rest s chunk in
      rest \<noteq> [] \<longrightarrow> hd rest \<noteq> 0 \<and> length rest \<le> 1 + unat (hd rest))"

fun chunks_ok :: "comms \<Rightarrow> byte list list \<Rightarrow> bool" where
  "chunks_ok s [] = True"
| "chunks_ok s (c # cs) =
     (chunk_ok s c \<and> (case comms_rx_iter c s of None \<Rightarrow> True | Some s' \<Rightarrow> chunks_ok s' cs))"

lemma word_of_nat_byte [simp]: "word_of_nat (unat (b :: byte)) = b"
  by simp

lemma unat_word_of_nat_byte [simp]: "n < 256 \<Longrightarrow> unat (word_of_nat n :: byte) = n"
  by (simp add: unat_of_nat)

text \<open>The bytes that follow a completed message become the pending part of the next one.\<close>

lemma rx_after_message_pending:
  assumes "length (message s) = 256"
    and "rest \<noteq> [] \<Longrightarrow> hd rest \<noteq> 0 \<and> length rest \<le> 1 + unat (hd rest)"
  shows "\<exists>s'. rx_after_message rest s = Some s' \<and> rx_inv s' \<and> pending s' = rest \<and> calls s' = calls s"
proof (cases rest)
  case Nil
  then show ?thesis using assms(1) by (simp add: rx_after_message_def rx_inv_def pending_def)
next
  case (Cons b bs)
  then have "b \<noteq> 0" "length bs \<le> unat b" using assms(2) by auto
  moreover have "unat b < 256" by (rule byte_bound)
  ultimately show ?thesis using Cons assms(1)
    by (simp add: rx_after_message_def rx_inv_def pending_def memcpy_at_fits unat_eq_0)
qed

lemma rx_data_step:
  assumes inv: "rx_inv s" and sz: "message_size s \<noteq> 0"
    and rest: "let rest = drop (message_size s - next_off s) data in
      rest \<noteq> [] \<longrightarrow> hd rest \<noteq> 0 \<and> length rest \<le> 1 + unat (hd rest)"
  shows "\<exists>s' ds. rx_data data s = Some s' \<and> rx_inv s' \<and> deliveries s' = deliveries s @ ds \<and>
     list_all message_wf ds \<and> pending s @ data = concat (map frame ds) @ pending s'"
proof -
  let ?n = "message_size s" and ?k = "message_size s - next_off s"
  have b: "length (message s) = 256" "?n < 256" "next_off s \<le> ?n"
    using inv sz by (auto simp: rx_inv_def)
  have rem: "size_sub ?n (next_off s) = ?k" using b by simp
  have p: "pending s = word_of_nat ?n # take (next_off s) (message s)"
    using sz by (simp add: pending_def)
  show ?thesis
  proof (cases "length data < ?k")
    case True
    then have "rx_data data s = Some (s\<lparr>
        message := take (next_off s) (message s) @ data @ drop (next_off s + length data) (message s),
        next_off := next_off s + length data\<rparr>)"
      using b by (simp add: rx_data_def rem memcpy_at_fits Let_def)
    then show ?thesis using b True sz by (simp add: rx_inv_def pending_def)
  next
    case False
    let ?body = "take (next_off s) (message s) @ take ?k data"
    let ?m = "?body @ drop ?n (message s)"
    let ?s1 = "emit (App_callback ?body) (s\<lparr>message := ?m\<rparr>)"
    have "next_off s + ?k = ?n" "length ?body = ?n" using b False by simp_all
    moreover have "(if ?k < length data then ?k else length data) = ?k" using False by simp
    moreover have "memcpy_at (message s) (next_off s) (take ?k data) = Some ?m"
      using b False by (simp add: memcpy_at_fits)
    ultimately have "rx_data data s = rx_after_message (drop ?k data) ?s1"
      by (simp add: rx_data_def rem Let_def)
    moreover from \<open>length ?body = ?n\<close> obtain s' where s': "rx_after_message (drop ?k data) ?s1 = Some s'" "rx_inv s'"
        "pending s' = drop ?k data" "calls s' = calls ?s1"
      using rx_after_message_pending [of ?s1 "drop ?k data"] rest b \<open>length ?body = ?n\<close>
      by (auto simp: Let_def emit_def)
    moreover have "deliveries s' = deliveries s @ [?body]"
      using s'(4) by (simp add: deliveries_of_append)
    moreover have "message_wf ?body"
      using \<open>length ?body = ?n\<close> b sz by (auto simp: message_wf_def)
    moreover have "pending s @ data = frame ?body @ drop ?k data"
      by (simp only: frame_def p \<open>length ?body = ?n\<close> append.simps append_assoc append_take_drop_id)
    ultimately show ?thesis by (intro exI [of _ s'] exI [of _ "[?body]"]) simp
  qed
qed

lemma rx_chunk_step:
  assumes inv: "rx_inv s" and ne: "chunk \<noteq> []" and ok: "chunk_ok s chunk"
  shows "\<exists>s' ds. rx_chunk chunk s = Some s' \<and> rx_inv s' \<and> deliveries s' = deliveries s @ ds \<and>
     list_all message_wf ds \<and> pending s @ chunk = concat (map frame ds) @ pending s'"
proof (cases "message_size s = 0")
  case False
  then show ?thesis
    using rx_data_step [OF inv False, of chunk] ok
    by (simp add: rx_chunk_def rx_start_def chunk_ok_def frame_rest_def)
next
  case True
  obtain b bs where chunk: "chunk = b # bs" using ne by (cases chunk) auto
  let ?s = "s\<lparr>next_off := 0, message_size := unat b\<rparr>"
  have b: "unat b \<noteq> 0" "unat b < 256" using ok True chunk byte_bound [of b]
    by (auto simp: chunk_ok_def unat_eq_0)
  have "rx_inv ?s" using inv b by (simp add: rx_inv_def)
  moreover have "let rest = drop (message_size ?s - next_off ?s) bs in
      rest \<noteq> [] \<longrightarrow> hd rest \<noteq> 0 \<and> length rest \<le> 1 + unat (hd rest)"
    using ok True chunk by (simp add: chunk_ok_def frame_rest_def)
  moreover have "pending s @ chunk = pending ?s @ bs"
    using True chunk b by (simp add: pending_def)
  moreover have "rx_chunk chunk s = rx_data bs ?s"
    using True chunk b by (simp add: rx_chunk_def rx_start_def)
  ultimately show ?thesis
    using rx_data_step [of ?s bs] b by simp
qed

lemma comms_rx_iter_step:
  assumes "rx_inv s" and "chunk_ok s chunk"
  shows "\<exists>s' ds. comms_rx_iter chunk s = Some s' \<and> rx_inv s' \<and> deliveries s' = deliveries s @ ds \<and>
     list_all message_wf ds \<and> pending s @ chunk = concat (map frame ds) @ pending s'"
proof (cases "chunk = []")
  case True
  then show ?thesis using assms by (auto simp: comms_rx_iter_def intro!: exI [of _ s] exI [of _ "[]"])
next
  case False
  from rx_chunk_step [OF assms(1) False assms(2)] obtain s' ds where
    "rx_chunk chunk s = Some s'" "rx_inv s'" "deliveries s' = deliveries s @ ds"
    "list_all message_wf ds" "pending s @ chunk = concat (map frame ds) @ pending s'" by blast
  then show ?thesis using False
    by (intro exI [of _ "emit (Rx_get_finish (length chunk)) s'"] exI [of _ ds])
      (simp add: comms_rx_iter_def rx_inv_def pending_def deliveries_of_append, simp add: emit_def)
qed

lemma comms_rx_run_step:
  "rx_inv s \<Longrightarrow> chunks_ok s cs \<Longrightarrow>
   \<exists>s' ds. comms_rx_run s cs = Some s' \<and> rx_inv s' \<and> deliveries s' = deliveries s @ ds \<and>
     list_all message_wf ds \<and> pending s @ concat cs = concat (map frame ds) @ pending s'"
proof (induction cs arbitrary: s)
  case Nil
  then show ?case by (intro exI [of _ s] exI [of _ "[]"]) simp
next
  case (Cons c cs)
  from comms_rx_iter_step [of s c] Cons.prems obtain s1 d1 where
    1: "comms_rx_iter c s = Some s1" "rx_inv s1" "deliveries s1 = deliveries s @ d1"
      "list_all message_wf d1" "pending s @ c = concat (map frame d1) @ pending s1" by auto
  from Cons.IH [of s1] 1 Cons.prems obtain s2 d2 where
    2: "comms_rx_run s1 cs = Some s2" "rx_inv s2" "deliveries s2 = deliveries s1 @ d2"
      "list_all message_wf d2" "pending s1 @ concat cs = concat (map frame d2) @ pending s2" by auto
  have "pending s @ c @ concat cs = concat (map frame (d1 @ d2)) @ pending s2"
    using 1(5) 2(5) by (metis append_assoc concat_append map_append)
  then show ?case using 1 2 by (intro exI [of _ s2] exI [of _ "d1 @ d2"]) simp
qed

text \<open>Frames can be read back in one way only.\<close>

lemma frame_inj:
  assumes "frame a @ x = frame b @ y" and "message_wf a" and "message_wf b"
  shows "a = b \<and> x = y"
proof -
  from assms have "word_of_nat (length a) = (word_of_nat (length b) :: byte)"
    by (simp add: frame_def)
  then have "length a = length b"
    using assms(2,3) unat_word_of_nat_byte by (metis message_wf_def)
  then show ?thesis using assms(1) by (simp add: frame_def)
qed

lemma frames_prefix:
  "concat (map frame ds) @ p = concat (map frame fs) \<Longrightarrow> list_all message_wf ds \<Longrightarrow>
   list_all message_wf fs \<Longrightarrow> \<exists>gs. fs = ds @ gs \<and> p = concat (map frame gs)"
proof (induction ds arbitrary: fs)
  case (Cons d ds)
  then obtain f fs' where fs: "fs = f # fs'" by (cases fs) (auto simp: frame_def)
  with Cons.prems have "d = f \<and> concat (map frame ds) @ p = concat (map frame fs')"
    by (intro frame_inj) simp_all
  then show ?case using Cons.IH [of fs'] Cons.prems fs by auto
qed simp

lemma header_of_frame:
  "message_wf m \<Longrightarrow> b # x = frame m @ y \<Longrightarrow> unat b = length m \<and> b \<noteq> 0 \<and> x = m @ y"
  by (auto simp: frame_def message_wf_def unat_word_of_nat_byte dest!: arg_cong [where f = unat])

text \<open>
  In the middle of a message: what a chunk holds beyond its end is the beginning of the next frame, and at most that frame.
\<close>

lemma chunk_rest_of_frames:
  assumes inv: "rx_inv s" and False: "message_size s \<noteq> 0" and str: "pending s @ chunk @ rest = concat (map frame gs)"
    and wf: "list_all message_wf gs" and short: "list_all (\<lambda>g. length chunk \<le> length (frame g)) gs" and "chunk \<noteq> []"
  shows "let r = drop (message_size s - next_off s) chunk in r \<noteq> [] \<longrightarrow> hd r \<noteq> 0 \<and> length r \<le> Suc (unat (hd r))"
proof -
  let ?n = "message_size s" and ?k = "message_size s - next_off s"
  obtain g gs' where gs: "gs = g # gs'" using str \<open>chunk \<noteq> []\<close> by (cases gs) auto
  have g: "message_wf g" using wf gs by simp
  have b: "length (message s) = 256" "?n < 256" "next_off s \<le> ?n"
    using inv False by (auto simp: rx_inv_def)
  have eq: "take (next_off s) (message s) @ chunk @ rest = g @ concat (map frame gs')"
    and n: "length g = ?n"
    using header_of_frame [OF g, of "word_of_nat ?n"] str False b gs
    by (auto simp: pending_def)
  have "drop ?k chunk = take (length chunk - ?k) (drop ?n (take (next_off s) (message s) @ chunk @ rest))"
    using b by (simp add: drop_take)
  also have "\<dots> = take (length chunk - ?k) (concat (map frame gs'))" by (simp add: eq n)
  finally have rest: "drop ?k chunk = take (length chunk - ?k) (concat (map frame gs'))" .
  show ?thesis
  proof (cases "drop ?k chunk = []")
    case ne: False
    then obtain g' gs'' where gs': "gs' = g' # gs''" using rest by (cases gs') auto
    then have "unat (hd (drop ?k chunk)) = length g'" "hd (drop ?k chunk) \<noteq> 0"
      using rest ne wf gs header_of_frame [of g' "word_of_nat (length g')" g' "[]"]
      by (auto simp: frame_def take_Cons split: nat.splits)
    moreover have "length chunk - ?k \<le> Suc (length g')"
      using short gs gs' by (auto simp: frame_def)
    ultimately show ?thesis by (simp add: Let_def)
  qed simp
qed

text \<open>A chunk no longer than any frame of the stream is one the thread can work off.\<close>

lemma chunk_ok_of_frames:
  assumes inv: "rx_inv s" and str: "pending s @ chunk @ rest = concat (map frame gs)"
    and wf: "list_all message_wf gs" and short: "list_all (\<lambda>g. length chunk \<le> length (frame g)) gs"
  shows "chunk_ok s chunk"
proof (cases chunk)
  case Nil
  then show ?thesis by (simp add: chunk_ok_def frame_rest_def)
next
  case (Cons b bs)
  then obtain g gs' where gs: "gs = g # gs'" using str by (cases gs) auto
  have g: "message_wf g" using wf gs by simp
  have len: "length chunk \<le> UART_RINGBUF_SIZE"
    using short gs g by (simp add: frame_def message_wf_def UART_RINGBUF_SIZE_def)
  show ?thesis
  proof (cases "message_size s = 0")
    case True
    then have "unat b = length g \<and> b \<noteq> 0"
      using header_of_frame [OF g, of b "bs @ rest"] str Cons gs by (simp add: pending_def)
    then show ?thesis using True Cons len short gs
      by (simp add: chunk_ok_def frame_rest_def frame_def)
  next
    case False
    then show ?thesis
      using chunk_rest_of_frames [OF inv False str wf short] len Cons by (simp add: chunk_ok_def frame_rest_def Let_def)
  qed
qed

lemma chunks_ok_of_frames:
  "rx_inv s \<Longrightarrow> pending s @ concat cs @ rest = concat (map frame gs) \<Longrightarrow> list_all message_wf gs \<Longrightarrow>
   list_all (\<lambda>c. list_all (\<lambda>g. length c \<le> length (frame g)) gs) cs \<Longrightarrow> chunks_ok s cs"
proof (induction cs arbitrary: s gs)
  case (Cons c cs)
  have ok: "chunk_ok s c"
    using Cons.prems by (intro chunk_ok_of_frames [where rest = "concat cs @ rest" and gs = gs]) simp_all
  from comms_rx_iter_step [OF Cons.prems(1) ok] obtain s' ds where
    s': "comms_rx_iter c s = Some s'" "rx_inv s'" "list_all message_wf ds"
      "pending s @ c = concat (map frame ds) @ pending s'" by auto
  have "concat (map frame ds) @ pending s' @ concat cs @ rest = concat (map frame gs)"
    using Cons.prems(2) s'(4) by (metis append_assoc concat.simps(2))
  then obtain gs' where gs': "gs = ds @ gs'" "pending s' @ concat cs @ rest = concat (map frame gs')"
    using frames_prefix s'(3) Cons.prems(3) by blast
  then have "chunks_ok s' cs"
    using Cons.prems s'(2) by (intro Cons.IH [of s' gs']) (auto simp: list_all_iff)
  then show ?case using ok s'(1) by simp
qed simp

text \<open>What is pending is a proper part of one message, or one whole message.\<close>

lemma pending_at_most_one:
  assumes "rx_inv s" and "pending s = concat (map frame gs)" and "list_all message_wf gs"
  shows "length gs \<le> 1"
proof (cases gs)
  case (Cons g gs')
  then have "message_size s \<noteq> 0"
    using assms(2) by (auto simp: pending_def frame_def split: if_splits)
  then have "length g = message_size s" "take (next_off s) (message s) = g @ concat (map frame gs')"
    using header_of_frame [of g "word_of_nat (message_size s)"] assms Cons
    by (auto simp: pending_def rx_inv_def)
  then have "length (concat (map frame gs')) = 0"
    using assms(1) \<open>message_size s \<noteq> 0\<close>
    by (metis add_le_same_cancel1 le_zero_eq length_append length_take min.coboundedI2 rx_inv_def)
  then show ?thesis using Cons by (cases gs') (auto simp: frame_def)
qed simp


definition rx_example :: comms where
  "rx_example = \<lparr>calls = [], message = replicate 256 0, message_size = 0, next_off = 0, callback = True\<rparr>"


text \<open>Out of step, a chunk is only copied, or it overruns the array.\<close>

lemma desync_chunk:
  assumes "length (message s) = 256" and "0 < message_size s" and "message_size s < next_off s" and "next_off s \<le> 256"
    and "length c \<le> UART_RINGBUF_SIZE" and "c \<noteq> []"
  shows "comms_rx_iter c s =
    (if 256 < next_off s + length c then None
     else Some (emit (Rx_get_finish (length c))
       (s\<lparr>message := take (next_off s) (message s) @ c @ drop (next_off s + length c) (message s), next_off := next_off s + length c\<rparr>)))"
proof -
  have rem: "size_sub (message_size s) (next_off s) = 2 ^ 32 + message_size s - next_off s"
    using assms by (simp add: size_sub_eq)
  have c: "length c < 2 ^ 32 + message_size s - next_off s"
    using assms by (auto simp: UART_RINGBUF_SIZE_def)
  show ?thesis
    using assms c by (auto simp: comms_rx_iter_def rx_chunk_def rx_data_def rx_start_def rem memcpy_at_overflow memcpy_at_fits Let_def)
qed

text \<open>
  C32. Outside that condition the thread loses the framing for good. When a chunk reaches past
  the end of the second message, the write position passes the size of the message being read
  and the 32-bit difference of the two wraps; from then on no chunk ever completes a message,
  every byte received moves the position on, and as soon as the position would pass the 256
  bytes of \<open>message\<close> the thread writes behind the array.
\<close>

theorem rx_desync_is_permanent:
  assumes "length (message s) = 256" and "0 < message_size s" and "message_size s < next_off s"
    and "next_off s \<le> 256" and "list_all (\<lambda>c. length c \<le> UART_RINGBUF_SIZE) chunks"
  shows "(case comms_rx_run s chunks of
      None \<Rightarrow> 256 < next_off s + length (concat chunks)
    | Some s' \<Rightarrow> deliveries s' = deliveries s \<and> next_off s' = next_off s + length (concat chunks) \<and>
        next_off s' \<le> 256)"
  using assms
proof (induction chunks arbitrary: s)
  case Nil
  then show ?case by simp
next
  case (Cons c cs)
  note step = desync_chunk [OF Cons.prems(1-4), of c]
  consider "c = []" | "c \<noteq> []" "256 < next_off s + length c" | "c \<noteq> []" "next_off s + length c \<le> 256"
    by fastforce
  then show ?case
  proof cases
    case 1
    then show ?thesis using Cons.IH [of s] Cons.prems by (simp add: comms_rx_iter_def split: option.splits)
  next
    case 2
    then show ?thesis using step Cons.prems(5) by simp
  next
    case 3
    let ?m = "take (next_off s) (message s) @ c @ drop (next_off s + length c) (message s)"
    let ?s' = "emit (Rx_get_finish (length c)) (s\<lparr>message := ?m, next_off := next_off s + length c\<rparr>)"
    have "case comms_rx_run ?s' cs of
        None \<Rightarrow> 256 < next_off ?s' + length (concat cs)
      | Some t \<Rightarrow> deliveries t = deliveries ?s' \<and> next_off t = next_off ?s' + length (concat cs) \<and> next_off t \<le> 256"
      using 3 Cons.prems by (intro Cons.IH) (simp_all add: emit_def)
    moreover have "deliveries ?s' = deliveries s" "next_off ?s' = next_off s + length c"
      by (simp_all add: deliveries_of_append emit_def)
    ultimately show ?thesis using 3 step Cons.prems(5) by (simp split: option.splits)
  qed
qed

text \<open>
  Three messages of one byte in one chunk bring the thread into such a state: the first one is
  delivered, the second and the third are not, and two hundred and fifty-four bytes later the
  array has been overrun.
\<close>

theorem rx_desync_is_permanent_witness:
  "\<exists>s. comms_rx_iter [1, 7, 1, 8, 1, 9] (comms_rx_init rx_example) = Some s \<and>
     deliveries s = [[7]] \<and> message_size s = 1 \<and> next_off s = 3 \<and>
     (case comms_rx_run s [replicate 254 1] of
        None \<Rightarrow> 256 < next_off s + length (concat [replicate 254 (1 :: byte)])
      | Some s' \<Rightarrow> deliveries s' = deliveries s \<and>
          next_off s' = next_off s + length (concat [replicate 254 (1 :: byte)]) \<and> next_off s' \<le> 256)"
proof -
  let ?s = "rx_example\<lparr>calls := [(App_callback [7], 0), (Rx_get_finish 6, 0)],
      message := [8, 1, 9] @ replicate 253 0, message_size := 1, next_off := 3\<rparr>"
  have 1: "comms_rx_iter [1, 7, 1, 8, 1, 9] (comms_rx_init rx_example) = Some ?s"
    by (simp add: comms_rx_iter_def comms_rx_init_def rx_chunk_def rx_data_def rx_start_def rx_after_message_def
        rx_example_def memcpy_at_fits emit_def Let_def)
  then show ?thesis
    using rx_desync_is_permanent [of ?s "[replicate 254 1]"]
    by (intro exI [of _ ?s]) (simp add: UART_RINGBUF_SIZE_def rx_example_def)
qed

section \<open>The driver side\<close>

text \<open>
  \<open>uart_start_tx\<close> returns the error of the call made last: when \<open>uart_tx\<close> fails, that is the one
  of \<open>ring_buf_get_finish\<close>.
\<close>

definition uart_start_tx :: "comms_call env \<Rightarrow> comms \<Rightarrow> int \<times> comms" where
  "uart_start_tx E s =
     (let (sz, s) = ext E (Tx_get_claim UART_RINGBUF_SIZE) s in
      if sz \<noteq> 0 then
        let (err, s) = ext E (Uart_tx (nat sz)) s in
        if err \<noteq> 0 then ext E (Tx_get_finish (nat sz)) s
        else (0, s)
      else (0, s))"

definition uart_start_rx :: "comms_call env \<Rightarrow> comms \<Rightarrow> int \<times> comms" where
  "uart_start_rx E s =
     (let (err, s) = ext E Slab_alloc s in
      if err \<noteq> 0 then (err, s)
      else
        let (err, s) = ext E (Uart_rx_enable UART_SLAB_BUF_SIZE 10) s in
        if err \<noteq> 0 then (err, s) else (0, s))"

datatype uart_event =
  UART_TX_DONE nat | UART_TX_ABORTED nat | UART_RX_RDY "byte list"
| UART_RX_BUF_REQUEST | UART_RX_BUF_RELEASED nat | UART_RX_DISABLED | UART_RX_STOPPED

text \<open>\<open>None\<close> is a failed \<open>__ASSERT\<close>, which halts the system.\<close>

fun uart_callback :: "comms_call env \<Rightarrow> uart_event \<Rightarrow> comms \<Rightarrow> comms option" where
  "uart_callback E (UART_TX_DONE n) s =
     (let (err, s) = ext E (Tx_get_finish n) s;
          (is_empty, s) = ext E Tx_is_empty s
      in if is_empty = 0 then let (err, s) = uart_start_tx E s in Some s else Some s)"
| "uart_callback E (UART_TX_ABORTED n) s =
     (let (err, s) = ext E (Tx_get_finish n) s in Some s)"
| "uart_callback E (UART_RX_RDY buf) s =
     (let (written, s) = ext E (Rx_put buf) s in Some (emit Sem_give s))"
| "uart_callback E UART_RX_BUF_REQUEST s =
     (let (err, s) = ext E Slab_alloc s in
      if err \<noteq> 0 then None
      else
        let (err, s) = ext E (Uart_rx_buf_rsp UART_SLAB_BUF_SIZE) s in
        if err \<noteq> 0 then None else Some s)"
| "uart_callback E (UART_RX_BUF_RELEASED b) s = Some (emit (Slab_free b) s)"
| "uart_callback E UART_RX_DISABLED s = (let (err, s) = uart_start_rx E s in Some s)"
| "uart_callback E UART_RX_STOPPED s = Some s"

text \<open>
  \<open>comms_init\<close>: \<open>cb\<close> is whether the callback argument is not NULL, \<open>device_get_binding\<close> returns 0
  for no device.
\<close>

definition comms_init :: "comms_call env \<Rightarrow> bool \<Rightarrow> comms \<Rightarrow> (int \<times> comms) option" where
  "comms_init E cb s =
     (if \<not> cb then Some (- EINVAL, s)
      else
        let s = s\<lparr>callback := True\<rparr>;
            (uart, s) = ext E Device_get_binding s
        in if uart = 0 then None
        else
          let (err, s) = ext E Uart_callback_set s in
          if err \<noteq> 0 then None
          else
            let (err, s) = uart_start_rx E s in
            if err \<noteq> 0 then None else Some (0, s))"

definition comms_write :: "comms_call env \<Rightarrow> byte list \<Rightarrow> comms \<Rightarrow> int \<times> comms" where
  "comms_write E buf s =
     (let (written, s) = ext E (Tx_put buf) s in
      if written = 0 then (- ENOMEM, s)
      else uart_start_tx E s)"

text \<open>What happens on the transmit side: the application writes, the driver reports.\<close>

datatype comms_event = Write "byte list" | Driver uart_event

fun comms_step :: "comms_call env \<Rightarrow> comms \<Rightarrow> comms_event \<Rightarrow> comms option" where
  "comms_step E s (Write buf) = Some (snd (comms_write E buf s))"
| "comms_step E s (Driver e) = uart_callback E e s"

section \<open>Accounting of the transmit queue and the receive buffers\<close>

text \<open>Sums over the trace: bytes claimed, released and accepted by the driver; buffers.\<close>

definition tally :: "(comms_call \<times> int \<Rightarrow> nat) \<Rightarrow> comms \<Rightarrow> nat" where
  "tally f s = sum_list (map f (calls s))"

fun claimed :: "comms_call \<times> int \<Rightarrow> nat" where
  "claimed (Tx_get_claim _, r) = nat r" | "claimed _ = 0"

fun released :: "comms_call \<times> int \<Rightarrow> nat" where
  "released (Tx_get_finish n, _) = n" | "released _ = 0"

fun accepted :: "comms_call \<times> int \<Rightarrow> nat" where
  "accepted (Uart_tx n, r) = (if r = 0 then n else 0)" | "accepted _ = 0"

fun allocated :: "comms_call \<times> int \<Rightarrow> nat" where
  "allocated (Slab_alloc, r) = (if r = 0 then 1 else 0)" | "allocated _ = 0"

fun given :: "comms_call \<times> int \<Rightarrow> nat" where
  "given (Uart_rx_enable _ _, r) = (if r = 0 then 1 else 0)"
| "given (Uart_rx_buf_rsp _, r) = (if r = 0 then 1 else 0)"
| "given _ = 0"

fun refused :: "comms_call \<times> int \<Rightarrow> nat" where
  "refused (Uart_rx_enable _ _, r) = (if r = 0 then 0 else 1)" | "refused _ = 0"

fun freed :: "comms_call \<times> int \<Rightarrow> nat" where
  "freed (Slab_free _, _) = 1" | "freed _ = 0"

fun reported :: "comms_event \<Rightarrow> nat" where
  "reported (Driver (UART_TX_DONE n)) = n"
| "reported (Driver (UART_TX_ABORTED n)) = n"
| "reported _ = 0"

fun returned :: "comms_event \<Rightarrow> nat" where
  "returned (Driver (UART_RX_BUF_RELEASED _)) = 1" | "returned _ = 0"

lemma tally_ext [simp]: "tally f (snd (ext E c s)) = tally f s + f (c, E (calls s) c)"
  by (simp add: tally_def)

lemma tally_emit [simp]: "tally f (emit c s) = tally f s + f (c, 0)"
  by (simp add: tally_def)

lemmas driver_defs = uart_start_tx_def uart_start_rx_def comms_write_def Let_def case_prod_beta

text \<open>
  The balance of the transmit queue and those of the receive buffers, and by how much each
  step changes them.
\<close>

definition tx_balance :: "comms \<Rightarrow> int" where
  "tx_balance s = int (tally released s) + int (tally accepted s) - int (tally claimed s)"

definition rx_balance :: "comms \<Rightarrow> int" where
  "rx_balance s = int (tally allocated s) - int (tally given s) - int (tally refused s)"

interpretation tx: accounting "comms_step E" tx_balance "\<lambda>s e. int (reported e)" for E
proof
  fix s e s' assume "comms_step E s e = Some s'"
  then show "tx_balance s' = tx_balance s + int (reported e)"
    by (cases e rule: reported.cases) (auto simp: tx_balance_def driver_defs split: if_splits)
qed

interpretation rx: accounting "comms_step E" rx_balance "\<lambda>s e. 0" for E
proof
  fix s e s' assume "comms_step E s e = Some s'"
  then show "rx_balance s' = rx_balance s + 0"
    by (cases e rule: reported.cases) (auto simp: rx_balance_def driver_defs split: if_splits)
qed

interpretation slab: accounting "comms_step E" "\<lambda>s. int (tally freed s)" "\<lambda>s e. int (returned e)" for E
proof
  fix s e s' assume "comms_step E s e = Some s'"
  then show "int (tally freed s') = int (tally freed s) + int (returned e)"
    by (cases e rule: reported.cases) (auto simp: driver_defs split: if_splits)
qed

lemma sum_list_int: "sum_list (map (\<lambda>x. int (f x)) xs) = int (sum_list (map f xs))"
  by (induction xs) auto

text \<open>
  C33. Over any history of writes by the application and reports of the UART driver that no
  assertion stops, every byte claimed from the transmit queue is accounted for: the bytes
  the thread gives back and the bytes the driver accepted are together the bytes claimed and the bytes
  the driver reported done or aborted. With at most one transfer under way the queue
  therefore holds exactly the bytes accepted and not yet reported.
\<close>

theorem tx_bytes_accounted:
  assumes "exec (comms_step E) s es = Some s'"
    and "tally released s + tally accepted s = tally claimed s"
  shows "tally released s' + tally accepted s' = tally claimed s' + sum_list (map reported es)"
  using tx.exec_quantity [OF assms(1)] assms(2)
  by (simp add: tx_balance_def total_stateless [OF assms(1)] sum_list_int)

text \<open>
  C34. The receive buffers: every block taken from the slab was given to the driver or lost
  when \<open>uart_rx_enable\<close> refused it, and blocks go back to the slab only when the driver
  releases them. Each refusal therefore keeps one of the twelve blocks forever.
\<close>

theorem rx_blocks_accounted:
  assumes "exec (comms_step E) s es = Some s'" and "calls s = []"
  shows "tally allocated s' = tally given s' + tally refused s' \<and>
    tally freed s' = sum_list (map returned es)"
  using rx.exec_quantity [OF assms(1)] slab.exec_quantity [OF assms(1)] assms(2)
  by (simp add: rx_balance_def total_stateless [OF assms(1)] sum_list_int tally_def)

text \<open>
  When the UART driver refuses a transfer and the bytes are released from the queue
  without error, \<open>comms_write\<close> reports success: the caller is told 0 although its bytes were
  dropped and nothing was handed to the driver.
\<close>

theorem comms_write_hides_failure:
  assumes "E (calls s) (Tx_put buf) \<noteq> 0"
    and "\<And>t n. E t (Tx_get_claim n) \<noteq> 0" and "\<And>t n. E t (Uart_tx n) = - EBUSY"
    and "\<And>t n. E t (Tx_get_finish n) = 0"
  shows "fst (comms_write E buf s) = 0 \<and>
    tally accepted (snd (comms_write E buf s)) = tally accepted s \<and>
    tally released (snd (comms_write E buf s)) + tally claimed s =
      tally claimed (snd (comms_write E buf s)) + tally released s"
  using assms by (simp add: driver_defs)

definition busy_driver :: "comms_call env" where
  "busy_driver t c = (case c of Tx_put b \<Rightarrow> int (length b) | Tx_get_claim _ \<Rightarrow> 3
     | Uart_tx _ \<Rightarrow> - EBUSY | _ \<Rightarrow> 0)"

theorem comms_write_hides_failure_witness:
  "fst (comms_write busy_driver [1, 2, 3] rx_example) = 0 \<and>
   calls (snd (comms_write busy_driver [1, 2, 3] rx_example)) =
     [(Tx_put [1, 2, 3], 3), (Tx_get_claim 512, 3), (Uart_tx 3, - EBUSY), (Tx_get_finish 3, 0)]"
  using comms_write_hides_failure [of busy_driver rx_example "[1, 2, 3]"]
  by (simp add: driver_defs busy_driver_def rx_example_def UART_RINGBUF_SIZE_def)

theorem tx_bytes_accounted_witness:
  "\<exists>s'. exec (comms_step (\<lambda>t c. case c of Tx_put b \<Rightarrow> 2 | Tx_get_claim _ \<Rightarrow> 2 | Tx_is_empty \<Rightarrow> 1 | _ \<Rightarrow> 0))
      rx_example [Write [1, 2], Driver (UART_TX_DONE 2)] = Some s' \<and>
    tally released s' + tally accepted s' = tally claimed s' + 2 \<and> tally accepted s' = 2"
proof -
  let ?E = "\<lambda>t c. case c of Tx_put b \<Rightarrow> 2 | Tx_get_claim _ \<Rightarrow> 2 | Tx_is_empty \<Rightarrow> 1 | _ \<Rightarrow> (0 :: int)"
  obtain s' where s': "exec (comms_step ?E) rx_example [Write [1, 2], Driver (UART_TX_DONE 2)] = Some s'"
    by (simp add: driver_defs)
  moreover have "tally accepted s' = 2"
    using s' by (auto simp: driver_defs tally_def rx_example_def)
  ultimately show ?thesis
    using tx_bytes_accounted [OF s'] by (simp add: tally_def rx_example_def)
qed

theorem rx_blocks_accounted_witness:
  "\<exists>s'. exec (comms_step (\<lambda>t c. case c of Uart_rx_enable _ _ \<Rightarrow> - EBUSY | _ \<Rightarrow> 0))
      rx_example [Driver UART_RX_DISABLED, Driver UART_RX_DISABLED] = Some s' \<and>
    tally allocated s' = tally given s' + tally refused s' \<and> tally refused s' = 2"
proof -
  let ?E = "\<lambda>t c. case c of Uart_rx_enable _ _ \<Rightarrow> - EBUSY | _ \<Rightarrow> (0 :: int)"
  obtain s' where s': "exec (comms_step ?E) rx_example
      [Driver UART_RX_DISABLED, Driver UART_RX_DISABLED] = Some s'"
    by (simp add: driver_defs)
  moreover have "tally refused s' = 2"
    using s' by (auto simp: driver_defs tally_def rx_example_def)
  ultimately show ?thesis
    using rx_blocks_accounted [OF s'] by (simp add: rx_example_def)
qed

end
