(* ===== verification/Hci_Uart.thy ===== *)
theory Hci_Uart
  imports Prelude
begin

text \<open>
  The HCI controller over a UART, \<open>samples/hci_uart/src/main.c\<close>: the interrupt handler that cuts the byte stream of the
  host into packets, the thread that hands them to the Bluetooth stack, the way back, and the report of a
  failed assertion of the controller.

  The UART: \<open>fifo\<close> holds the bytes that have arrived, \<open>arrivals\<close> the portions that are still to come; a portion arrives
  when the handler is waiting for bytes, or when it is not running. As only the receive interrupt is enabled, an interrupt
  is pending exactly while the FIFO is not empty. The buffer pool is the argument \<open>pool\<close>: for the
  history and the packet type it gives the buffer's type and size, or \<open>None\<close>.
\<close>

definition H4_CMD :: byte where "H4_CMD = 0x01"
definition H4_ACL :: byte where "H4_ACL = 0x02"
definition H4_EVT :: byte where "H4_EVT = 0x04"
definition H4_DISCARD_LEN :: nat where "H4_DISCARD_LEN = 33"

datatype buf_type = BT_BUF_CMD | BT_BUF_ACL_OUT | BT_BUF_OTHER

record net_buf =
  btype :: buf_type
  room :: nat
  bdata :: "byte list"

definition tailroom :: "net_buf \<Rightarrow> nat" where
  "tailroom b = room b - length (bdata b)"

datatype hci_call =
  Bt_buf_get_tx byte | Net_buf_unref | Bt_send net_buf | K_yield | Uart_poll_out byte | Irq_lock
| Uart_irq_rx_disable | Uart_irq_tx_disable | Uart_irq_callback_set | Uart_irq_rx_enable | Device_get_binding
| Bt_enable_raw | K_thread_create

type_synonym pool = "(hci_call \<times> int) list \<Rightarrow> byte \<Rightarrow> (buf_type \<times> nat) option"

record hci = "hci_call world" +
  fifo :: "byte list"
  arrivals :: "byte list list"
  remaining :: nat
  isr_buf :: "net_buf option"
  tx_queue :: "net_buf list"

section \<open>Reading the UART\<close>

text \<open>
  \<open>h4_read\<close>: \<open>acc\<close> is what has been read so far, so \<open>total\<close> is its length. With the FIFO empty and fewer than
  \<open>min\<close> bytes read it tries again, by when the next portion has come; if none comes any more it
  never returns: \<open>None\<close>.
\<close>

function h4_read :: "nat \<Rightarrow> nat \<Rightarrow> byte list \<Rightarrow> hci \<Rightarrow> (byte list \<times> hci) option" where
  "h4_read len mn acc s =
     (if len = 0 then Some (acc, s)
      else
        let rx = take len (fifo s) in
        if rx = [] then
          if length acc < mn then
            case arrivals s of
              [] \<Rightarrow> None
            | a # as \<Rightarrow> h4_read len mn acc (s\<lparr>fifo := a, arrivals := as\<rparr>)
          else Some (acc, s)
        else h4_read (len - length rx) mn (acc @ rx) (s\<lparr>fifo := drop len (fifo s)\<rparr>))"
  by pat_completeness auto
termination
  by (relation "measures [\<lambda>(len, mn, acc, s). length (arrivals s), \<lambda>(len, mn, acc, s). len]") auto

declare h4_read.simps [simp del]

definition h4_discard :: "nat \<Rightarrow> hci \<Rightarrow> nat \<times> hci" where
  "h4_discard len s =
     (let n = min len H4_DISCARD_LEN in
      (length (take n (fifo s)), s\<lparr>fifo := drop n (fifo s)\<rparr>))"

text \<open>The two headers: three bytes with the length in the last, four bytes with it in the last two.\<close>

definition net_buf_add_mem :: "net_buf \<Rightarrow> byte list \<Rightarrow> net_buf option" where
  "net_buf_add_mem b d = (if length d \<le> tailroom b then Some (b\<lparr>bdata := bdata b @ d\<rparr>) else None)"

definition h4_cmd_recv :: "net_buf \<Rightarrow> hci \<Rightarrow> (net_buf \<times> hci) option" where
  "h4_cmd_recv b s =
     (case h4_read 3 3 [] s of
        None \<Rightarrow> None
      | Some (hdr, s) \<Rightarrow> map_option (\<lambda>b. (b, s\<lparr>remaining := unat (hdr ! 2)\<rparr>)) (net_buf_add_mem b hdr))"

definition h4_acl_recv :: "net_buf \<Rightarrow> hci \<Rightarrow> (net_buf \<times> hci) option" where
  "h4_acl_recv b s =
     (case h4_read 4 4 [] s of
        None \<Rightarrow> None
      | Some (hdr, s) \<Rightarrow>
          map_option (\<lambda>b. (b, s\<lparr>remaining := unat (hdr ! 2) + 256 * unat (hdr ! 3)\<rparr>)) (net_buf_add_mem b hdr))"

section \<open>The interrupt handler\<close>

text \<open>
  The start of a packet. The results: the handler returns, it goes on with its loop, or it goes on to the
  body of the packet.
\<close>

datatype isr_next = Return | Continue | Body

definition isr_start :: "pool \<Rightarrow> hci \<Rightarrow> (isr_next \<times> hci) option" where
  "isr_start pool s =
     (case h4_read 1 0 [] s of
        None \<Rightarrow> None
      | Some (read, s) \<Rightarrow>
          if length read \<noteq> 1 then Some (Continue, s)
          else
            let typ = hd read;
                got = pool (calls s) typ;
                s = s\<lparr>calls := calls s @ [(Bt_buf_get_tx typ, of_bool (got \<noteq> None))]\<rparr>
            in case got of
                 None \<Rightarrow> Some (Return, s\<lparr>isr_buf := None\<rparr>)
               | Some (bt, sz) \<Rightarrow>
                   let b = \<lparr>btype = bt, room = sz, bdata = []\<rparr> in
                   (case bt of
                      BT_BUF_OTHER \<Rightarrow> Some (Return, s\<lparr>isr_buf := Some b\<rparr>)
                    | _ \<Rightarrow>
                        case (if bt = BT_BUF_CMD then h4_cmd_recv b s else h4_acl_recv b s) of
                          None \<Rightarrow> None
                        | Some (b, s) \<Rightarrow>
                            Some (Body, if tailroom b < remaining s then (emit Net_buf_unref s)\<lparr>isr_buf := None\<rparr>
                                        else s\<lparr>isr_buf := Some b\<rparr>)))"

text \<open>The body: bytes of a packet that has a buffer are stored, those of one that has none are dropped.\<close>

definition isr_body :: "hci \<Rightarrow> hci option" where
  "isr_body s =
     (case isr_buf s of
        None \<Rightarrow>
          let (read, s) = h4_discard (remaining s) s
          in Some (s\<lparr>remaining := remaining s - read\<rparr>)
      | Some b \<Rightarrow>
          (case h4_read (remaining s) 0 [] s of
             None \<Rightarrow> None
           | Some (read, s) \<Rightarrow>
               let b = b\<lparr>bdata := bdata b @ read\<rparr>;
                   s = s\<lparr>remaining := remaining s - length read\<rparr>
               in Some (if remaining s = 0 then s\<lparr>tx_queue := tx_queue s @ [b], isr_buf := None\<rparr>
                        else s\<lparr>isr_buf := Some b\<rparr>)))"

text \<open>One round of the loop of \<open>bt_uart_isr\<close>; the flag says whether the loop goes on.\<close>

definition isr_round :: "pool \<Rightarrow> hci \<Rightarrow> (bool \<times> hci) option" where
  "isr_round pool s =
     (if remaining s = 0 then
        case isr_start pool s of
          None \<Rightarrow> None
        | Some (Return, s) \<Rightarrow> Some (False, s)
        | Some (Continue, s) \<Rightarrow> Some (True, s)
        | Some (Body, s) \<Rightarrow> map_option (Pair True) (isr_body s)
      else map_option (Pair True) (isr_body s))"

text \<open>All bytes that are still to be read.\<close>

definition future :: "hci \<Rightarrow> byte list" where
  "future s = fifo s @ concat (arrivals s)"

lemma read_ahead:
  "take (length (take n (fifo s)) + k) (future s) = take n (fifo s) @ take k (future (s\<lparr>fifo := drop n (fifo s)\<rparr>))"
  "drop (length (take n (fifo s)) + k) (future s) = drop k (future (s\<lparr>fifo := drop n (fifo s)\<rparr>))"
  "length (future s) = length (take n (fifo s)) + length (future (s\<lparr>fifo := drop n (fifo s)\<rparr>))"
proof -
  have f: "future s = take n (fifo s) @ future (s\<lparr>fifo := drop n (fifo s)\<rparr>)" by (simp add: future_def)
  have app: "take (length r + k) (r @ g) = r @ take k g" "drop (length r + k) (r @ g) = drop k g" for r g :: "byte list"
    by simp_all
  show "take (length (take n (fifo s)) + k) (future s) = take n (fifo s) @ take k (future (s\<lparr>fifo := drop n (fifo s)\<rparr>))"
    "drop (length (take n (fifo s)) + k) (future s) = drop k (future (s\<lparr>fifo := drop n (fifo s)\<rparr>))"
    by (subst f, rule app)+
  show "length (future s) = length (take n (fifo s)) + length (future (s\<lparr>fifo := drop n (fifo s)\<rparr>))"
    by (subst f) simp
qed

text \<open>What a read does: it takes bytes off the front of the future and touches nothing else.\<close>

lemma h4_read_takes:
  "h4_read len mn acc s = Some (acc', s') \<Longrightarrow>
   \<exists>k \<le> len. acc' = acc @ take k (future s) \<and> k \<le> length (future s) \<and> future s' = drop k (future s) \<and>
     s' = s\<lparr>fifo := fifo s', arrivals := arrivals s'\<rparr> \<and> (mn \<le> length acc + len \<longrightarrow> mn \<le> length acc') \<and>
     (fifo s \<noteq> [] \<longrightarrow> 0 < len \<longrightarrow> 0 < k) \<and> (k < len \<longrightarrow> fifo s' = [])"
proof (induction len mn acc s rule: h4_read.induct)
  case (1 len mn acc s)
  show ?case
  proof (cases "len = 0")
    case True
    then have "h4_read len mn acc s = Some (acc, s)" by (subst h4_read.simps) simp
    then show ?thesis using "1.prems" True by auto
  next
    case len: False
    show ?thesis
    proof (cases "fifo s = []")
      case True
      show ?thesis
      proof (cases "length acc < mn")
        case False
        then show ?thesis using "1.prems" len True by (auto simp: h4_read.simps [of len] intro!: exI [of _ 0])
      next
        case mn: True
        then obtain a as where as: "arrivals s = a # as" "h4_read len mn acc (s\<lparr>fifo := a, arrivals := as\<rparr>) = Some (acc', s')"
          using "1.prems" len True by (auto simp: h4_read.simps [of len mn acc s] split: list.splits)
        have "future (s\<lparr>fifo := a, arrivals := as\<rparr>) = future s" using True as(1) by (simp add: future_def)
        then show ?thesis using "1.IH"(1) [OF len refl _ mn as(1,2)] True by auto
      qed
    next
      case False
      let ?rx = "take len (fifo s)" and ?s = "s\<lparr>fifo := drop len (fifo s)\<rparr>"
      have rx: "?rx \<noteq> []" using False len by simp
      have next1: "h4_read (len - length ?rx) mn (acc @ ?rx) ?s = Some (acc', s')"
        using "1.prems" len rx by (simp add: h4_read.simps [of len mn acc s] Let_def)
      obtain k where k: "k \<le> len - length ?rx" "acc' = (acc @ ?rx) @ take k (future ?s)" "k \<le> length (future ?s)"
        "future s' = drop k (future ?s)" "s' = ?s\<lparr>fifo := fifo s', arrivals := arrivals s'\<rparr>"
        "mn \<le> length (acc @ ?rx) + (len - length ?rx) \<longrightarrow> mn \<le> length acc'" "k < len - length ?rx \<longrightarrow> fifo s' = []"
        using "1.IH"(2) [OF len refl rx next1] by blast
      moreover have "length ?rx \<le> len" "0 < length ?rx" using rx by simp_all
      ultimately show ?thesis
        using read_ahead(1,2) [where n = len and s = s and k = k] read_ahead(3) [where n = len and s = s] by (intro exI [of _ "length ?rx + k"] conjI) (simp_all del: length_take)
    qed
  qed
qed

lemma h4_discard_takes:
  "fst (h4_discard len s) = min (min len H4_DISCARD_LEN) (length (fifo s)) \<and>
   future (snd (h4_discard len s)) = drop (fst (h4_discard len s)) (future s)"
  by (auto simp: h4_discard_def future_def Let_def min_def)

lemma h4_read_future:
  assumes "h4_read len mn acc s = Some (acc', s')"
  shows "length (future s') \<le> length (future s) \<and>
    (fifo s \<noteq> [] \<longrightarrow> 0 < len \<longrightarrow> length (future s') < length (future s))"
proof -
  obtain k where "k \<le> length (future s)" "future s' = drop k (future s)" "fifo s \<noteq> [] \<longrightarrow> 0 < len \<longrightarrow> 0 < k"
    using h4_read_takes [OF assms] by blast
  then show ?thesis by auto
qed

lemma isr_body_future:
  assumes "isr_body s = Some s'"
  shows "length (future s') \<le> length (future s) \<and>
    (fifo s \<noteq> [] \<longrightarrow> 0 < remaining s \<longrightarrow> length (future s') < length (future s))"
proof (cases "isr_buf s")
  case None
  then have "future s' = drop (min (min (remaining s) H4_DISCARD_LEN) (length (fifo s))) (future s)"
    using assms h4_discard_takes [of "remaining s" s] by (auto simp: isr_body_def case_prod_beta future_def Let_def)
  then show ?thesis by (auto simp: H4_DISCARD_LEN_def future_def)
next
  case (Some b)
  then obtain r s1 where r: "h4_read (remaining s) 0 [] s = Some (r, s1)" "future s' = future s1"
    using assms by (auto simp: isr_body_def future_def Let_def split: option.splits if_splits)
  then show ?thesis using h4_read_future [OF r(1)] by simp
qed

lemma isr_start_future:
  assumes "isr_start pool s = Some (nx, s')" and "fifo s \<noteq> []"
  shows "length (future s') < length (future s)"
proof -
  obtain r s1 where r: "h4_read 1 0 [] s = Some (r, s1)"
    using assms(1) by (auto simp: isr_start_def split: option.splits)
  then have "length (future s1) < length (future s)"
    using h4_read_future [OF r] assms(2) by simp
  moreover have "length (future s') \<le> length (future s1)"
  proof -
    have "length (future s2) \<le> length (future s1)"
      if "(if c then h4_cmd_recv b (s1\<lparr>calls := x\<rparr>) else h4_acl_recv b (s1\<lparr>calls := x\<rparr>)) = Some (b', s2)" for c b x b' s2
      using that h4_read_future [of 3 3 "[]" "s1\<lparr>calls := x\<rparr>"] h4_read_future [of 4 4 "[]" "s1\<lparr>calls := x\<rparr>"]
      by (fastforce simp: h4_cmd_recv_def h4_acl_recv_def future_def split: if_splits option.splits)
    then show ?thesis
      using assms(1) r by (fastforce simp: isr_start_def Let_def emit_def future_def split: option.splits buf_type.splits if_splits)
  qed
  ultimately show ?thesis by simp
qed

lemma isr_round_future:
  assumes "isr_round pool s = Some (c, s')" and "fifo s \<noteq> []"
  shows "length (future s') < length (future s)"
proof (cases "remaining s = 0")
  case True
  then obtain nx s1 where nx: "isr_start pool s = Some (nx, s1)" using assms(1) by (auto simp: isr_round_def split: option.splits)
  then have "s' = s1 \<or> isr_body s1 = Some s'"
    using assms(1) True by (auto simp: isr_round_def split: isr_next.splits)
  then show ?thesis using isr_start_future [OF nx assms(2)] isr_body_future by fastforce
next
  case False
  then show ?thesis using assms isr_body_future by (fastforce simp: isr_round_def)
qed

text \<open>The handler: it runs while an interrupt is pending.\<close>

function bt_uart_isr :: "pool \<Rightarrow> hci \<Rightarrow> hci option" where
  "bt_uart_isr pool s =
     (if fifo s = [] then Some s
      else
        case isr_round pool s of
          None \<Rightarrow> None
        | Some (c, s') \<Rightarrow> if c then bt_uart_isr pool s' else Some s')"
  by pat_completeness auto
termination
  by (relation "measure (\<lambda>(pool, s). length (future s))") (use isr_round_future in auto)

declare bt_uart_isr.simps [simp del]

lemma bt_uart_isr_future:
  "bt_uart_isr pool s = Some s' \<Longrightarrow>
   length (future s') \<le> length (future s) \<and> (fifo s \<noteq> [] \<longrightarrow> length (future s') < length (future s))"
proof (induction pool s rule: bt_uart_isr.induct)
  case (1 pool s)
  show ?case
  proof (cases "fifo s = []")
    case True
    then show ?thesis using "1.prems" by (simp add: bt_uart_isr.simps)
  next
    case False
    then obtain c s1 where s1: "isr_round pool s = Some (c, s1)" "if c then bt_uart_isr pool s1 = Some s' else s' = s1"
      using "1.prems" by (auto simp: bt_uart_isr.simps [of pool s] split: option.splits if_splits)
    then show ?thesis using "1.IH" [OF False s1(1) refl] isr_round_future [OF s1(1) False] by (cases c) auto
  qed
qed

text \<open>
  The receiving side over time: the handler runs whenever the FIFO is not empty; otherwise the next portion arrives.
\<close>

function hci_run :: "pool \<Rightarrow> hci \<Rightarrow> hci option" where
  "hci_run pool s =
     (if fifo s \<noteq> [] then
        case bt_uart_isr pool s of
          None \<Rightarrow> None
        | Some s' \<Rightarrow> hci_run pool s'
      else
        case arrivals s of
          [] \<Rightarrow> Some s
        | a # as \<Rightarrow> hci_run pool (s\<lparr>fifo := a, arrivals := as\<rparr>))"
  by pat_completeness auto
termination
  by (relation "measures [\<lambda>(pool, s). length (future s), \<lambda>(pool, s). length (arrivals s)]")
    (use bt_uart_isr_future in \<open>auto simp: future_def\<close>)

declare hci_run.simps [simp del]

section \<open>The other direction\<close>

text \<open>The thread that feeds the stack takes the first buffer of the queue.\<close>

definition tx_thread_round :: "hci_call env \<Rightarrow> hci \<Rightarrow> hci" where
  "tx_thread_round E s =
     (case tx_queue s of
        [] \<Rightarrow> s
      | b # bs \<Rightarrow>
          let (err, s) = ext E (Bt_send b) (s\<lparr>tx_queue := bs\<rparr>);
              s = (if err \<noteq> 0 then emit Net_buf_unref s else s)
          in emit K_yield s)"

fun h4_send_loop :: "byte list \<Rightarrow> hci \<Rightarrow> hci" where
  "h4_send_loop [] s = s"
| "h4_send_loop (b # bs) s = h4_send_loop bs (emit (Uart_poll_out b) s)"

definition h4_send :: "byte list \<Rightarrow> hci \<Rightarrow> int \<times> hci" where
  "h4_send buf s = (0, emit Net_buf_unref (h4_send_loop buf s))"

section \<open>Start and assertion report\<close>

definition hci_uart_init :: "hci_call env \<Rightarrow> hci \<Rightarrow> int \<times> hci" where
  "hci_uart_init E s =
     (let (dev, s) = ext E Device_get_binding s in
      if dev = 0 then (- EINVAL, s)
      else (0, emit Uart_irq_rx_enable (emit Uart_irq_callback_set (emit Uart_irq_tx_disable (emit Uart_irq_rx_disable s)))))"

text \<open>
  \<open>main\<close> up to its endless loop, with \<open>None\<close> for the failed assertion (the device was not found), and one round of that: a buffer of the controller is sent to the host. The event for
  \<open>BT_WAIT_NOP\<close> is a command-complete event (\<open>0x0e\<close>, three bytes) for no command.
\<close>

definition hci_main_start :: "int \<Rightarrow> bool \<Rightarrow> hci \<Rightarrow> hci option" where
  "hci_main_start uart_dev wait_nop s =
     (if uart_dev = 0 then None
      else
        let s = emit Bt_enable_raw s;
            s = (if wait_nop then h4_send_loop [H4_EVT, 0x0e, 3, 1, 0, 0] s else s)
        in Some (emit K_thread_create s))"

definition hci_main_round :: "byte list \<Rightarrow> hci \<Rightarrow> hci" where
  "hci_main_round buf s = snd (h4_send buf s)"

text \<open>The position after the last slash, and the length, of a file name.\<close>

fun file_loop :: "byte list \<Rightarrow> nat \<Rightarrow> nat \<Rightarrow> nat \<times> nat" where
  "file_loop [] len pos = (len, pos)"
| "file_loop (c # cs) len pos = file_loop cs (len + 1) (if c = 47 then len + 1 else pos)"

text \<open>\<open>file\<close> is the C string of the name, \<open>None\<close> for NULL. The function does not return.\<close>

definition bt_ctlr_assert_handle :: "byte list option \<Rightarrow> 32 word \<Rightarrow> hci \<Rightarrow> hci" where
  "bt_ctlr_assert_handle fname line s =
     (let s = emit Uart_irq_tx_disable (emit Uart_irq_rx_disable (emit Irq_lock s));
          (name, len) = (case fname of
             None \<Rightarrow> ([], 0)
           | Some f \<Rightarrow> let (len, pos) = file_loop f 0 0 in (drop pos f, len - pos));
          s = h4_send_loop [H4_EVT, 0xff, word_of_nat (1 + len + 1 + 4), 0xAA] s;
          s = (if len \<noteq> 0 then h4_send_loop (name @ [0]) s else s)
      in h4_send_loop [ucast (drop_bit 0 line), ucast (drop_bit 8 line), ucast (drop_bit 16 line), ucast (drop_bit 24 line)] s)"

section \<open>The packets of the host\<close>

text \<open>A packet on the wire: a command with its opcode, or data with its handle.\<close>

datatype packet = Cmd "byte list" "byte list" | Acl "byte list" "byte list"

fun packet_wf :: "packet \<Rightarrow> bool" where
  "packet_wf (Cmd op d) \<longleftrightarrow> length op = 2 \<and> length d < 256"
| "packet_wf (Acl h d) \<longleftrightarrow> length h = 2 \<and> length d < 65536"

fun packet_body :: "packet \<Rightarrow> byte list" where
  "packet_body (Cmd op d) = op @ word_of_nat (length d) # d"
| "packet_body (Acl h d) = h @ word_of_nat (length d mod 256) # word_of_nat (length d div 256) # d"

fun packet_type :: "packet \<Rightarrow> byte" where
  "packet_type (Cmd op d) = H4_CMD"
| "packet_type (Acl h d) = H4_ACL"

definition enc_packet :: "packet \<Rightarrow> byte list" where
  "enc_packet p = packet_type p # packet_body p"

fun packet_payload :: "packet \<Rightarrow> byte list" where
  "packet_payload (Cmd op d) = d"
| "packet_payload (Acl h d) = d"

text \<open>A pool that always has a buffer, of \<open>sz\<close> bytes, for both types; and what is delivered of a packet.\<close>

definition pool_laws :: "pool \<Rightarrow> nat \<Rightarrow> bool" where
  "pool_laws pool sz \<longleftrightarrow> 4 \<le> sz \<and>
     (\<forall>h. pool h H4_CMD = Some (BT_BUF_CMD, sz) \<and> pool h H4_ACL = Some (BT_BUF_ACL_OUT, sz))"

fun packet_btype :: "packet \<Rightarrow> buf_type" where
  "packet_btype (Cmd op d) = BT_BUF_CMD"
| "packet_btype (Acl h d) = BT_BUF_ACL_OUT"

definition delivered :: "nat \<Rightarrow> packet \<Rightarrow> net_buf list" where
  "delivered sz p =
     (if length (packet_body p) \<le> sz then [\<lparr>btype = packet_btype p, room = sz, bdata = packet_body p\<rparr>] else [])"

section \<open>Correctness of the handler\<close>

lemma h4_read_some:
  "mn \<le> length acc + len \<Longrightarrow> mn - length acc \<le> length (future s) \<Longrightarrow> h4_read len mn acc s \<noteq> None"
proof (induction len mn acc s rule: h4_read.induct)
  case (1 len mn acc s)
  show ?case
  proof (cases "len = 0")
    case True
    then show ?thesis by (subst h4_read.simps) simp
  next
    case len: False
    show ?thesis
    proof (cases "fifo s = []")
      case True
      show ?thesis
      proof (cases "length acc < mn \<and> arrivals s \<noteq> []")
        case a: True
        then obtain x xs where as: "arrivals s = x # xs" by (cases "arrivals s") auto
        have "future (s\<lparr>fifo := x, arrivals := xs\<rparr>) = future s" using True as by (simp add: future_def)
        then have "h4_read len mn acc (s\<lparr>fifo := x, arrivals := xs\<rparr>) \<noteq> None"
          using "1.IH"(1) [OF len refl _ _ as] True a "1.prems" by simp
        then show ?thesis using len True a as by (simp add: h4_read.simps [of len mn acc s])
      next
        case False
        then show ?thesis using "1.prems" len True by (auto simp: h4_read.simps [of len mn acc s] future_def)
      qed
    next
      case False
      let ?rx = "take len (fifo s)"
      have rx: "?rx \<noteq> []" using False len by simp
      have "length (future (s\<lparr>fifo := drop len (fifo s)\<rparr>)) = length (future s) - length ?rx" by (simp add: future_def)
      then have "h4_read (len - length ?rx) mn (acc @ ?rx) (s\<lparr>fifo := drop len (fifo s)\<rparr>) \<noteq> None"
        using "1.prems" by (intro "1.IH"(2) [OF len refl rx]) simp_all
      then show ?thesis using len rx by (simp add: h4_read.simps [of len mn acc s] Let_def)
    qed
  qed
qed

text \<open>A read of a header gets exactly its bytes.\<close>

lemma h4_read_exact:
  assumes "len \<le> length (future s)"
  shows "\<exists>s'. h4_read len len [] s = Some (take len (future s), s') \<and> future s' = drop len (future s) \<and>
    s' = s\<lparr>fifo := fifo s', arrivals := arrivals s'\<rparr>"
proof -
  obtain acc' s' where r: "h4_read len len [] s = Some (acc', s')"
    using h4_read_some [of len "[]" len s] assms by auto
  then obtain k where "k \<le> len" "acc' = take k (future s)" "k \<le> length (future s)" "future s' = drop k (future s)"
    "s' = s\<lparr>fifo := fifo s', arrivals := arrivals s'\<rparr>" "len \<le> length acc'"
    using h4_read_takes [OF r] by auto
  moreover from this have "k = len" by simp
  ultimately show ?thesis using r by blast
qed

text \<open>A header that the stream does not complete is waited for without end.\<close>

lemma h4_read_short: "length (future s) < len \<Longrightarrow> h4_read len len [] s = None"
  using h4_read_takes [of len len "[]" s] by (cases "h4_read len len [] s") fastforce+

section \<open>The reference parser\<close>

text \<open>
  The format of the stream as one function on the whole of it: type byte, header, body. \<open>h\<close> is the history, which the pool may
  look at. A packet without a buffer costs its type byte, one of another type as well; one that does not fit is skipped;
  one that the stream does not complete is not delivered. \<open>None\<close> is a header that the stream does not complete, or that does not fit the buffer.
\<close>

type_synonym history = "(hci_call \<times> int) list"

text \<open>Buffers that come before what a parse gives.\<close>

definition before :: "net_buf list \<Rightarrow> (history \<times> net_buf list) option \<Rightarrow> (history \<times> net_buf list) option" where
  "before don = map_option (\<lambda>(h, q). (h, don @ q))"

lemma before_simps [simp]:
  "before [] x = x" "before don (before don' x) = before (don @ don') x" "before don None = None"
  "before don (Some (h, q)) = Some (h, don @ q)"
  by (cases x; simp add: before_def split: prod.split)+

definition header_len :: "buf_type \<Rightarrow> nat" where
  "header_len bt = (if bt = BT_BUF_CMD then 3 else 4)"

definition body_len :: "buf_type \<Rightarrow> byte list \<Rightarrow> nat" where
  "body_len bt r = (if bt = BT_BUF_CMD then unat (r ! 2) else unat (r ! 2) + 256 * unat (r ! 3))"

function h4_parse :: "pool \<Rightarrow> history \<Rightarrow> byte list \<Rightarrow> (history \<times> net_buf list) option" where
  "h4_parse pool h [] = Some (h, [])"
| "h4_parse pool h (t # r) =
     (let h' = h @ [(Bt_buf_get_tx t, of_bool (pool h t \<noteq> None))] in
      case pool h t of
        None \<Rightarrow> h4_parse pool h' r
      | Some (bt, sz) \<Rightarrow>
          if bt = BT_BUF_OTHER then h4_parse pool h' r
          else
            let k = header_len bt; n = body_len bt r in
            if length r < k \<or> sz < k then None
            else if sz - k < n then h4_parse pool (h' @ [(Net_buf_unref, 0)]) (drop (k + n) r)
            else if length r < k + n then Some (h', [])
            else before [\<lparr>btype = bt, room = sz, bdata = take (k + n) r\<rparr>] (h4_parse pool h' (drop (k + n) r)))"
  by pat_completeness auto
termination
  by (relation "measure (\<lambda>(pool, h, bs). length bs)") auto

declare h4_parse.simps(2) [simp del]

text \<open>
  What is still to come out of a state: the rest of the packet under way, if it has a buffer, and what the parser makes of the bytes
  after it. \<open>body_expected\<close> is the same between a header and its body.
\<close>

definition body_expected :: "pool \<Rightarrow> hci \<Rightarrow> (history \<times> net_buf list) option" where
  "body_expected pool s =
     (let rest = h4_parse pool (calls s) (drop (remaining s) (future s)) in
      case isr_buf s of
        None \<Rightarrow> rest
      | Some b \<Rightarrow>
          if length (future s) < remaining s then Some (calls s, [])
          else before [b\<lparr>bdata := bdata b @ take (remaining s) (future s)\<rparr>] rest)"

definition expected :: "pool \<Rightarrow> hci \<Rightarrow> (history \<times> net_buf list) option" where
  "expected pool s = (if remaining s = 0 then h4_parse pool (calls s) (future s) else body_expected pool s)"

text \<open>A step delivers what comes first of what is expected, and leaves the rest.\<close>

definition delivers :: "pool \<Rightarrow> hci \<Rightarrow> (history \<times> net_buf list) option \<Rightarrow> hci \<Rightarrow> bool" where
  "delivers pool s out s' \<longleftrightarrow> (\<exists>don. tx_queue s' = tx_queue s @ don \<and> out = before don (expected pool s'))"

lemma delivers_nothing: "tx_queue s' = tx_queue s \<Longrightarrow> out = expected pool s' \<Longrightarrow> delivers pool s out s'"
  by (auto simp: delivers_def intro!: exI [of _ "[]"])

lemma delivers_trans: "delivers pool s out s1 \<Longrightarrow> delivers pool s1 (expected pool s1) s2 \<Longrightarrow> delivers pool s out s2"
  unfolding delivers_def by (metis append_assoc before_simps(2))

lemma future_members [simp]:
  "future (s\<lparr>remaining := n\<rparr>) = future s" "future (s\<lparr>isr_buf := b\<rparr>) = future s" "future (s\<lparr>tx_queue := q\<rparr>) = future s"
  "future (s\<lparr>calls := h\<rparr>) = future s"
  by (simp_all add: future_def)

text \<open>A round of the body without a buffer and with one.\<close>

lemma body_step_discard:
  assumes "isr_buf s = None"
  shows "\<exists>s'. isr_body s = Some s' \<and> delivers pool s (body_expected pool s) s'"
proof -
  define k where "k = fst (h4_discard (remaining s) s)"
  define s' where "s' = (snd (h4_discard (remaining s) s))\<lparr>remaining := remaining s - k\<rparr>"
  have k: "k \<le> remaining s" "future s' = drop k (future s)"
    using h4_discard_takes [of "remaining s" s] by (simp_all add: k_def s'_def future_def)
  have s': "isr_body s = Some s'" "tx_queue s' = tx_queue s" "isr_buf s' = None" "remaining s' = remaining s - k" "calls s' = calls s"
    using assms by (auto simp: isr_body_def s'_def k_def h4_discard_def Let_def)
  have "expected pool s' = body_expected pool s"
    using assms k s' by (simp add: expected_def body_expected_def)
  then show ?thesis using s' by (auto intro: delivers_nothing)
qed

lemma body_step_store:
  assumes "isr_buf s = Some b"
  shows "\<exists>s'. isr_body s = Some s' \<and> delivers pool s (body_expected pool s) s'"
proof -
  let ?n = "remaining s" and ?f = "future s"
  obtain d s1 where d: "h4_read ?n 0 [] s = Some (d, s1)" using h4_read_some [of 0 "[]" ?n s] by auto
  then obtain k where k: "k \<le> ?n" "d = take k ?f" "future s1 = drop k ?f" "k \<le> length ?f" "s1 = s\<lparr>fifo := fifo s1, arrivals := arrivals s1\<rparr>"
    using h4_read_takes [OF d] by auto
  have same: "tx_queue s1 = tx_queue s" "remaining s1 = ?n" "calls s1 = calls s" by (subst k(5), simp)+
  have l: "length d = k" using k(2,4) by simp
  show ?thesis
  proof (cases "k = ?n")
    case True
    let ?s' = "s1\<lparr>remaining := 0, tx_queue := tx_queue s1 @ [b\<lparr>bdata := bdata b @ d\<rparr>], isr_buf := None\<rparr>"
    have "isr_body s = Some ?s'" using assms d l True same by (simp add: isr_body_def)
    moreover have "expected pool ?s' = h4_parse pool (calls s) (drop ?n ?f)"
      using k(3) True same by (simp add: expected_def)
    then have "delivers pool s (body_expected pool s) ?s'"
      using assms k(2,4) True same by (auto simp: delivers_def body_expected_def)
    ultimately show ?thesis by blast
  next
    case False
    let ?s' = "s1\<lparr>remaining := ?n - k, isr_buf := Some (b\<lparr>bdata := bdata b @ d\<rparr>)\<rparr>"
    have "isr_body s = Some ?s'" using assms d l False k(1) same by (simp add: isr_body_def)
    moreover have "expected pool ?s' = body_expected pool s"
    proof -
      have "take ?n ?f = d @ take (?n - k) (drop k ?f)" using k(1,2) by (metis le_add_diff_inverse take_add)
      moreover have "drop (?n - k) (drop k ?f) = drop ?n ?f" using k(1) by simp
      moreover have "length (drop k ?f) < ?n - k \<longleftrightarrow> length ?f < ?n" using k(1,4) False by auto
      ultimately show ?thesis
        using False k(1) by (simp only: expected_def body_expected_def) (simp add: assms same k(3))
    qed
    ultimately show ?thesis using same by (auto intro: delivers_nothing)
  qed
qed

lemma body_step: "\<exists>s'. isr_body s = Some s' \<and> delivers pool s (body_expected pool s) s'"
  by (cases "isr_buf s") (auto intro: body_step_discard body_step_store)

text \<open>Reading a header: what is in the buffer afterwards, and how much is to come.\<close>

definition header_recv :: "buf_type \<Rightarrow> nat \<Rightarrow> hci \<Rightarrow> (net_buf \<times> hci) option" where
  "header_recv bt sz s =
     (let b = \<lparr>btype = bt, room = sz, bdata = []\<rparr> in if bt = BT_BUF_CMD then h4_cmd_recv b s else h4_acl_recv b s)"

lemma header_recv_cases:
  "case header_recv bt sz s of
     None \<Rightarrow> length (future s) < header_len bt \<or> sz < header_len bt
   | Some (b, s') \<Rightarrow> header_len bt \<le> length (future s) \<and> header_len bt \<le> sz \<and>
       b = \<lparr>btype = bt, room = sz, bdata = take (header_len bt) (future s)\<rparr> \<and> remaining s' = body_len bt (future s) \<and>
       future s' = drop (header_len bt) (future s) \<and> tx_queue s' = tx_queue s \<and> calls s' = calls s"
proof (cases "length (future s) < header_len bt")
  case True
  then show ?thesis
    by (cases "bt = BT_BUF_CMD") (simp_all add: header_recv_def header_len_def h4_cmd_recv_def h4_acl_recv_def h4_read_short)
next
  case False
  then obtain s1 where s1: "h4_read (header_len bt) (header_len bt) [] s = Some (take (header_len bt) (future s), s1)"
    "future s1 = drop (header_len bt) (future s)" "s1 = s\<lparr>fifo := fifo s1, arrivals := arrivals s1\<rparr>"
    using h4_read_exact [of "header_len bt" s] by auto
  have same: "tx_queue s1 = tx_queue s" "calls s1 = calls s" by (subst s1(3), simp)+
  show ?thesis
    using s1(1,2) same False
    by (cases "bt = BT_BUF_CMD")
      (auto simp: Let_def header_recv_def header_len_def body_len_def h4_cmd_recv_def h4_acl_recv_def net_buf_add_mem_def tailroom_def min_absorb2)
qed

text \<open>The start of a packet: the parser's case for its type byte. \<open>typed pool s\<close> is the state when it has been read and a buffer asked for.\<close>

definition typed :: "pool \<Rightarrow> hci \<Rightarrow> hci" where
  "typed pool s = s\<lparr>fifo := tl (fifo s), calls := calls s @ [(Bt_buf_get_tx (hd (fifo s)), of_bool (pool (calls s) (hd (fifo s)) \<noteq> None))]\<rparr>"

lemma typed_fields:
  "remaining (typed pool s) = remaining s" "tx_queue (typed pool s) = tx_queue s"
  "fifo s \<noteq> [] \<Longrightarrow> future s = hd (fifo s) # future (typed pool s)"
  by (cases "fifo s"; simp add: typed_def future_def)+

lemma type_read: "fifo s \<noteq> [] \<Longrightarrow> h4_read 1 0 [] s = Some ([hd (fifo s)], s\<lparr>fifo := tl (fifo s)\<rparr>)"
  by (cases "fifo s", simp) (subst h4_read.simps, subst h4_read.simps, simp)

lemma start_header:
  assumes "remaining s = 0" and "fifo s \<noteq> []" and "pool (calls s) (hd (fifo s)) = Some (bt, sz)" and "bt \<noteq> BT_BUF_OTHER"
  shows "isr_start pool s = (case header_recv bt sz (typed pool s) of None \<Rightarrow> None
      | Some (b, s) \<Rightarrow> Some (Body, if tailroom b < remaining s then (emit Net_buf_unref s)\<lparr>isr_buf := None\<rparr> else s\<lparr>isr_buf := Some b\<rparr>))"
    and "expected pool s =
      (let g = future (typed pool s); cs = calls (typed pool s) in
       if length g < header_len bt \<or> sz < header_len bt then None
       else if sz - header_len bt < body_len bt g then h4_parse pool (cs @ [(Net_buf_unref, 0)]) (drop (header_len bt + body_len bt g) g)
       else if length g < header_len bt + body_len bt g then Some (cs, [])
       else before [\<lparr>btype = bt, room = sz, bdata = take (header_len bt + body_len bt g) g\<rparr>]
         (h4_parse pool cs (drop (header_len bt + body_len bt g) g)))"
proof -
  show "isr_start pool s = (case header_recv bt sz (typed pool s) of None \<Rightarrow> None
      | Some (b, s) \<Rightarrow> Some (Body, if tailroom b < remaining s then (emit Net_buf_unref s)\<lparr>isr_buf := None\<rparr> else s\<lparr>isr_buf := Some b\<rparr>))"
    using type_read [OF assms(2)] assms(3,4) by (cases bt) (simp_all add: isr_start_def typed_def header_recv_def)
  have "expected pool s = h4_parse pool (calls s) (hd (fifo s) # future (typed pool s))"
    using assms(1) typed_fields(3) [OF assms(2), of pool] by (simp add: expected_def)
  then show "expected pool s =
      (let g = future (typed pool s); cs = calls (typed pool s) in
       if length g < header_len bt \<or> sz < header_len bt then None
       else if sz - header_len bt < body_len bt g then h4_parse pool (cs @ [(Net_buf_unref, 0)]) (drop (header_len bt + body_len bt g) g)
       else if length g < header_len bt + body_len bt g then Some (cs, [])
       else before [\<lparr>btype = bt, room = sz, bdata = take (header_len bt + body_len bt g) g\<rparr>]
         (h4_parse pool cs (drop (header_len bt + body_len bt g) g)))"
    using assms(3,4) by (simp add: h4_parse.simps(2) typed_def Let_def)
qed

lemma start_no_header:
  assumes "remaining s = 0" and "fifo s \<noteq> []"
    and "pool (calls s) (hd (fifo s)) = None \<or> (\<exists>sz. pool (calls s) (hd (fifo s)) = Some (BT_BUF_OTHER, sz))"
  shows "\<exists>r s'. isr_start pool s = Some (r, s') \<and> r \<noteq> Body \<and> tx_queue s' = tx_queue s \<and> expected pool s' = expected pool s"
proof -
  have e: "expected pool s = h4_parse pool (calls s) (hd (fifo s) # future (typed pool s))"
    using assms(1) typed_fields(3) [OF assms(2), of pool] by (simp add: expected_def)
  have eb: "expected pool ((typed pool s)\<lparr>isr_buf := b\<rparr>) = h4_parse pool (calls (typed pool s)) (future (typed pool s))" for b
    using assms(1) by (simp add: expected_def future_def typed_def)
  show ?thesis
    using assms(3) type_read [OF assms(2)] e eb by (auto simp: isr_start_def typed_def h4_parse.simps(2))
qed

lemma start_step:
  assumes "remaining s = 0" and "fifo s \<noteq> []"
  shows "case isr_start pool s of
     None \<Rightarrow> expected pool s = None
   | Some (Body, s') \<Rightarrow> tx_queue s' = tx_queue s \<and> body_expected pool s' = expected pool s
   | Some (_, s') \<Rightarrow> tx_queue s' = tx_queue s \<and> expected pool s' = expected pool s"
proof (cases "\<exists>bt sz. pool (calls s) (hd (fifo s)) = Some (bt, sz) \<and> bt \<noteq> BT_BUF_OTHER")
  case False
  then have "pool (calls s) (hd (fifo s)) = None \<or> (\<exists>sz. pool (calls s) (hd (fifo s)) = Some (BT_BUF_OTHER, sz))"
    by (cases "pool (calls s) (hd (fifo s))") auto
  then obtain r s' where "isr_start pool s = Some (r, s')" "r \<noteq> Body" "tx_queue s' = tx_queue s" "expected pool s' = expected pool s"
    using start_no_header [OF assms] by blast
  then show ?thesis by (cases r) simp_all
next
  case True
  then obtain bt sz where x: "pool (calls s) (hd (fifo s)) = Some (bt, sz)" "bt \<noteq> BT_BUF_OTHER" by blast
  let ?s = "typed pool s"
  note start = start_header(1) [where pool = pool, OF assms x] and parse = start_header(2) [where pool = pool, OF assms x]
  show ?thesis
  proof (cases "header_recv bt sz ?s")
    case None
    then show ?thesis using start parse header_recv_cases [where bt = bt and sz = sz and s = ?s] by simp
  next
    case (Some y)
    obtain b s3 where y: "y = (b, s3)" by (cases y)
    have s3: "header_len bt \<le> length (future ?s)" "header_len bt \<le> sz"
      "b = \<lparr>btype = bt, room = sz, bdata = take (header_len bt) (future ?s)\<rparr>" "remaining s3 = body_len bt (future ?s)"
      "future s3 = drop (header_len bt) (future ?s)" "tx_queue s3 = tx_queue ?s" "calls s3 = calls ?s"
      using header_recv_cases [where bt = bt and sz = sz and s = ?s] Some y by simp_all
    have t: "tailroom b = sz - header_len bt" using s3(1,3) by (simp add: tailroom_def)
    have u: "future (emit Net_buf_unref s3) = future s3" by (simp add: emit_def)
    show ?thesis
      using start parse Some y s3 t u typed_fields(2) [of pool s]
      by (auto simp: body_expected_def emit_def take_add add.commute less_diff_conv2 Let_def)
  qed
qed

text \<open>A round, the handler, and the receiving side over time.\<close>

lemma round_step:
  assumes "fifo s \<noteq> []"
  shows "case isr_round pool s of None \<Rightarrow> expected pool s = None | Some (c, s') \<Rightarrow> delivers pool s (expected pool s) s'"
proof (cases "remaining s = 0")
  case False
  then show ?thesis using body_step [of s pool] by (auto simp: isr_round_def expected_def)
next
  case True
  show ?thesis
  proof (cases "isr_start pool s")
    case None
    then show ?thesis using start_step [OF True assms, of pool] True by (simp add: isr_round_def)
  next
    case (Some x)
    obtain nx s1 where x: "x = (nx, s1)" by (cases x)
    show ?thesis
    proof (cases "nx = Body")
      case False
      then show ?thesis
        using start_step [OF True assms, of pool] True Some x
        by (cases nx) (auto simp: isr_round_def intro: delivers_nothing)
    next
      case body: True
      then have s1: "tx_queue s1 = tx_queue s" "body_expected pool s1 = expected pool s"
        using start_step [OF True assms, of pool] Some x by simp_all
      obtain s2 where "isr_body s1 = Some s2" "delivers pool s1 (body_expected pool s1) s2"
        using body_step by blast
      then show ?thesis using True Some x body s1 by (simp add: isr_round_def delivers_def)
    qed
  qed
qed

lemma isr_step:
  "case bt_uart_isr pool s of None \<Rightarrow> expected pool s = None | Some s' \<Rightarrow> delivers pool s (expected pool s) s'"
proof (induction pool s rule: bt_uart_isr.induct)
  case (1 pool s)
  show ?case
  proof (cases "fifo s = []")
    case True
    then show ?thesis by (simp add: bt_uart_isr.simps delivers_nothing)
  next
    case False
    show ?thesis
    proof (cases "isr_round pool s")
      case None
      then show ?thesis using round_step [OF False, of pool] False by (simp add: bt_uart_isr.simps [of pool])
    next
      case (Some x)
      obtain c s1 where x: "x = (c, s1)" by (cases x)
      have d: "delivers pool s (expected pool s) s1" using round_step [OF False, of pool] Some x by simp
      then have "expected pool s1 = None \<Longrightarrow> expected pool s = None" by (auto simp: delivers_def)
      then show ?thesis
        using "1.IH" [OF False Some x [symmetric]] d False Some x
        by (auto simp: bt_uart_isr.simps [of pool s] split: option.splits intro: delivers_trans)
    qed
  qed
qed

lemma run_step:
  "case hci_run pool s of None \<Rightarrow> expected pool s = None
   | Some s' \<Rightarrow> delivers pool s (expected pool s) s' \<and> future s' = []"
proof (induction pool s rule: hci_run.induct)
  case (1 pool s)
  show ?case
  proof (cases "fifo s = []")
    case False
    show ?thesis
    proof (cases "bt_uart_isr pool s")
      case None
      then show ?thesis using isr_step [of pool s] False by (simp add: hci_run.simps [of pool])
    next
      case (Some s1)
      then have d: "delivers pool s (expected pool s) s1" using isr_step [of pool s] by simp
      then have "expected pool s1 = None \<Longrightarrow> expected pool s = None" by (auto simp: delivers_def)
      then show ?thesis
        using "1.IH"(1) [OF False Some] d False Some
        by (auto simp: hci_run.simps [of pool s] split: option.splits intro: delivers_trans)
    qed
  next
    case True
    show ?thesis
    proof (cases "arrivals s")
      case Nil
      then show ?thesis using True by (simp add: hci_run.simps [of pool] delivers_nothing future_def)
    next
      case (Cons a as)
      let ?s = "s\<lparr>fifo := a, arrivals := as\<rparr>"
      have f: "future ?s = future s" using True Cons by (simp add: future_def)
      then have "expected pool ?s = expected pool s" by (simp add: expected_def body_expected_def Let_def split: option.split)
      then show ?thesis
        using "1.IH"(2) [OF _ Cons] True Cons by (simp add: hci_run.simps [of pool s] delivers_def split: option.splits)
    qed
  qed
qed

text \<open>At the end of the stream nothing more is expected.\<close>

lemma expected_end: "future s = [] \<Longrightarrow> expected pool s = Some (calls s, [])"
  by (simp add: expected_def body_expected_def Let_def split: option.split)

lemma run_is_parse:
  assumes "remaining s = 0"
  shows "map_option (\<lambda>s'. (calls s', tx_queue s')) (hci_run pool s) = before (tx_queue s) (h4_parse pool (calls s) (future s))"
proof (cases "hci_run pool s")
  case None
  then show ?thesis using run_step [of pool s] assms by (simp add: expected_def)
next
  case (Some s')
  then obtain don where "tx_queue s' = tx_queue s @ don" "h4_parse pool (calls s) (future s) = before don (expected pool s')" "future s' = []"
    using run_step [of pool s] assms by (auto simp: delivers_def expected_def)
  then show ?thesis using Some expected_end [of s' pool] by simp
qed

section \<open>Properties\<close>

text \<open>
  C8. The interrupt handler is the parser of the stream: for every sequence of bytes, sensible or not, every pool of buffers, and every way in
  which the bytes arrive, it queues exactly the packets that the parser finds and asks for and releases exactly the
  buffers that the parser does; and it hangs, in a header, exactly when the parser finds one that is not complete or does not fit.
\<close>

theorem isr_is_parser:
  assumes "remaining s = 0"
  shows "map_option (\<lambda>s'. (calls s', tx_queue s')) (hci_run pool s) =
    map_option (\<lambda>(h, q). (h, tx_queue s @ q)) (h4_parse pool (calls s) (fifo s @ concat (arrivals s)))"
  using run_is_parse [OF assms, of pool] by (simp add: before_def future_def)

text \<open>The parser on well-formed packets.\<close>

lemma parse_one:
  assumes "pool h t = Some (bt, sz)" and "bt \<noteq> BT_BUF_OTHER" and "header_len bt \<le> sz"
    and "length body = header_len bt + body_len bt (body @ bs)"
  shows "h4_parse pool h (t # body @ bs) =
    (if sz < length body then h4_parse pool (h @ [(Bt_buf_get_tx t, 1), (Net_buf_unref, 0)]) bs
     else before [\<lparr>btype = bt, room = sz, bdata = body\<rparr>] (h4_parse pool (h @ [(Bt_buf_get_tx t, 1)]) bs))"
proof -
  have "length (body @ bs) < header_len bt \<longleftrightarrow> False" "sz - header_len bt < body_len bt (body @ bs) \<longleftrightarrow> sz < length body"
    using assms(3,4) by auto
  then show ?thesis using assms(1-3) by (simp add: h4_parse.simps(2) Let_def flip: assms(4))
qed

lemma parse_packet:
  assumes "pool_laws pool sz" and "packet_wf p"
  shows "\<exists>h'. h4_parse pool h (enc_packet p @ bs) = before (delivered sz p) (h4_parse pool h' bs)"
proof -
  have "pool h (packet_type p) = Some (packet_btype p, sz)" "packet_btype p \<noteq> BT_BUF_OTHER" "header_len (packet_btype p) \<le> sz"
    using assms(1) by (cases p; simp add: pool_laws_def header_len_def)+
  moreover have "length (packet_body p) = header_len (packet_btype p) + body_len (packet_btype p) (packet_body p @ bs)"
  proof (cases p)
    case (Cmd op d)
    then obtain a b where "op = [a, b]" using assms(2) by (auto simp: length_Suc_conv numeral_2_eq_2)
    then show ?thesis using Cmd assms(2) by (simp add: header_len_def body_len_def unat_of_nat)
  next
    case (Acl hd d)
    then obtain a b where "hd = [a, b]" using assms(2) by (auto simp: length_Suc_conv numeral_2_eq_2)
    moreover have "length d div 256 < 256" using assms(2) Acl by (simp add: div_less_iff_less_mult)
    ultimately show ?thesis using Acl assms(2) by (simp add: header_len_def body_len_def unat_of_nat)
  qed
  ultimately show ?thesis
    using parse_one [of pool h "packet_type p" "packet_btype p" sz "packet_body p" bs]
    by (auto simp: enc_packet_def delivered_def not_less)
qed

lemma parse_packets:
  assumes "pool_laws pool sz"
  shows "list_all packet_wf ps \<Longrightarrow> \<exists>h'. h4_parse pool h (concat (map enc_packet ps)) = Some (h', concat (map (delivered sz) ps))"
proof (induction ps arbitrary: h)
  case (Cons p ps)
  obtain h1 where h1: "h4_parse pool h (enc_packet p @ concat (map enc_packet ps)) =
      before (delivered sz p) (h4_parse pool h1 (concat (map enc_packet ps)))"
    using parse_packet [OF assms, of p h "concat (map enc_packet ps)"] Cons.prems by auto
  then show ?case using Cons.IH [of h1] Cons.prems by auto
qed simp


text \<open>
  When the pool has no buffer as a packet begins, the type byte is lost: the handler returns, is entered again
  at once, and takes the byte after it (the packet's header) for the type of a new packet.
\<close>

theorem no_buffer_loses_the_type:
  assumes "fifo s = c # cs" and "remaining s = 0" and "pool (calls s) c = None"
  shows "hci_run pool s = hci_run pool (s\<lparr>fifo := cs, calls := calls s @ [(Bt_buf_get_tx c, 0)], isr_buf := None\<rparr>)"
proof -
  have "h4_read 1 0 [] s = Some ([c], s\<lparr>fifo := cs\<rparr>)"
    using assms(1) by (subst h4_read.simps, subst h4_read.simps) simp
  then have "isr_round pool s = Some (False, s\<lparr>fifo := cs, calls := calls s @ [(Bt_buf_get_tx c, 0)], isr_buf := None\<rparr>)"
    using assms(2,3) by (simp add: isr_round_def isr_start_def)
  then show ?thesis using assms(1) by (simp add: hci_run.simps [of pool s] bt_uart_isr.simps [of pool s])
qed

text \<open>The bytes that a stretch of the trace puts on the line.\<close>

definition polled :: "(hci_call \<times> int) list \<Rightarrow> byte list" where
  "polled tr = List.map_filter (\<lambda>c. case fst c of Uart_poll_out b \<Rightarrow> Some b | _ \<Rightarrow> None) tr"

lemma h4_send_loop_calls: "calls (h4_send_loop bs s) = calls s @ map (\<lambda>b. (Uart_poll_out b, 0)) bs"
  by (induction bs arbitrary: s) (auto simp: emit_def)

lemma polled_append [simp]: "polled (xs @ ys) = polled xs @ polled ys"
  by (simp add: polled_def List.map_filter_def)

lemma polled_Cons: "polled (c # tr) = (case fst c of Uart_poll_out b \<Rightarrow> b # polled tr | _ \<Rightarrow> polled tr)"
  by (cases "fst c") (simp_all add: polled_def)

lemma polled_Nil: "polled [] = []"
  by (simp add: polled_def)

lemma polled_bytes [simp]: "polled (map (\<lambda>b. (Uart_poll_out b, 0)) bs) = bs"
  by (induction bs) (auto simp: polled_Cons polled_Nil)

text \<open>A buffer of the controller is sent to the host byte by byte, and released.\<close>

lemma h4_send_bytes: "polled (calls (snd (h4_send buf s))) = polled (calls s) @ buf"
  by (simp add: h4_send_def h4_send_loop_calls polled_Cons polled_Nil)

definition basename :: "byte list \<Rightarrow> byte list" where
  "basename f = rev (takeWhile (\<lambda>c. c \<noteq> 47) (rev f))"

lemma no_slash: "47 \<notin> set cs \<Longrightarrow> takeWhile (\<lambda>c. c \<noteq> 47) (rev cs) = rev (cs :: byte list)"
  by (subst takeWhile_eq_all_conv) (metis set_rev)

lemma basename_no_slash: "47 \<notin> set cs \<Longrightarrow> basename cs = cs"
  by (simp add: basename_def no_slash)

lemma basename_Cons: "basename (c # cs) = (if c \<noteq> 47 \<and> 47 \<notin> set cs then c # cs else basename cs)"
proof (cases "47 \<in> set cs")
  case True
  then have "takeWhile (\<lambda>c. c \<noteq> 47) (rev cs @ [c]) = takeWhile (\<lambda>c. c \<noteq> 47) (rev cs)"
    by (intro takeWhile_append1 [of 47]) auto
  then show ?thesis using True by (simp add: basename_def)
next
  case False
  have "takeWhile (\<lambda>c. c \<noteq> 47) (rev cs @ [c]) = rev cs @ takeWhile (\<lambda>c. c \<noteq> 47) [c]"
    using False by (intro takeWhile_append2) auto
  then show ?thesis using False by (simp add: basename_def no_slash)
qed

lemma file_loop_spec:
  "file_loop f n p = (n + length f, if 47 \<in> set f then n + length f - length (basename f) else p) \<and>
   length (basename f) \<le> length f \<and> drop (length f - length (basename f)) f = basename f"
proof (induction f arbitrary: n p)
  case (Cons c cs)
  have l: "length (basename cs) \<le> length cs" "drop (length cs - length (basename cs)) cs = basename cs"
    using Cons.IH [of 0 0] by auto
  show ?case
    using Cons.IH [of "n + 1" "if c = 47 then n + 1 else p"] l basename_no_slash [of cs]
    by (auto simp: basename_Cons Suc_diff_le)
qed (simp add: basename_def)

text \<open>
  The report of a failed assertion is a vendor-specific debug event with the name of the file without its
  directories, and the line, low byte first. The event's length is right (modulo 256) when there is
  a name; without one it announces a byte more than is sent, the NUL that is left out then.
\<close>

theorem assertion_report:
  "polled (calls (bt_ctlr_assert_handle fname line s)) = polled (calls s) @
     (let name = (case fname of None \<Rightarrow> [] | Some f \<Rightarrow> basename f);
          line_bytes = [ucast line, ucast (drop_bit 8 line), ucast (drop_bit 16 line), ucast (drop_bit 24 line)]
      in if name = [] then [0x04, 0xff, 6, 0xAA] @ line_bytes
         else [0x04, 0xff, word_of_nat (length (0xAA # name @ 0 # line_bytes)), 0xAA] @ name @ [0] @ line_bytes)"
proof -
  have "(let (len, pos) = file_loop f 0 0 in (drop pos f, len - pos)) = (basename f, length (basename f))" for f
  proof (cases "47 \<in> set f")
    case True
    then show ?thesis using file_loop_spec [of f 0 0] by auto
  next
    case False
    then have "basename f = f" by (rule basename_no_slash)
    then show ?thesis using file_loop_spec [of f 0 0] False by auto
  qed
  then show ?thesis
    by (cases fname) (auto simp: bt_ctlr_assert_handle_def h4_send_loop_calls Let_def H4_EVT_def polled_Cons polled_Nil)
qed

section \<open>The properties at work\<close>

definition example_hci :: "byte list list \<Rightarrow> hci" where
  "example_hci portions =
     \<lparr>calls = [], fifo = [], arrivals = portions, remaining = 0, isr_buf = None, tx_queue = []\<rparr>"

definition small_pool :: pool where
  "small_pool h t = (if t = H4_CMD then Some (BT_BUF_CMD, 6) else if t = H4_ACL then Some (BT_BUF_ACL_OUT, 6) else None)"

text \<open>A byte that is no type, a command, and then a header of data that lacks its last byte.\<close>

theorem isr_is_parser_witness:
  "hci_run small_pool (example_hci [[9, 1], [3, 12], [0, 2, 7, 0, 3]]) = None \<and>
   (\<exists>s'. hci_run small_pool (example_hci [[9, 1], [3, 12], [0]]) = Some s' \<and> map bdata (tx_queue s') = [[3, 12, 0]])"
proof -
  have "remaining (example_hci p) = 0" "fifo (example_hci p) = []" "arrivals (example_hci p) = p" "calls (example_hci p) = []"
    "tx_queue (example_hci p) = []" for p by (simp_all add: example_hci_def)
  moreover have "h4_parse small_pool [] [9, 1, 3, 12, 0, 2, 7, 0, 3] = None"
    "map_option (map bdata \<circ> snd) (h4_parse small_pool [] [9, 1, 3, 12, 0]) = Some [[3, 12, 0]]"
    by (simp_all add: h4_parse.simps(2) small_pool_def H4_CMD_def H4_ACL_def header_len_def body_len_def)
  ultimately show ?thesis
    using isr_is_parser [of "example_hci [[9, 1], [3, 12], [0, 2, 7, 0, 3]]" small_pool]
      isr_is_parser [of "example_hci [[9, 1], [3, 12], [0]]" small_pool] by auto
qed


text \<open>Without buffers every byte of a reset command is taken for a packet type.\<close>

theorem no_buffer_loses_the_type_witness:
  "\<exists>s'. hci_run (\<lambda>h t. None) ((example_hci [])\<lparr>fifo := [1, 3]\<rparr>) = Some s' \<and>
     map fst (calls s') = [Bt_buf_get_tx 1, Bt_buf_get_tx 3]"
proof -
  let ?P = "\<lambda>h t. None" and ?s = "(example_hci [])\<lparr>fifo := [1, 3]\<rparr>"
  have r: "remaining (example_hci []) = 0" "arrivals (example_hci []) = []" by (simp_all add: example_hci_def)
  let ?s1 = "?s\<lparr>fifo := [3], calls := calls ?s @ [(Bt_buf_get_tx 1, 0)], isr_buf := None\<rparr>"
  have "hci_run ?P ?s = hci_run ?P ?s1" by (rule no_buffer_loses_the_type) (simp_all add: r)
  also have "\<dots> = hci_run ?P (?s1\<lparr>fifo := [], calls := calls ?s1 @ [(Bt_buf_get_tx 3, 0)], isr_buf := None\<rparr>)"
    by (rule no_buffer_loses_the_type) (simp_all add: r)
  finally show ?thesis by (simp add: hci_run.simps r) (simp add: example_hci_def)
qed

end
