(* ===== verification/Rtc_Pcf85063a.thy ===== *)
theory Rtc_Pcf85063a
  imports Prelude
begin

text \<open>
  The driver of the real-time clock, \<open>drivers/rtc/pcf85063a\<close>, through Zephyr's counter interface, with the register map of its header.
  The bus (Zephyr's \<open>i2c_reg_*\<close> functions and the chip behind it) is a parameter; what the
  driver relies on is stated over the registers of the chip.
\<close>

section \<open>Registers\<close>

definition PCF85063A_CTRL1 :: byte where "PCF85063A_CTRL1 = 0x00"
definition PCF85063A_CTRL1_STOP :: byte where "PCF85063A_CTRL1_STOP = push_bit 5 1"
definition PCF85063A_CTRL2 :: byte where "PCF85063A_CTRL2 = 0x01"
definition PCF85063A_CTRL2_TF :: byte where "PCF85063A_CTRL2_TF = push_bit 3 1"
definition PCF85063A_TIMER_VALUE :: byte where "PCF85063A_TIMER_VALUE = 0x10"
definition PCF85063A_TIMER_MODE :: byte where "PCF85063A_TIMER_MODE = 0x11"
definition PCF85063A_TIMER_MODE_FREQ_MASK :: byte where
  "PCF85063A_TIMER_MODE_FREQ_MASK = push_bit 4 1 OR push_bit 3 1"
definition PCF85063A_TIMER_MODE_FREQ_SHIFT :: nat where "PCF85063A_TIMER_MODE_FREQ_SHIFT = 3"
definition PCF85063A_TIMER_MODE_FREQ_1 :: byte where "PCF85063A_TIMER_MODE_FREQ_1 = 0x2"
definition PCF85063A_TIMER_MODE_EN :: byte where "PCF85063A_TIMER_MODE_EN = push_bit 2 1"
definition PCF85063A_TIMER_MODE_INT_EN :: byte where "PCF85063A_TIMER_MODE_INT_EN = push_bit 1 1"
definition PCF85063A_TIMER_MODE_INT_TI_TP :: byte where "PCF85063A_TIMER_MODE_INT_TI_TP = push_bit 0 1"

lemmas register_defs = PCF85063A_CTRL1_def PCF85063A_CTRL2_def PCF85063A_TIMER_VALUE_def PCF85063A_TIMER_MODE_def

lemmas bit_defs = PCF85063A_CTRL1_STOP_def PCF85063A_CTRL2_TF_def PCF85063A_TIMER_MODE_FREQ_MASK_def
  PCF85063A_TIMER_MODE_FREQ_SHIFT_def PCF85063A_TIMER_MODE_FREQ_1_def PCF85063A_TIMER_MODE_EN_def
  PCF85063A_TIMER_MODE_INT_EN_def PCF85063A_TIMER_MODE_INT_TI_TP_def

section \<open>The bus\<close>

text \<open>Each operation returns its error number; reading also the byte read.\<close>

record 'd i2c =
  i2c_reg_update_byte :: "byte \<Rightarrow> byte \<Rightarrow> byte \<Rightarrow> 'd \<Rightarrow> int \<times> 'd"
  i2c_reg_write_byte :: "byte \<Rightarrow> byte \<Rightarrow> 'd \<Rightarrow> int \<times> 'd"
  i2c_reg_read_byte :: "byte \<Rightarrow> 'd \<Rightarrow> (int \<times> byte) \<times> 'd"

text \<open>An update of the bits in \<open>m\<close>, and what the driver relies on.\<close>

definition masked :: "byte \<Rightarrow> byte \<Rightarrow> byte \<Rightarrow> byte" where
  "masked m v x = (x AND NOT m) OR (v AND m)"

definition i2c_laws :: "'d i2c \<Rightarrow> ('d \<Rightarrow> byte \<Rightarrow> byte) \<Rightarrow> bool" where
  "i2c_laws I regs \<longleftrightarrow>
     (\<forall>d r m v. let (err, d') = i2c_reg_update_byte I r m v d in
        if err = 0 then regs d' = (regs d)(r := masked m v (regs d r)) else \<forall>x. x \<noteq> r \<longrightarrow> regs d' x = regs d x) \<and>
     (\<forall>d r v. let (err, d') = i2c_reg_write_byte I r v d in
        if err = 0 then regs d' = (regs d)(r := v) else \<forall>x. x \<noteq> r \<longrightarrow> regs d' x = regs d x) \<and>
     (\<forall>d r. let ((err, b), d') = i2c_reg_read_byte I r d in regs d' = regs d \<and> (err = 0 \<longrightarrow> b = regs d r))"

section \<open>The register map\<close>

text \<open>
  The rest of the header \<open>pcf85063a.h\<close>: the registers and bits that the driver does not use yet, the codes of
  the fields, and the time of day. \<open>BIT (n)\<close> is \<open>push_bit n 1\<close>, \<open>BIT_MASK (n)\<close> the number below it.
\<close>

definition PCF85063A_CTRL1_EXT_TEST :: byte where "PCF85063A_CTRL1_EXT_TEST = push_bit 7 1"
definition PCF85063A_CTRL1_SR :: byte where "PCF85063A_CTRL1_SR = push_bit 4 1"
definition PCF85063A_CTRL1_CIE :: byte where "PCF85063A_CTRL1_CIE = push_bit 2 1"
definition PCF85063A_CTRL1_12_24 :: byte where "PCF85063A_CTRL1_12_24 = push_bit 1 1"
definition PCF85063A_CTRL1_CAP_SEL :: byte where "PCF85063A_CTRL1_CAP_SEL = push_bit 0 1"
definition PCF85063A_CTRL2_AIE :: byte where "PCF85063A_CTRL2_AIE = push_bit 7 1"
definition PCF85063A_CTRL2_AF :: byte where "PCF85063A_CTRL2_AF = push_bit 6 1"
definition PCF85063A_CTRL2_MI :: byte where "PCF85063A_CTRL2_MI = push_bit 5 1"
definition PCF85063A_CTRL2_HMI :: byte where "PCF85063A_CTRL2_HMI = push_bit 4 1"
definition PCF85063A_OFFSET :: byte where "PCF85063A_OFFSET = 0x02"
definition PCF85063A_RAM_BYTE :: byte where "PCF85063A_RAM_BYTE = 0x03"
definition PCF85063A_TENS_SHIFT :: nat where "PCF85063A_TENS_SHIFT = 4"
definition PCF85063A_SECONDS :: byte where "PCF85063A_SECONDS = 0x04"
definition PCF85063A_SECONDS_OS :: byte where "PCF85063A_SECONDS_OS = push_bit 7 1"
definition PCF85063A_MINUTES :: byte where "PCF85063A_MINUTES = 0x05"
definition PCF85063A_HOURS :: byte where "PCF85063A_HOURS = 0x06"
definition PCF85063A_HOURS_AM_PM :: byte where "PCF85063A_HOURS_AM_PM = push_bit 5 1"
definition PCF85063A_DAYS :: byte where "PCF85063A_DAYS = 0x07"
definition PCF85063A_WEEKDAYS :: byte where "PCF85063A_WEEKDAYS = 0x08"
definition PCF85063A_MONTHS :: byte where "PCF85063A_MONTHS = 0x09"
definition PCF85063A_YEARS :: byte where "PCF85063A_YEARS = 0x0a"
definition PCF85063A_SECOND_ALARM :: byte where "PCF85063A_SECOND_ALARM = 0x0b"
definition PCF85063A_SECOND_ALARM_EN :: byte where "PCF85063A_SECOND_ALARM_EN = push_bit 7 1"
definition PCF85063A_MINUTE_ALARM :: byte where "PCF85063A_MINUTE_ALARM = 0x0c"
definition PCF85063A_MINUTE_ALARM_EN :: byte where "PCF85063A_MINUTE_ALARM_EN = push_bit 7 1"
definition PCF85063A_HOUR_ALARM :: byte where "PCF85063A_HOUR_ALARM = 0x0d"
definition PCF85063A_HOUR_ALARM_EN :: byte where "PCF85063A_HOUR_ALARM_EN = push_bit 7 1"
definition PCF85063A_HOUR_ALARM_AM_PM :: byte where "PCF85063A_HOUR_ALARM_AM_PM = push_bit 5 1"
definition PCF85063A_DAY_ALARM :: byte where "PCF85063A_DAY_ALARM = 0x0e"
definition PCF85063A_DAY_ALARM_EN :: byte where "PCF85063A_DAY_ALARM_EN = push_bit 7 1 - 1"
definition PCF85063A_WEEKDAY_ALARM :: byte where "PCF85063A_WEEKDAY_ALARM = 0x0f"
definition PCF85063A_WEEKDAY_ALARM_EN :: byte where "PCF85063A_WEEKDAY_ALARM_EN = push_bit 7 1"

text \<open>The codes of the fields: the frequency at the clock output, the days of the week, the months, the frequency of the timer.\<close>

datatype clkout = COF_32K | COF_16K | COF_8K | COF_4K | COF_2K | COF_1K | COF_1 | COF_LOW

fun PCF85063A_CTRL2_COF :: "clkout \<Rightarrow> byte" where
"PCF85063A_CTRL2_COF COF_32K = 0x0"
| "PCF85063A_CTRL2_COF COF_16K = 0x1"
| "PCF85063A_CTRL2_COF COF_8K = 0x2"
| "PCF85063A_CTRL2_COF COF_4K = 0x3"
| "PCF85063A_CTRL2_COF COF_2K = 0x4"
| "PCF85063A_CTRL2_COF COF_1K = 0x5"
| "PCF85063A_CTRL2_COF COF_1 = 0x6"
| "PCF85063A_CTRL2_COF COF_LOW = 0x7"

datatype weekday = SUN | MON | TUE | WED | THU | FRI | SAT

fun PCF85063A_WEEKDAYS_code :: "weekday \<Rightarrow> byte" where
"PCF85063A_WEEKDAYS_code SUN = 0x0"
| "PCF85063A_WEEKDAYS_code MON = 0x1"
| "PCF85063A_WEEKDAYS_code TUE = 0x2"
| "PCF85063A_WEEKDAYS_code WED = 0x3"
| "PCF85063A_WEEKDAYS_code THU = 0x4"
| "PCF85063A_WEEKDAYS_code FRI = 0x5"
| "PCF85063A_WEEKDAYS_code SAT = 0x6"

datatype month = JAN | FEB | MAR | APR | MAY | JUN | JUL | AUG | SEP | OCT | NOV | DEC

fun PCF85063A_MONTHS_code :: "month \<Rightarrow> byte" where
"PCF85063A_MONTHS_code JAN = 0x1"
| "PCF85063A_MONTHS_code FEB = 0x2"
| "PCF85063A_MONTHS_code MAR = 0x3"
| "PCF85063A_MONTHS_code APR = 0x4"
| "PCF85063A_MONTHS_code MAY = 0x5"
| "PCF85063A_MONTHS_code JUN = 0x6"
| "PCF85063A_MONTHS_code JUL = 0x7"
| "PCF85063A_MONTHS_code AUG = 0x8"
| "PCF85063A_MONTHS_code SEP = 0x9"
| "PCF85063A_MONTHS_code OCT = 0x10"
| "PCF85063A_MONTHS_code NOV = 0x11"
| "PCF85063A_MONTHS_code DEC = 0x12"

datatype timer_freq = FREQ_4K | FREQ_64 | FREQ_1 | FREQ_1_60

fun PCF85063A_TIMER_MODE_FREQ :: "timer_freq \<Rightarrow> byte" where
"PCF85063A_TIMER_MODE_FREQ FREQ_4K = 0x0"
| "PCF85063A_TIMER_MODE_FREQ FREQ_64 = 0x1"
| "PCF85063A_TIMER_MODE_FREQ FREQ_1 = 0x2"
| "PCF85063A_TIMER_MODE_FREQ FREQ_1_60 = 0x3"

record pcf85063a_time =
  rt_year :: "16 word"
  rt_month :: byte
  rt_day :: byte
  rt_am_pm :: bool
  rt_hour :: byte
  rt_minute :: byte
  rt_second :: byte

text \<open>Which bits of a register a list of fields takes, and that no two of them overlap.\<close>

fun separate :: "byte list \<Rightarrow> bool" where
  "separate [] = True"
| "separate (m # ms) = ((\<forall>n \<in> set ms. m AND n = 0) \<and> separate ms)"

lemmas map_defs = register_defs bit_defs PCF85063A_CTRL1_EXT_TEST_def PCF85063A_CTRL1_SR_def PCF85063A_CTRL1_CIE_def PCF85063A_CTRL1_12_24_def PCF85063A_CTRL1_CAP_SEL_def PCF85063A_CTRL2_AIE_def PCF85063A_CTRL2_AF_def PCF85063A_CTRL2_MI_def PCF85063A_CTRL2_HMI_def PCF85063A_OFFSET_def PCF85063A_RAM_BYTE_def PCF85063A_TENS_SHIFT_def PCF85063A_SECONDS_def PCF85063A_SECONDS_OS_def PCF85063A_MINUTES_def PCF85063A_HOURS_def PCF85063A_HOURS_AM_PM_def PCF85063A_DAYS_def PCF85063A_WEEKDAYS_def PCF85063A_MONTHS_def PCF85063A_YEARS_def PCF85063A_SECOND_ALARM_def PCF85063A_SECOND_ALARM_EN_def PCF85063A_MINUTE_ALARM_def PCF85063A_MINUTE_ALARM_EN_def PCF85063A_HOUR_ALARM_def PCF85063A_HOUR_ALARM_EN_def PCF85063A_HOUR_ALARM_AM_PM_def PCF85063A_DAY_ALARM_def PCF85063A_DAY_ALARM_EN_def PCF85063A_WEEKDAY_ALARM_def PCF85063A_WEEKDAY_ALARM_EN_def

text \<open>The registers are the addresses from 0 on, and the fields of each register are separate.\<close>

lemma registers_in_order:
  "map unat [PCF85063A_CTRL1, PCF85063A_CTRL2, PCF85063A_OFFSET, PCF85063A_RAM_BYTE, PCF85063A_SECONDS, PCF85063A_MINUTES,
     PCF85063A_HOURS, PCF85063A_DAYS, PCF85063A_WEEKDAYS, PCF85063A_MONTHS, PCF85063A_YEARS, PCF85063A_SECOND_ALARM,
     PCF85063A_MINUTE_ALARM, PCF85063A_HOUR_ALARM, PCF85063A_DAY_ALARM, PCF85063A_WEEKDAY_ALARM, PCF85063A_TIMER_VALUE,
     PCF85063A_TIMER_MODE] = [0..<18]"
  by (simp add: map_defs upt_rec)

lemma fields_separate:
  "separate [PCF85063A_CTRL1_EXT_TEST, PCF85063A_CTRL1_STOP, PCF85063A_CTRL1_SR, PCF85063A_CTRL1_CIE, PCF85063A_CTRL1_12_24,
     PCF85063A_CTRL1_CAP_SEL]"
  "separate [PCF85063A_CTRL2_AIE, PCF85063A_CTRL2_AF, PCF85063A_CTRL2_MI, PCF85063A_CTRL2_HMI, PCF85063A_CTRL2_TF, PCF85063A_CTRL2_COF f]"
  "separate [PCF85063A_TIMER_MODE_FREQ_MASK, PCF85063A_TIMER_MODE_EN, PCF85063A_TIMER_MODE_INT_EN, PCF85063A_TIMER_MODE_INT_TI_TP]"
  by (simp_all add: map_defs) (cases f; simp)

text \<open>The months are coded in binary-coded decimal, as the chip has them, and the frequency of the timer fits its field.\<close>

definition bcd :: "nat \<Rightarrow> byte" where
  "bcd n = push_bit PCF85063A_TENS_SHIFT (of_nat (n div 10)) OR of_nat (n mod 10)"

lemma months_bcd: "map PCF85063A_MONTHS_code [JAN, FEB, MAR, APR, MAY, JUN, JUL, AUG, SEP, OCT, NOV, DEC] = map bcd [1..<13]"
  by (simp add: bcd_def PCF85063A_TENS_SHIFT_def upt_rec)

lemma timer_frequency_fits:
  "push_bit PCF85063A_TIMER_MODE_FREQ_SHIFT (PCF85063A_TIMER_MODE_FREQ f) AND NOT PCF85063A_TIMER_MODE_FREQ_MASK = 0"
  by (cases f) (simp_all add: map_defs)

text \<open>
  Every alarm register is enabled by its bit 7, but for the one of the day: its constant is the seven other bits, so setting it does not touch
  bit 7 and overwrites the day.
\<close>

lemma masked_set: "masked m m x AND m = m"
  by (rule bit_word_eqI) (auto simp: masked_def bit_simps)

lemma day_alarm_enable_is_the_day:
  "PCF85063A_SECOND_ALARM_EN = push_bit 7 1" "PCF85063A_MINUTE_ALARM_EN = push_bit 7 1" "PCF85063A_HOUR_ALARM_EN = push_bit 7 1"
  "PCF85063A_WEEKDAY_ALARM_EN = push_bit 7 1" "PCF85063A_DAY_ALARM_EN = NOT (push_bit 7 1)"
  "masked PCF85063A_DAY_ALARM_EN PCF85063A_DAY_ALARM_EN x AND PCF85063A_DAY_ALARM_EN = PCF85063A_DAY_ALARM_EN"
  by (simp_all only: masked_set) (simp_all add: map_defs)

section \<open>The driver\<close>

definition pcf85063a_start :: "'d i2c \<Rightarrow> 'd \<Rightarrow> int \<times> 'd" where
  "pcf85063a_start I d =
     (let (ret, d) = i2c_reg_update_byte I PCF85063A_CTRL1 PCF85063A_CTRL1_STOP 0 d in
      if ret \<noteq> 0 then (ret, d) else (0, d))"

definition pcf85063a_stop :: "'d i2c \<Rightarrow> 'd \<Rightarrow> int \<times> 'd" where
  "pcf85063a_stop I d =
     (let (ret, d) = i2c_reg_update_byte I PCF85063A_CTRL1 PCF85063A_CTRL1_STOP PCF85063A_CTRL1_STOP d in
      if ret \<noteq> 0 then (ret, d) else (0, d))"

text \<open>The counter interface gives the ticks in 32 bits; the driver keeps the low 8 of them.\<close>

definition pcf85063a_set_alarm :: "'d i2c \<Rightarrow> 32 word \<Rightarrow> 'd \<Rightarrow> int \<times> 'd" where
  "pcf85063a_set_alarm I cfg_ticks d =
     (let ticks = (ucast cfg_ticks :: byte);
          (ret, d) = i2c_reg_update_byte I PCF85063A_CTRL2 PCF85063A_CTRL2_TF 0 d
      in if ret \<noteq> 0 then (ret, d)
      else
        let (ret, d) = i2c_reg_write_byte I PCF85063A_TIMER_VALUE ticks d in
        if ret \<noteq> 0 then (ret, d)
        else
          let reg = push_bit PCF85063A_TIMER_MODE_FREQ_SHIFT PCF85063A_TIMER_MODE_FREQ_1 OR
                PCF85063A_TIMER_MODE_EN OR PCF85063A_TIMER_MODE_INT_EN;
              msk = PCF85063A_TIMER_MODE_FREQ_MASK OR PCF85063A_TIMER_MODE_EN OR PCF85063A_TIMER_MODE_INT_EN;
              (ret, d) = i2c_reg_update_byte I PCF85063A_TIMER_MODE msk reg d
          in if ret \<noteq> 0 then (ret, d) else (0, d))"

definition pcf85063a_cancel_alarm :: "'d i2c \<Rightarrow> 'd \<Rightarrow> int \<times> 'd" where
  "pcf85063a_cancel_alarm I d =
     (let (ret, d) = i2c_reg_update_byte I PCF85063A_CTRL2 PCF85063A_CTRL2_TF 0 d
      in if ret \<noteq> 0 then (ret, d)
      else
        let msk = PCF85063A_TIMER_MODE_EN OR PCF85063A_TIMER_MODE_INT_EN OR PCF85063A_TIMER_MODE_INT_TI_TP;
            (ret, d) = i2c_reg_update_byte I PCF85063A_TIMER_MODE msk 0 d
        in if ret \<noteq> 0 then (ret, d) else (0, d))"

text \<open>The error number is returned where the interface expects the flag.\<close>

definition pcf85063a_get_pending_int :: "'d i2c \<Rightarrow> 'd \<Rightarrow> 32 word \<times> 'd" where
  "pcf85063a_get_pending_int I d =
     (let ((ret, reg), d) = i2c_reg_read_byte I PCF85063A_CTRL2 d in
      if ret \<noteq> 0 then (word_of_int ret, d)
      else (if reg AND PCF85063A_CTRL2_TF \<noteq> 0 then 1 else 0, d))"

text \<open>The operations that do nothing, and the constants of the interface.\<close>

definition pcf85063a_get_value :: "'d \<Rightarrow> int \<times> 'd" where
  "pcf85063a_get_value d = (0, d)"

definition pcf85063a_set_top_value :: "'d \<Rightarrow> int \<times> 'd" where
  "pcf85063a_set_top_value d = (0, d)"

definition pcf85063a_get_top_value :: "32 word" where
  "pcf85063a_get_top_value = 0"

definition pcf85063a_get_max_relative_alarm :: "32 word" where
  "pcf85063a_get_max_relative_alarm = 0"

text \<open>\<open>bus\<close> is whether the bus device is found.\<close>

definition pcf85063a_init :: "'d i2c \<Rightarrow> bool \<Rightarrow> 'd \<Rightarrow> int \<times> 'd" where
  "pcf85063a_init I bus d =
     (if \<not> bus then (- EINVAL, d)
      else
        let ((ret, reg), d) = i2c_reg_read_byte I PCF85063A_CTRL1 d in
        if ret \<noteq> 0 then (- EIO, d) else (0, d))"

section \<open>What the operations do to the registers\<close>

lemma update_ok:
  "i2c_laws I regs \<Longrightarrow> i2c_reg_update_byte I r m v d = (0, d') \<Longrightarrow> regs d' = (regs d)(r := masked m v (regs d r))"
  unfolding i2c_laws_def Let_def case_prod_beta by (metis fst_conv snd_conv)

lemma update_fail:
  "i2c_laws I regs \<Longrightarrow> i2c_reg_update_byte I r m v d = (err, d') \<Longrightarrow> x \<noteq> r \<Longrightarrow> regs d' x = regs d x"
  unfolding i2c_laws_def Let_def case_prod_beta by (metis fst_conv fun_upd_other snd_conv)

lemma write_ok:
  "i2c_laws I regs \<Longrightarrow> i2c_reg_write_byte I r v d = (0, d') \<Longrightarrow> regs d' = (regs d)(r := v)"
  unfolding i2c_laws_def Let_def case_prod_beta by (metis fst_conv snd_conv)

lemma write_fail:
  "i2c_laws I regs \<Longrightarrow> i2c_reg_write_byte I r v d = (err, d') \<Longrightarrow> x \<noteq> r \<Longrightarrow> regs d' x = regs d x"
  unfolding i2c_laws_def Let_def case_prod_beta by (metis fst_conv fun_upd_other snd_conv)

lemma read_ok:
  "i2c_laws I regs \<Longrightarrow> i2c_reg_read_byte I r d = ((err, b), d') \<Longrightarrow>
   regs d' = regs d \<and> (err = 0 \<longrightarrow> b = regs d r)"
  unfolding i2c_laws_def Let_def case_prod_beta by (metis fst_conv snd_conv)

lemma bit_masked: "n < 8 \<Longrightarrow> bit (masked m v x) n = (if bit m n then bit v n else bit x n)"
  by (auto simp: masked_def bit_simps)

lemma less_8_cases: "n < 8 \<Longrightarrow> n = 0 \<or> n = 1 \<or> n = 2 \<or> n = 3 \<or> n = 4 \<or> n = 5 \<or> n = 6 \<or> n = (7 :: nat)"
  by arith

lemma bit_constants:
  assumes "n < 8"
  shows "bit (0x1e :: byte) n = (n = 1 \<or> n = 2 \<or> n = 3 \<or> n = 4)"
    and "bit (0x16 :: byte) n = (n = 1 \<or> n = 2 \<or> n = 4)" and "bit (0x08 :: byte) n = (n = 3)"
    and "bit (0x07 :: byte) n = (n = 0 \<or> n = 1 \<or> n = 2)" and "bit (0x20 :: byte) n = (n = 5)"
  using less_8_cases [OF assms] by (elim disjE; simp)+

lemma registers_distinct [simp]:
  "PCF85063A_CTRL2 \<noteq> PCF85063A_TIMER_VALUE" "PCF85063A_CTRL2 \<noteq> PCF85063A_TIMER_MODE"
  "PCF85063A_TIMER_VALUE \<noteq> PCF85063A_TIMER_MODE" "PCF85063A_CTRL1 \<noteq> PCF85063A_CTRL2"
  "PCF85063A_TIMER_VALUE \<noteq> PCF85063A_CTRL2" "PCF85063A_TIMER_MODE \<noteq> PCF85063A_CTRL2"
  "PCF85063A_TIMER_MODE \<noteq> PCF85063A_TIMER_VALUE"
  by (simp_all add: register_defs)

lemma set_alarm_regs:
  assumes "i2c_laws I regs" and "pcf85063a_set_alarm I ticks d = (0, d')"
  shows "regs d' = (regs d)(PCF85063A_CTRL2 := masked PCF85063A_CTRL2_TF 0 (regs d PCF85063A_CTRL2),
    PCF85063A_TIMER_VALUE := ucast ticks,
    PCF85063A_TIMER_MODE := masked 0x1e 0x16 (regs d PCF85063A_TIMER_MODE))"
  using assms(2)
  by (auto simp: pcf85063a_set_alarm_def Let_def bit_defs fun_upd_twist
      dest!: update_ok [OF assms(1)] write_ok [OF assms(1)] split: prod.splits if_splits)

lemma cancel_alarm_regs:
  assumes "i2c_laws I regs" and "pcf85063a_cancel_alarm I d = (0, d')"
  shows "regs d' = (regs d)(PCF85063A_CTRL2 := masked PCF85063A_CTRL2_TF 0 (regs d PCF85063A_CTRL2),
    PCF85063A_TIMER_MODE := masked 0x07 0 (regs d PCF85063A_TIMER_MODE))"
  using assms(2)
  by (auto simp: pcf85063a_cancel_alarm_def Let_def bit_defs
      dest!: update_ok [OF assms(1)] split: prod.splits if_splits)

lemma pending_masked: "masked PCF85063A_CTRL2_TF 0 x AND PCF85063A_CTRL2_TF = 0"
  by (rule bit_word_eqI) (simp add: masked_def bit_simps)

lemma TF_bit: "x AND PCF85063A_CTRL2_TF \<noteq> 0 \<longleftrightarrow> bit x 3" for x :: byte
  using and_exp_eq_0_iff_not_bit [of x 3] by (simp add: PCF85063A_CTRL2_TF_def)

section \<open>Properties\<close>

text \<open>
  C39. A successful \<open>set_alarm\<close> arms the timer: it holds the low byte of the ticks, counts at 1 Hz, is
  enabled and raises an interrupt, the old flag is cleared, and no other bit of the chip
  changes.
\<close>

theorem set_alarm_arms_timer:
  assumes "i2c_laws I regs" and "pcf85063a_set_alarm I ticks d = (0, d')"
  shows "regs d' PCF85063A_TIMER_VALUE = ucast ticks \<and>
    (\<forall>n < 8. bit (regs d' PCF85063A_TIMER_MODE) n =
       (n = 1 \<or> n = 2 \<or> n = 4 \<or> n \<noteq> 3 \<and> bit (regs d PCF85063A_TIMER_MODE) n)) \<and>
    (\<forall>n < 8. bit (regs d' PCF85063A_CTRL2) n = (n \<noteq> 3 \<and> bit (regs d PCF85063A_CTRL2) n)) \<and>
    (\<forall>r. r \<notin> {PCF85063A_CTRL2, PCF85063A_TIMER_VALUE, PCF85063A_TIMER_MODE} \<longrightarrow> regs d' r = regs d r)"
proof -
  show ?thesis
    unfolding set_alarm_regs [OF assms] by (auto simp: bit_masked bit_constants PCF85063A_CTRL2_TF_def simp del: bit_numeral_word_iff)
qed

text \<open>
  When setting the alarm fails, the error of the bus is returned and the step that failed is
  the last: while the flag or the timer value could not be written, the timer mode is as it was,
  so no alarm starts with a wrong value.
\<close>

theorem set_alarm_failure:
  assumes "i2c_laws I regs" and "pcf85063a_set_alarm I ticks d = (err, d')"
    and "fst (i2c_reg_update_byte I PCF85063A_CTRL2 PCF85063A_CTRL2_TF 0 d) \<noteq> 0 \<or>
      fst (i2c_reg_write_byte I PCF85063A_TIMER_VALUE (ucast ticks)
        (snd (i2c_reg_update_byte I PCF85063A_CTRL2 PCF85063A_CTRL2_TF 0 d))) \<noteq> 0"
  shows "err \<noteq> 0 \<and> regs d' PCF85063A_TIMER_MODE = regs d PCF85063A_TIMER_MODE"
proof -
  obtain e1 d1 where 1: "i2c_reg_update_byte I PCF85063A_CTRL2 PCF85063A_CTRL2_TF 0 d = (e1, d1)" by force
  obtain e2 d2 where 2: "i2c_reg_write_byte I PCF85063A_TIMER_VALUE (ucast ticks) d1 = (e2, d2)" by force
  have "regs d1 PCF85063A_TIMER_MODE = regs d PCF85063A_TIMER_MODE"
    "regs d2 PCF85063A_TIMER_MODE = regs d1 PCF85063A_TIMER_MODE"
    using update_fail [OF assms(1) 1] write_fail [OF assms(1) 2] by simp_all
  then show ?thesis using assms(2,3) 1 2 by (auto simp: pcf85063a_set_alarm_def Let_def split: if_splits)
qed

text \<open>
  Setting an alarm and cancelling it leaves nothing pending: the flag is reported as 0, the
  timer and its interrupt are off, and everything else in the chip is as after the alarm was set.
\<close>

theorem cancel_undoes_alarm:
  assumes "i2c_laws I regs" and "pcf85063a_set_alarm I ticks d = (0, d1)"
    and "pcf85063a_cancel_alarm I d1 = (0, d2)"
    and "fst (fst (i2c_reg_read_byte I PCF85063A_CTRL2 d2)) = 0"
  shows "fst (pcf85063a_get_pending_int I d2) = 0 \<and>
    \<not> bit (regs d2 PCF85063A_TIMER_MODE) 1 \<and> \<not> bit (regs d2 PCF85063A_TIMER_MODE) 2 \<and>
    (\<forall>r. r \<noteq> PCF85063A_TIMER_MODE \<longrightarrow> regs d2 r = regs d1 r)"
proof -
  note r2 = cancel_alarm_regs [OF assms(1,3)] and r1 = set_alarm_regs [OF assms(1,2)]
  have flag: "masked PCF85063A_CTRL2_TF 0 (masked PCF85063A_CTRL2_TF 0 x) = masked PCF85063A_CTRL2_TF 0 x" for x
    by (rule bit_word_eqI) (auto simp: bit_masked)
  obtain b d3 where read: "i2c_reg_read_byte I PCF85063A_CTRL2 d2 = ((0, b), d3)"
    using assms(4) by (metis prod.collapse)
  then have "b = regs d2 PCF85063A_CTRL2" using read_ok [OF assms(1)] by blast
  then have "fst (pcf85063a_get_pending_int I d2) = 0"
    using read by (simp add: pcf85063a_get_pending_int_def r2 pending_masked)
  then show ?thesis unfolding r2 by (simp add: r1 flag bit_masked bit_constants del: bit_numeral_word_iff)
qed

text \<open>
  Stopping and starting the clock clears and sets only the STOP bit: after both, every register is
  as before except that STOP is cleared.
\<close>

theorem stop_start_roundtrip:
  assumes "i2c_laws I regs" and "pcf85063a_stop I d = (0, d1)" and "pcf85063a_start I d1 = (0, d2)"
  shows "bit (regs d1 PCF85063A_CTRL1) 5 \<and>
    regs d2 = (regs d)(PCF85063A_CTRL1 := regs d PCF85063A_CTRL1 AND NOT PCF85063A_CTRL1_STOP)"
proof -
  have 1: "regs d1 = (regs d)(PCF85063A_CTRL1 :=
      masked PCF85063A_CTRL1_STOP PCF85063A_CTRL1_STOP (regs d PCF85063A_CTRL1))"
    using assms(2) by (auto simp: pcf85063a_stop_def dest!: update_ok [OF assms(1)] split: prod.splits if_splits)
  have 2: "regs d2 = (regs d1)(PCF85063A_CTRL1 := masked PCF85063A_CTRL1_STOP 0 (regs d1 PCF85063A_CTRL1))"
    using assms(3) by (auto simp: pcf85063a_start_def dest!: update_ok [OF assms(1)] split: prod.splits if_splits)
  have "masked PCF85063A_CTRL1_STOP 0 (masked PCF85063A_CTRL1_STOP PCF85063A_CTRL1_STOP x) =
      x AND NOT PCF85063A_CTRL1_STOP" for x
    by (rule bit_word_eqI) (auto simp: bit_masked bit_simps)
  then show ?thesis using 1 2 by (simp add: bit_masked bit_constants PCF85063A_CTRL1_STOP_def del: bit_numeral_word_iff)
qed


section \<open>The properties at work\<close>

text \<open>A chip that answers, and one on a bus where every write of the timer value fails.\<close>

definition example_i2c :: "(byte \<Rightarrow> byte) i2c" where
  "example_i2c = \<lparr>
     i2c_reg_update_byte = (\<lambda>r m v d. (0, d(r := masked m v (d r)))),
     i2c_reg_write_byte = (\<lambda>r v d. (0, d(r := v))),
     i2c_reg_read_byte = (\<lambda>r d. ((0, d r), d))\<rparr>"

definition broken_i2c :: "(byte \<Rightarrow> byte) i2c" where
  "broken_i2c = example_i2c\<lparr>i2c_reg_write_byte := (\<lambda>r v d. (- EIO, d)),
     i2c_reg_read_byte := (\<lambda>r d. ((- EIO, 0), d))\<rparr>"

lemma example_i2c_laws: "i2c_laws example_i2c (\<lambda>d. d)" and broken_i2c_laws: "i2c_laws broken_i2c (\<lambda>d. d)"
  by (simp_all add: i2c_laws_def example_i2c_def broken_i2c_def)

theorem set_alarm_arms_timer_witness:
  "\<exists>d'. pcf85063a_set_alarm example_i2c 60 (\<lambda>r. 0xff) = (0, d') \<and> d' PCF85063A_TIMER_VALUE = 60 \<and>
     bit (d' PCF85063A_TIMER_MODE) 1 \<and> bit (d' PCF85063A_TIMER_MODE) 2"
proof -
  obtain d' where d': "pcf85063a_set_alarm example_i2c 60 (\<lambda>r. 0xff) = (0, d')"
    by (simp add: pcf85063a_set_alarm_def example_i2c_def)
  from set_alarm_arms_timer [OF example_i2c_laws d'] d' show ?thesis by auto
qed

theorem set_alarm_failure_witness:
  "\<exists>err d'. pcf85063a_set_alarm broken_i2c 60 (\<lambda>r. 0xff) = (err, d') \<and> err \<noteq> 0 \<and>
     d' PCF85063A_TIMER_MODE = 0xff"
proof -
  obtain err d' where d': "pcf85063a_set_alarm broken_i2c 60 (\<lambda>r. 0xff) = (err, d')" by force
  from set_alarm_failure [OF broken_i2c_laws d'] d' show ?thesis
    by (auto simp: broken_i2c_def example_i2c_def)
qed

theorem cancel_undoes_alarm_witness:
  "\<exists>d1 d2. pcf85063a_set_alarm example_i2c 60 (\<lambda>r. 0xff) = (0, d1) \<and>
     pcf85063a_cancel_alarm example_i2c d1 = (0, d2) \<and> fst (pcf85063a_get_pending_int example_i2c d2) = 0"
proof -
  obtain d1 where d1: "pcf85063a_set_alarm example_i2c 60 (\<lambda>r. 0xff) = (0, d1)"
    by (simp add: pcf85063a_set_alarm_def example_i2c_def)
  obtain d2 where d2: "pcf85063a_cancel_alarm example_i2c d1 = (0, d2)"
    by (simp add: pcf85063a_cancel_alarm_def example_i2c_def)
  have "fst (fst (i2c_reg_read_byte example_i2c PCF85063A_CTRL2 d2)) = 0" by (simp add: example_i2c_def)
  from cancel_undoes_alarm [OF example_i2c_laws d1 d2 this] d1 d2 show ?thesis by blast
qed

theorem stop_start_roundtrip_witness:
  "\<exists>d1 d2. pcf85063a_stop example_i2c (\<lambda>r. 0x58) = (0, d1) \<and> pcf85063a_start example_i2c d1 = (0, d2) \<and>
     bit (d1 PCF85063A_CTRL1) 5 \<and> d2 = (\<lambda>r. 0x58)"
proof -
  obtain d1 where d1: "pcf85063a_stop example_i2c (\<lambda>r. 0x58) = (0, d1)"
    by (simp add: pcf85063a_stop_def example_i2c_def)
  obtain d2 where d2: "pcf85063a_start example_i2c d1 = (0, d2)"
    by (simp add: pcf85063a_start_def example_i2c_def)
  have "(0x58 :: byte) AND NOT PCF85063A_CTRL1_STOP = 0x58" by (simp add: PCF85063A_CTRL1_STOP_def)
  with stop_start_roundtrip [OF example_i2c_laws d1 d2] d1 d2 show ?thesis by (auto simp: fun_eq_iff)
qed


end
