(* ===== verification/Cloud_Codec.thy ===== *)
theory Cloud_Codec
  imports Ota_Version
begin

text \<open>
  The messages exchanged with the cloud, \<open>subsys/pyrinas_cloud/pyrinas_cloud_codec.c\<close>. The CBOR
  library (QCBOR) is outside the repository: an encoding is the list of the calls made to the
  encoder, and the decoder is a record of its operations, whose documented behaviour is
  stated over the message that a decoding context is reading.
\<close>

section \<open>Encoding\<close>

datatype ota_cmd_type = ota_cmd_type_check | ota_cmd_type_done

fun ota_cmd_number :: "ota_cmd_type \<Rightarrow> nat" where
  "ota_cmd_number ota_cmd_type_check = 0"
| "ota_cmd_number ota_cmd_type_done = 1"

datatype telemetry_type = tel_type_version | tel_type_rsrp | tel_type_rssi_central | tel_type_rssi_peripheral

fun tel_number :: "telemetry_type \<Rightarrow> nat" where
  "tel_number tel_type_version = 0"
| "tel_number tel_type_rsrp = 1"
| "tel_number tel_type_rssi_central = 2"
| "tel_number tel_type_rssi_peripheral = 3"

text \<open>\<open>tel_version\<close> is the text in the array \<open>version\<close>; the two RSSI values are \<open>int8_t\<close>.\<close>

record telemetry_data =
  has_version :: bool
  tel_version :: string
  has_rsrp :: bool
  tel_rsrp :: byte
  has_central_rssi :: bool
  central_rssi :: byte
  has_peripheral_rssi :: bool
  peripheral_rssi :: byte

datatype enc_op =
  Open_map | Close_map | Add_uint nat nat | Add_int nat int | Add_string nat string

text \<open>
  \<open>QCBOREncode_FinishGetSize\<close> on a buffer of the given size: the error (0 for none) and the bytes
  encoded. The size is written only when there is no error.
\<close>

type_synonym encoder = "enc_op list \<Rightarrow> nat \<Rightarrow> nat \<times> byte list"

definition encode_ota_request :: "encoder \<Rightarrow> ota_cmd_type \<Rightarrow> nat \<Rightarrow> nat \<times> byte list" where
  "encode_ota_request enc cmd_type data_len =
     enc [Open_map, Add_uint 0 (ota_cmd_number cmd_type), Close_map] data_len"

definition telemetry_ops :: "telemetry_data \<Rightarrow> enc_op list" where
  "telemetry_ops d =
     [Open_map] @
     (if has_version d then [Add_string (tel_number tel_type_version) (tel_version d)] else []) @
     (if has_rsrp d then [Add_uint (tel_number tel_type_rsrp) (unat (tel_rsrp d))] else []) @
     (if has_central_rssi d then [Add_int (tel_number tel_type_rssi_central) (sint (central_rssi d))] else []) @
     (if has_peripheral_rssi d
      then [Add_int (tel_number tel_type_rssi_peripheral) (sint (peripheral_rssi d))] else []) @
     [Close_map]"

definition encode_telemetry_data :: "encoder \<Rightarrow> telemetry_data \<Rightarrow> nat \<Rightarrow> nat \<times> byte list" where
  "encode_telemetry_data enc d data_len = enc (telemetry_ops d) data_len"

section \<open>Decoding\<close>

definition version_pos :: nat where "version_pos = 0"
definition host_pos :: nat where "host_pos = 1"
definition file_pos :: nat where "file_pos = 2"
definition force_pos :: nat where "force_pos = 3"

definition major_pos :: nat where "major_pos = 0"
definition minor_pos :: nat where "minor_pos = 1"
definition patch_pos :: nat where "patch_pos = 2"
definition commit_pos :: nat where "commit_pos = 3"
definition hash_pos :: nat where "hash_pos = 4"

text \<open>The arrays \<open>host\<close> and \<open>file\<close> have 128 bytes each.\<close>

record ota_data =
  version :: ota_version
  host :: "byte list"
  "file" :: "byte list"
  force :: bool

definition ota_data_wf :: "ota_data \<Rightarrow> bool" where
  "ota_data_wf od \<longleftrightarrow> length (host od) = 128 \<and> length (file od) = 128 \<and> ver_wf (version od)"

text \<open>
  The operations of the decoder on a context. A value that the decoder does not write, because
  it is in an error state or the item is not there, is \<open>None\<close>.
\<close>

record 'dc decoder =
  EnterMap :: "'dc \<Rightarrow> 'dc"
  EnterMapFromMapN :: "nat \<Rightarrow> 'dc \<Rightarrow> 'dc"
  EnterArrayFromMapN :: "nat \<Rightarrow> 'dc \<Rightarrow> 'dc"
  ExitArray :: "'dc \<Rightarrow> 'dc"
  ExitMap :: "'dc \<Rightarrow> 'dc"
  GetUInt64InMapN :: "nat \<Rightarrow> 'dc \<Rightarrow> 64 word option \<times> 'dc"
  GetUInt64 :: "'dc \<Rightarrow> 64 word option \<times> 'dc"
  GetTextStringInMapN :: "nat \<Rightarrow> 'dc \<Rightarrow> byte list option \<times> 'dc"
  GetBoolInMapN :: "nat \<Rightarrow> 'dc \<Rightarrow> bool option \<times> 'dc"
  GetError :: "'dc \<Rightarrow> nat"
  Finish :: "'dc \<Rightarrow> nat"

text \<open>Reading into the variable \<open>temp\<close>, which keeps its content when nothing is written to it.\<close>

definition read_temp :: "('dc \<Rightarrow> 64 word option \<times> 'dc) \<Rightarrow> 64 word \<Rightarrow> 'dc \<Rightarrow> 64 word \<times> 'dc" where
  "read_temp get temp dc = (let (x, dc) = get dc in (case x of None \<Rightarrow> temp | Some y \<Rightarrow> y, dc))"

fun hash_loop ::
    "'dc decoder \<Rightarrow> nat list \<Rightarrow> 64 word \<Rightarrow> byte list \<Rightarrow> 'dc \<Rightarrow> byte list \<times> 'dc" where
  "hash_loop D [] temp h dc = (h, dc)"
| "hash_loop D (i # is) temp h dc =
     (let (temp, dc) = read_temp (GetUInt64 D) temp dc
      in hash_loop D is temp (h[i := ucast temp]) dc)"

text \<open>\<open>temp\<close> is the content of the variable before anything is read.\<close>

definition decode_ota_version ::
    "'dc decoder \<Rightarrow> 64 word \<Rightarrow> nat \<Rightarrow> ota_version \<Rightarrow> 'dc \<Rightarrow> ota_version \<times> 'dc" where
  "decode_ota_version D temp label v dc =
     (let dc = EnterMapFromMapN D label dc;
          (temp, dc) = read_temp (GetUInt64InMapN D major_pos) temp dc;
          v = v\<lparr>major := ucast temp\<rparr>;
          (temp, dc) = read_temp (GetUInt64InMapN D minor_pos) temp dc;
          v = v\<lparr>minor := ucast temp\<rparr>;
          (temp, dc) = read_temp (GetUInt64InMapN D patch_pos) temp dc;
          v = v\<lparr>patch := ucast temp\<rparr>;
          (temp, dc) = read_temp (GetUInt64InMapN D commit_pos) temp dc;
          v = v\<lparr>commit := ucast temp\<rparr>;
          dc = EnterArrayFromMapN D hash_pos dc;
          (h, dc) = hash_loop D [0..<length (hash v)] temp (hash v) dc;
          v = v\<lparr>hash := h\<rparr>;
          dc = ExitArray D dc;
          dc = ExitMap D dc
      in (v, dc))"

text \<open>
  The text of a field is copied before the error is looked at: with no text, the pointer and
  the length that are used were never written, and a text longer than the array overruns it:
  both are \<open>None\<close>.
\<close>

definition decode_ota_data :: "'dc decoder \<Rightarrow> 64 word \<Rightarrow> ota_data \<Rightarrow> 'dc \<Rightarrow> (nat \<times> ota_data) option" where
  "decode_ota_data D temp od dc =
     (let dc = EnterMap D dc in
      if GetError D dc \<noteq> 0 then Some (Finish D dc, od)
      else
        let (v, dc) = decode_ota_version D temp version_pos (version od) dc;
            od = od\<lparr>version := v\<rparr>
        in if GetError D dc \<noteq> 0 then Some (Finish D dc, od)
        else
          let (host_data, dc) = GetTextStringInMapN D host_pos dc in
          case Option.bind host_data (memcpy_at (host od) 0) of
            None \<Rightarrow> None
          | Some h \<Rightarrow>
              let od = od\<lparr>host := h\<rparr> in
              if GetError D dc \<noteq> 0 then Some (Finish D dc, od)
              else
                let (file_data, dc) = GetTextStringInMapN D file_pos dc in
                case Option.bind file_data (memcpy_at (file od) 0) of
                  None \<Rightarrow> None
                | Some f \<Rightarrow>
                    let od = od\<lparr>file := f\<rparr> in
                    if GetError D dc \<noteq> 0 then Some (Finish D dc, od)
                    else
                      let (b, dc) = GetBoolInMapN D force_pos dc;
                          od = od\<lparr>force := (case b of None \<Rightarrow> force od | Some x \<Rightarrow> x)\<rparr>
                      in if GetError D dc \<noteq> 0 then Some (Finish D dc, od)
                         else Some (Finish D (ExitMap D dc), od))"

section \<open>What the decoder promises\<close>

text \<open>
  An OTA message as it is on the wire, and where a context is in it. A field may be missing.
\<close>

record ota_msg =
  msg_numbers :: "64 word list"
  msg_hash :: "64 word list"
  msg_host :: "byte list option"
  msg_file :: "byte list option"
  msg_force :: "bool option"

datatype dec_pos = At_start | In_map | In_version | In_hash nat | At_end

text \<open>
  \<open>view dc\<close> is the message that the context is reading and the position in it, or \<open>None\<close> when the context is in an
  error state. An error is kept: all operations after it do nothing, and \<open>Finish\<close> returns it.
\<close>

definition decoder_laws :: "'dc decoder \<Rightarrow> ('dc \<Rightarrow> (ota_msg \<times> dec_pos) option) \<Rightarrow> bool" where
  "decoder_laws D view \<longleftrightarrow>
     (\<forall>dc. GetError D dc = 0 \<longleftrightarrow> view dc \<noteq> None) \<and>
     (\<forall>dc m. view dc = Some (m, At_start) \<longrightarrow> view (EnterMap D dc) = Some (m, In_map)) \<and>
     (\<forall>dc m. view dc = Some (m, In_map) \<longrightarrow> view (EnterMapFromMapN D version_pos dc) = Some (m, In_version)) \<and>
     (\<forall>dc m n. view dc = Some (m, In_version) \<longrightarrow> n < length (msg_numbers m) \<longrightarrow>
        fst (GetUInt64InMapN D n dc) = Some (msg_numbers m ! n) \<and>
        view (snd (GetUInt64InMapN D n dc)) = Some (m, In_version)) \<and>
     (\<forall>dc m. view dc = Some (m, In_version) \<longrightarrow> view (EnterArrayFromMapN D hash_pos dc) = Some (m, In_hash 0)) \<and>
     (\<forall>dc m n. view dc = Some (m, In_hash n) \<longrightarrow> n < length (msg_hash m) \<longrightarrow>
        fst (GetUInt64 D dc) = Some (msg_hash m ! n) \<and> view (snd (GetUInt64 D dc)) = Some (m, In_hash (Suc n))) \<and>
     (\<forall>dc m n. view dc = Some (m, In_hash n) \<longrightarrow> view (ExitArray D dc) = Some (m, In_version)) \<and>
     (\<forall>dc m. view dc = Some (m, In_version) \<longrightarrow> view (ExitMap D dc) = Some (m, In_map)) \<and>
     (\<forall>dc m. view dc = Some (m, In_map) \<longrightarrow>
        fst (GetTextStringInMapN D host_pos dc) = msg_host m \<and>
        view (snd (GetTextStringInMapN D host_pos dc)) = map_option (\<lambda>_. (m, In_map)) (msg_host m) \<and>
        fst (GetTextStringInMapN D file_pos dc) = msg_file m \<and>
        view (snd (GetTextStringInMapN D file_pos dc)) = map_option (\<lambda>_. (m, In_map)) (msg_file m) \<and>
        fst (GetBoolInMapN D force_pos dc) = msg_force m \<and>
        view (snd (GetBoolInMapN D force_pos dc)) = map_option (\<lambda>_. (m, In_map)) (msg_force m)) \<and>
     (\<forall>dc m. view dc = Some (m, In_map) \<longrightarrow> view (ExitMap D dc) = Some (m, At_end)) \<and>
     (\<forall>dc m. view dc = Some (m, At_end) \<longrightarrow> Finish D dc = 0) \<and>
     (\<forall>dc. view dc = None \<longrightarrow> Finish D dc \<noteq> 0)"

definition msg_wf :: "ota_msg \<Rightarrow> bool" where
  "msg_wf m \<longleftrightarrow> length (msg_numbers m) = 4 \<and> length (msg_hash m) = 8"

text \<open>The version that a message carries: every number reduced to a byte.\<close>

definition msg_version :: "ota_msg \<Rightarrow> ota_version" where
  "msg_version m = \<lparr>major = ucast (msg_numbers m ! 0), minor = ucast (msg_numbers m ! 1),
     patch = ucast (msg_numbers m ! 2), commit = ucast (msg_numbers m ! 3), hash = map ucast (msg_hash m)\<rparr>"

section \<open>Decoding a message\<close>

lemma decoderD:
  assumes "decoder_laws D view"
  shows "GetError D dc = 0 \<longleftrightarrow> view dc \<noteq> None"
    and "view dc = Some (m, At_start) \<Longrightarrow> view (EnterMap D dc) = Some (m, In_map)"
    and "view dc = Some (m, In_map) \<Longrightarrow> view (EnterMapFromMapN D version_pos dc) = Some (m, In_version)"
    and "view dc = Some (m, In_version) \<Longrightarrow> n < length (msg_numbers m) \<Longrightarrow>
      fst (GetUInt64InMapN D n dc) = Some (msg_numbers m ! n) \<and>
      view (snd (GetUInt64InMapN D n dc)) = Some (m, In_version)"
    and "view dc = Some (m, In_version) \<Longrightarrow> view (EnterArrayFromMapN D hash_pos dc) = Some (m, In_hash 0)"
    and "view dc = Some (m, In_hash n) \<Longrightarrow> n < length (msg_hash m) \<Longrightarrow>
      fst (GetUInt64 D dc) = Some (msg_hash m ! n) \<and> view (snd (GetUInt64 D dc)) = Some (m, In_hash (Suc n))"
    and "view dc = Some (m, In_hash n) \<Longrightarrow> view (ExitArray D dc) = Some (m, In_version)"
    and "view dc = Some (m, In_version) \<Longrightarrow> view (ExitMap D dc) = Some (m, In_map)"
  using assms by (simp_all add: decoder_laws_def)

lemma decoder_fieldsD:
  assumes "decoder_laws D view" and "view dc = Some (m, In_map)"
  shows "fst (GetTextStringInMapN D host_pos dc) = msg_host m"
    and "view (snd (GetTextStringInMapN D host_pos dc)) = map_option (\<lambda>_. (m, In_map)) (msg_host m)"
    and "fst (GetTextStringInMapN D file_pos dc) = msg_file m"
    and "view (snd (GetTextStringInMapN D file_pos dc)) = map_option (\<lambda>_. (m, In_map)) (msg_file m)"
    and "fst (GetBoolInMapN D force_pos dc) = msg_force m"
    and "view (snd (GetBoolInMapN D force_pos dc)) = map_option (\<lambda>_. (m, In_map)) (msg_force m)"
    and "view (ExitMap D dc) = Some (m, At_end)"
  using assms by (simp_all add: decoder_laws_def)

lemma decoder_finishD:
  assumes "decoder_laws D view"
  shows "view dc = Some (m, At_end) \<Longrightarrow> Finish D dc = 0" and "view dc = None \<Longrightarrow> Finish D dc \<noteq> 0"
  using assms by (simp_all add: decoder_laws_def)

lemma read_temp_number:
  assumes "decoder_laws D view" and "view dc = Some (m, In_version)" and "n < length (msg_numbers m)"
  shows "\<exists>dc'. read_temp (GetUInt64InMapN D n) temp dc = (msg_numbers m ! n, dc') \<and> view dc' = Some (m, In_version)"
  using decoderD(4) [OF assms] by (simp add: read_temp_def case_prod_beta)

lemma hash_loop_reads:
  assumes D: "decoder_laws D view"
  shows "view dc = Some (m, In_hash i) \<Longrightarrow> n \<le> length (msg_hash m) \<Longrightarrow> n \<le> length h \<Longrightarrow> i \<le> n \<Longrightarrow>
    take i h = map ucast (take i (msg_hash m)) \<Longrightarrow>
    \<exists>dc'. hash_loop D [i..<n] temp h dc = (map ucast (take n (msg_hash m)) @ drop n h, dc') \<and>
      view dc' = Some (m, In_hash n)"
proof (induction "n - i" arbitrary: i temp h dc)
  case 0
  then have "i = n" by simp
  then show ?case using 0 append_take_drop_id [of n h] by (intro exI [of _ dc]) simp
next
  case (Suc k)
  then have i: "i < n" by simp
  let ?h = "h[i := ucast (msg_hash m ! i)]"
  obtain dc1 where dc1: "read_temp (GetUInt64 D) temp dc = (msg_hash m ! i, dc1)" "view dc1 = Some (m, In_hash (Suc i))"
    using decoderD(6) [OF D Suc.prems(1)] i Suc.prems(2) by (simp add: read_temp_def case_prod_beta)
  have "take (Suc i) ?h = map ucast (take (Suc i) (msg_hash m))"
    using i Suc.prems by (simp add: take_Suc_conv_app_nth)
  then have "\<exists>dc'. hash_loop D [Suc i..<n] (msg_hash m ! i) ?h dc1 =
      (map ucast (take n (msg_hash m)) @ drop n ?h, dc') \<and> view dc' = Some (m, In_hash n)"
    using i Suc.prems Suc.hyps(2) dc1(2) by (intro Suc.hyps(1)) auto
  moreover have "[i..<n] = i # [Suc i..<n]" using i by (rule upt_conv_Cons)
  moreover have "drop n ?h = drop n h" using i by (simp add: drop_update_cancel)
  ultimately show ?case using dc1 by simp
qed

lemma decode_version_reads:
  assumes D: "decoder_laws D view" and dc: "view dc = Some (m, In_map)" and m: "msg_wf m" and v: "ver_wf v"
  shows "\<exists>dc'. decode_ota_version D temp version_pos v dc = (msg_version m, dc') \<and> view dc' = Some (m, In_map)"
proof -
  have n: "length (msg_numbers m) = 4" "length (msg_hash m) = 8" "length (hash v) = 8"
    using m v by (simp_all add: msg_wf_def ver_wf_def)
  define dc1 where "dc1 = EnterMapFromMapN D version_pos dc"
  have 1: "view dc1 = Some (m, In_version)" unfolding dc1_def by (rule decoderD(3) [OF D dc])
  obtain dc2 where 2: "read_temp (GetUInt64InMapN D major_pos) temp dc1 = (msg_numbers m ! 0, dc2)" "view dc2 = Some (m, In_version)"
    using read_temp_number [OF D 1, of 0 temp] n by (auto simp: major_pos_def)
  obtain dc3 where 3: "read_temp (GetUInt64InMapN D minor_pos) (msg_numbers m ! 0) dc2 = (msg_numbers m ! 1, dc3)" "view dc3 = Some (m, In_version)"
    using read_temp_number [OF D 2(2), of 1] n by (auto simp: minor_pos_def)
  obtain dc4 where 4: "read_temp (GetUInt64InMapN D patch_pos) (msg_numbers m ! 1) dc3 = (msg_numbers m ! 2, dc4)" "view dc4 = Some (m, In_version)"
    using read_temp_number [OF D 3(2), of 2] n by (auto simp: patch_pos_def)
  obtain dc5 where 5: "read_temp (GetUInt64InMapN D commit_pos) (msg_numbers m ! 2) dc4 = (msg_numbers m ! 3, dc5)" "view dc5 = Some (m, In_version)"
    using read_temp_number [OF D 4(2), of 3] n by (auto simp: commit_pos_def)
  define dc6 where "dc6 = EnterArrayFromMapN D hash_pos dc5"
  have 6: "view dc6 = Some (m, In_hash 0)" unfolding dc6_def by (rule decoderD(5) [OF D 5(2)])
  obtain dc7 where 7: "hash_loop D [0..<8] (msg_numbers m ! 3) (hash v) dc6 = (map ucast (msg_hash m), dc7)" "view dc7 = Some (m, In_hash 8)"
    using hash_loop_reads [OF D 6, of 8 "hash v"] n by auto
  have 8: "view (ExitMap D (ExitArray D dc7)) = Some (m, In_map)"
    by (rule decoderD(8) [OF D decoderD(7) [OF D 7(2)]])
  show ?thesis
    using 2(1) 3(1) 4(1) 5(1) 7(1) 8 n
    by (simp add: decode_ota_version_def Let_def msg_version_def flip: dc1_def dc6_def)
qed

lemma memcpy_at_0: "memcpy_at buf 0 x = (if length x \<le> length buf then Some (x @ drop (length x) buf) else None)"
  by (simp add: memcpy_at_def)

text \<open>What decoding does with a well-formed message, in every case.\<close>

lemma decode_cases:
  assumes D: "decoder_laws D view" and dc: "view dc = Some (m, At_start)" and m: "msg_wf m" and od: "ota_data_wf od"
  shows "decode_ota_data D temp od dc =
    (case msg_host m of None \<Rightarrow> None
     | Some h \<Rightarrow> if 128 < length h then None
       else case msg_file m of None \<Rightarrow> None
         | Some f \<Rightarrow> if 128 < length f then None
           else let od' = od\<lparr>version := msg_version m, host := h @ drop (length h) (host od),
                      file := f @ drop (length f) (file od)\<rparr>
                in case msg_force m of
                     None \<Rightarrow> Some (Finish D (snd (GetBoolInMapN D force_pos (snd (GetTextStringInMapN D file_pos
                       (snd (GetTextStringInMapN D host_pos (snd (decode_ota_version D temp version_pos (version od) (EnterMap D dc))))))))), od')
                   | Some b \<Rightarrow> Some (0, od'\<lparr>force := b\<rparr>))"
proof -
  have v: "ver_wf (version od)" "length (host od) = 128" "length (file od) = 128"
    using od by (simp_all add: ota_data_wf_def)
  define dc1 where "dc1 = EnterMap D dc"
  have 1: "view dc1 = Some (m, In_map)" unfolding dc1_def by (rule decoderD(2) [OF D dc])
  obtain dc2 where 2: "decode_ota_version D temp version_pos (version od) dc1 = (msg_version m, dc2)"
      "view dc2 = Some (m, In_map)"
    using decode_version_reads [OF D 1 m v(1)] by blast
  define dc3 where "dc3 = snd (GetTextStringInMapN D host_pos dc2)"
  have 3: "GetTextStringInMapN D host_pos dc2 = (msg_host m, dc3)" "msg_host m \<noteq> None \<Longrightarrow> view dc3 = Some (m, In_map)"
    using decoder_fieldsD(1,2) [OF D 2(2)] by (auto simp: dc3_def intro: prod_eqI)
  define dc4 where "dc4 = snd (GetTextStringInMapN D file_pos dc3)"
  have 4: "GetTextStringInMapN D file_pos dc3 = (msg_file m, dc4)" "msg_file m \<noteq> None \<Longrightarrow> view dc4 = Some (m, In_map)"
    if "msg_host m \<noteq> None"
    using decoder_fieldsD(3,4) [OF D 3(2) [OF that]] by (auto simp: dc4_def intro: prod_eqI)
  define dc5 where "dc5 = snd (GetBoolInMapN D force_pos dc4)"
  have 5: "GetBoolInMapN D force_pos dc4 = (msg_force m, dc5)" "view dc5 = map_option (\<lambda>_. (m, In_map)) (msg_force m)"
    if "msg_host m \<noteq> None" "msg_file m \<noteq> None"
    using decoder_fieldsD(5,6) [OF D 4(2) [OF that]] by (auto simp: dc5_def intro: prod_eqI)
  have 6: "Finish D (ExitMap D dc5) = 0" if "view dc5 = Some (m, In_map)"
    using decoder_finishD(1) [OF D decoder_fieldsD(7) [OF D that]] .
  show ?thesis
    using 1 2 3 4 5 6 v
    by (auto simp: decode_ota_data_def Let_def decoderD(1) [OF D] memcpy_at_0 simp flip: dc1_def
        split: option.split)
qed

text \<open>Without a text that is missing or too long, decoding is defined and keeps the sizes of the arrays.\<close>

lemma decode_defined:
  assumes "decoder_laws D view" and "view dc = Some (m, At_start)" and "msg_wf m" and "ota_data_wf od"
    and "msg_host m = Some h" and "length h \<le> 128" and "msg_file m = Some f" and "length f \<le> 128"
  shows "\<exists>err od'. decode_ota_data D temp od dc = Some (err, od') \<and> ota_data_wf od'"
  using decode_cases [OF assms(1-4), of temp] assms(3-)
  by (cases "msg_force m") (auto simp: Let_def ota_data_wf_def msg_wf_def msg_version_def ver_wf_def)

text \<open>
  C18. Decoding a complete OTA message gives exactly its content: the version (every number
  modulo 256), the host and the file at the start of their arrays, the force flag, and no error,
  provided the texts fit the arrays.
\<close>

theorem ota_message_decoded:
  assumes "decoder_laws D view" and "view dc = Some (m, At_start)" and "msg_wf m" and "ota_data_wf od"
    and "msg_host m = Some h" and "msg_file m = Some f" and "msg_force m = Some b"
    and "length h \<le> 128" and "length f \<le> 128"
  shows "\<exists>od'. decode_ota_data D temp od dc = Some (0, od') \<and> version od' = msg_version m \<and>
    take (length h) (host od') = h \<and> take (length f) (file od') = f \<and> force od' = b \<and> ota_data_wf od'"
  using decode_cases [OF assms(1-4), of temp] assms(3-)
  by (auto simp: Let_def ota_data_wf_def msg_wf_def msg_version_def ver_wf_def)

text \<open>
  C37. The code is safe only if both texts are there and fit: an OTA message without a host or a file
  makes it copy from a pointer that was never set, and a text of more than 128 bytes makes it write
  past the array.
\<close>

theorem ota_message_unsafe:
  assumes "decoder_laws D view" and "view dc = Some (m, At_start)" and "msg_wf m" and "ota_data_wf od"
  shows "decode_ota_data D temp od dc = None \<longleftrightarrow>
    (case msg_host m of None \<Rightarrow> True | Some h \<Rightarrow> 128 < length h \<or>
      (case msg_file m of None \<Rightarrow> True | Some f \<Rightarrow> 128 < length f))"
  unfolding decode_cases [OF assms] by (auto simp: Let_def split: option.split)

text \<open>
  The texts are copied without a NUL: as a C string the decoded host is the host of the
  message followed by what the array held after that position, so after a longer host it is
  the wrong one. It is the host of the message exactly if the array held a NUL there.
\<close>

theorem decoded_host_has_stale_tail:
  assumes "decoder_laws D view" and "view dc = Some (m, At_start)" and "msg_wf m" and "ota_data_wf od"
    and "decode_ota_data D temp od dc = Some (0, od')" and "msg_host m = Some h" and "0 \<notin> set h"
    and "length h < 128"
  shows "c_string (host od') = h @ c_string (drop (length h) (host od)) \<and>
    (c_string (host od') = h \<longleftrightarrow> host od ! length h = 0)"
proof -
  have "host od' = h @ drop (length h) (host od)"
    using decode_cases [OF assms(1-4), of temp] assms(5,6,8)
    by (auto simp: Let_def split: option.splits if_splits)
  moreover have "drop (length h) (host od) = host od ! length h # drop (Suc (length h)) (host od)"
    using assms(4,8) by (simp add: ota_data_wf_def Cons_nth_drop_Suc)
  ultimately show ?thesis
    using assms(7) by (auto simp: c_string_append) (auto simp: c_string_def split: if_splits)
qed

text \<open>
  A message without the force flag is refused with an error, but its version, host and file have
  by then replaced those of the update that is under way.
\<close>

theorem refused_message_overwrites:
  assumes "decoder_laws D view" and "view dc = Some (m, At_start)" and "msg_wf m" and "ota_data_wf od"
    and "msg_host m = Some h" and "msg_file m = Some f" and "msg_force m = None"
    and "length h \<le> 128" and "length f \<le> 128"
  shows "\<exists>err od'. decode_ota_data D temp od dc = Some (err, od') \<and> err \<noteq> 0 \<and>
    version od' = msg_version m \<and> take (length h) (host od') = h \<and> take (length f) (file od') = f"
proof -
  let ?v = "snd (decode_ota_version D temp version_pos (version od) (EnterMap D dc))"
  have "view ?v = Some (m, In_map)"
    using decode_version_reads [OF assms(1) decoderD(2) [OF assms(1,2)] assms(3), of "version od" temp] assms(4)
    by (auto simp: ota_data_wf_def)
  then have "view (snd (GetTextStringInMapN D host_pos ?v)) = Some (m, In_map)"
    using decoder_fieldsD(2) [OF assms(1)] assms(5) by auto
  then have "view (snd (GetTextStringInMapN D file_pos (snd (GetTextStringInMapN D host_pos ?v)))) = Some (m, In_map)"
    using decoder_fieldsD(4) [OF assms(1)] assms(6) by auto
  then have "view (snd (GetBoolInMapN D force_pos (snd (GetTextStringInMapN D file_pos
      (snd (GetTextStringInMapN D host_pos ?v)))))) = None"
    using decoder_fieldsD(6) [OF assms(1)] assms(7) by auto
  from decoder_finishD(2) [OF assms(1) this] show ?thesis
    using decode_cases [OF assms(1-4), of temp] assms(5-) by (auto simp: Let_def)
qed

section \<open>The properties at work\<close>

text \<open>A decoder for which the laws hold: its context is the message and the position.\<close>

fun dec_move :: "dec_pos \<Rightarrow> dec_pos \<Rightarrow> (ota_msg \<times> dec_pos) option \<Rightarrow> (ota_msg \<times> dec_pos) option" where
  "dec_move p p' (Some (m, x)) = (if x = p then Some (m, p') else None)"
| "dec_move p p' None = None"

fun dec_field :: "(ota_msg \<Rightarrow> 'a option) \<Rightarrow> (ota_msg \<times> dec_pos) option \<Rightarrow> 'a option \<times> (ota_msg \<times> dec_pos) option" where
  "dec_field f (Some (m, x)) = (f m, map_option (\<lambda>_. (m, x)) (f m))"
| "dec_field f None = (None, None)"

definition example_decoder :: "(ota_msg \<times> dec_pos) option decoder" where
  "example_decoder = \<lparr>
     EnterMap = dec_move At_start In_map,
     EnterMapFromMapN = (\<lambda>n. dec_move In_map In_version),
     EnterArrayFromMapN = (\<lambda>n. dec_move In_version (In_hash 0)),
     ExitArray = (\<lambda>dc. case dc of Some (m, In_hash n) \<Rightarrow> Some (m, In_version) | _ \<Rightarrow> None),
     ExitMap = (\<lambda>dc. case dc of Some (m, In_version) \<Rightarrow> Some (m, In_map) | Some (m, In_map) \<Rightarrow> Some (m, At_end) | _ \<Rightarrow> None),
     GetUInt64InMapN = (\<lambda>n. dec_field (\<lambda>m. if n < length (msg_numbers m) then Some (msg_numbers m ! n) else None)),
     GetUInt64 = (\<lambda>dc. case dc of
         Some (m, In_hash n) \<Rightarrow> if n < length (msg_hash m) then (Some (msg_hash m ! n), Some (m, In_hash (Suc n))) else (None, None)
       | _ \<Rightarrow> (None, None)),
     GetTextStringInMapN = (\<lambda>n. dec_field (if n = host_pos then msg_host else msg_file)),
     GetBoolInMapN = (\<lambda>n. dec_field msg_force),
     GetError = (\<lambda>dc. if dc = None then 1 else 0),
     Finish = (\<lambda>dc. case dc of Some (m, At_end) \<Rightarrow> 0 | _ \<Rightarrow> 1)\<rparr>"

lemma example_decoder_laws: "decoder_laws example_decoder (\<lambda>dc. dc)"
  by (simp add: decoder_laws_def example_decoder_def host_pos_def file_pos_def)

definition example_msg :: ota_msg where
  "example_msg = \<lparr>msg_numbers = [1, 2, 259, 4], msg_hash = [1, 2, 3, 4, 5, 6, 7, 8], msg_host = Some [97, 98],
     msg_file = Some [99], msg_force = Some True\<rparr>"

definition example_ota :: ota_data where
  "example_ota = \<lparr>version = \<lparr>major = 0, minor = 0, patch = 0, commit = 0, hash = replicate 8 0\<rparr>,
     host = replicate 128 0, file = replicate 128 0, force = False\<rparr>"

lemma example_wf: "msg_wf example_msg" "ota_data_wf example_ota"
  by (simp_all add: msg_wf_def example_msg_def ota_data_wf_def ver_wf_def example_ota_def)

theorem ota_message_decoded_witness:
  "\<exists>od'. decode_ota_data example_decoder 0 example_ota (Some (example_msg, At_start)) = Some (0, od') \<and>
     patch (version od') = 3 \<and> take 2 (host od') = [97, 98] \<and> force od'"
proof -
  have f: "msg_host example_msg = Some [97, 98]" "msg_file example_msg = Some [99]" "msg_force example_msg = Some True"
    by (simp_all add: example_msg_def)
  obtain od' where od': "decode_ota_data example_decoder 0 example_ota (Some (example_msg, At_start)) = Some (0, od')"
    "version od' = msg_version example_msg" "take (length [97 :: byte, 98]) (host od') = [97, 98]" "force od' = True"
    using ota_message_decoded [OF example_decoder_laws refl example_wf f, of 0] by auto
  moreover have "patch (msg_version example_msg) = 3" by (simp add: msg_version_def example_msg_def)
  ultimately show ?thesis by (auto simp: numeral_2_eq_2)
qed

theorem ota_message_unsafe_witness:
  "decode_ota_data example_decoder 0 example_ota (Some (example_msg\<lparr>msg_host := None\<rparr>, At_start)) = None \<and>
   decode_ota_data example_decoder 0 example_ota (Some (example_msg\<lparr>msg_host := Some (replicate 129 97)\<rparr>, At_start)) = None"
proof -
  let ?a = "example_msg\<lparr>msg_host := None\<rparr>" and ?b = "example_msg\<lparr>msg_host := Some (replicate 129 97)\<rparr>"
  have "msg_wf ?a" "msg_wf ?b" using example_wf(1) by (simp_all add: msg_wf_def)
  then show ?thesis
    using ota_message_unsafe [OF example_decoder_laws refl _ example_wf(2), of ?a 0]
      ota_message_unsafe [OF example_decoder_laws refl _ example_wf(2), of ?b 0] by simp
qed

text \<open>After an update from the host \<open>ab!!!\<close> a message for the host \<open>ab\<close> leads to \<open>ab!!!\<close>.\<close>

theorem decoded_host_has_stale_tail_witness:
  "\<exists>od'. decode_ota_data example_decoder 0 (example_ota\<lparr>host := [97, 98, 33, 33, 33] @ 0 # replicate 122 0\<rparr>)
       (Some (example_msg, At_start)) = Some (0, od') \<and> c_string (host od') = [97, 98, 33, 33, 33]"
proof -
  let ?od = "example_ota\<lparr>host := [97, 98, 33, 33, 33] @ 0 # replicate 122 0\<rparr>"
  have wf: "ota_data_wf ?od" using example_wf(2) by (simp add: ota_data_wf_def)
  have f: "msg_host example_msg = Some [97, 98]" "msg_file example_msg = Some [99]" "msg_force example_msg = Some True"
    by (simp_all add: example_msg_def)
  obtain od' where od': "decode_ota_data example_decoder 0 ?od (Some (example_msg, At_start)) = Some (0, od')"
    using decode_cases [OF example_decoder_laws refl example_wf(1) wf, of 0] f by (auto simp: Let_def)
  have "c_string (drop (length [97 :: byte, 98]) (host ?od)) = [33, 33, 33]"
    using c_string_append [of "[33, 33, 33]" "0 # replicate 122 0"] by simp
  with decoded_host_has_stale_tail [OF example_decoder_laws refl example_wf(1) wf od' f(1)] od'
  show ?thesis by auto
qed

theorem refused_message_overwrites_witness:
  "\<exists>err od'. decode_ota_data example_decoder 0 example_ota (Some (example_msg\<lparr>msg_force := None\<rparr>, At_start)) = Some (err, od') \<and>
     err \<noteq> 0 \<and> take 2 (host od') = [97, 98]"
proof -
  let ?m = "example_msg\<lparr>msg_force := None\<rparr>"
  have wf: "msg_wf ?m" using example_wf(1) by (simp add: msg_wf_def)
  have f: "msg_host ?m = Some [97, 98]" "msg_file ?m = Some [99]" "msg_force ?m = None"
    by (simp_all add: example_msg_def)
  from refused_message_overwrites [OF example_decoder_laws refl wf example_wf(2) f, of 0] show ?thesis
    by (auto simp: numeral_2_eq_2)
qed

end
