(* ===== verification/Cloud_State.thy ===== *)
theory Cloud_State
  imports Cloud_Codec
begin

text \<open>
  The state of \<open>subsys/pyrinas_cloud/pyrinas_cloud.c\<close>, what it needs from outside the repository,
  its topics, and the functions that publish, subscribe and read payloads.
\<close>

section \<open>The outside\<close>

datatype cloud_state = cloud_state_disconnected | cloud_state_connected

datatype ota_state =
  ota_state_ready | ota_state_started | ota_state_downloading | ota_state_done | ota_state_error
| ota_state_reboot | ota_state_rebooting

datatype work =
  publish_telemetry_work | ota_request_work | ota_done_work | on_connect_work
| ota_check_subscribed_work | fota_work | ota_reboot_work

text \<open>
  The calls into the MQTT client, the network, the modem, the download library, the kernel,
  the watchdog and the application. \<open>Submit_delayed w n\<close> runs the work \<open>w\<close> after \<open>n\<close> seconds.
\<close>

datatype cloud_call =
  Mqtt_client_init | Mqtt_connect | Mqtt_disconnect | Mqtt_abort | Mqtt_input | Mqtt_live
| Mqtt_publish "byte list" "byte list" "16 word" | Mqtt_subscribe "byte list" "16 word"
| Mqtt_unsubscribe "byte list" "16 word" | Mqtt_publish_qos1_ack "16 word" | Read_payload nat
| Getaddrinfo | Freeaddrinfo | Poll | At_cmd_write | Sys_rand32_get
| K_malloc | K_free nat | App_cb nat "byte list" nat "byte list"
| Ota_state_callback ota_state | Cloud_state_callback cloud_state
| Submit work | Submit_system work | Submit_delayed work nat | Timer_start nat | Timer_stop
| Fota_download_init | Fota_download_start "byte list" "byte list" int | Sys_reboot
| K_sem_give | K_sem_take nat | Wdt_get_binding | Wdt_install_timeout | Wdt_setup | Wdt_feed

text \<open>
  The configuration of \<open>subsys/pyrinas_cloud/Kconfig\<close> that the model uses, with its defaults.
\<close>

record config =
  OTA_SUB_TOPIC :: string
  OTA_PUB_TOPIC :: string
  TELEMETRY_PUB_TOPIC :: string
  APPLICATION_PUB_TOPIC :: string
  APPLICATION_SUB_TOPIC :: string
  PAYLOAD_BUFFER_SIZE :: nat
  CALLBACK_MAX_COUNT :: nat
  EVENT_NAME_MAX_SIZE :: nat
  HTTPS_SEC_TAG :: int
  SEC_TAG :: int
  PEER_VERIFY :: int
  MESSAGE_BUFFER_SIZE :: nat
  BROKER_HOSTNAME :: string
  BROKER_PORT :: nat

definition default_config :: config where
  "default_config = \<lparr>OTA_SUB_TOPIC = ''%.*s/ota/sub'', OTA_PUB_TOPIC = ''%.*s/ota/pub'',
     TELEMETRY_PUB_TOPIC = ''%.*s/tel/pub'', APPLICATION_PUB_TOPIC = ''%.*s/app/pub/%.*s'',
     APPLICATION_SUB_TOPIC = ''%.*s/app/sub/%.*s'', PAYLOAD_BUFFER_SIZE = 128, CALLBACK_MAX_COUNT = 10,
     EVENT_NAME_MAX_SIZE = 16, HTTPS_SEC_TAG = 42, SEC_TAG = 1234, PEER_VERIFY = 1,
     MESSAGE_BUFFER_SIZE = 128, BROKER_HOSTNAME = ''mqtt.yourhost.com'', BROKER_PORT = 8884\<rparr>"

definition IMEI_LEN :: nat where
  "IMEI_LEN = 15"

text \<open>The size of a string literal with its NUL.\<close>

definition sizeof_literal :: "string \<Rightarrow> nat" where
  "sizeof_literal fmt = length fmt + 1"

text \<open>
  A platform: the configuration, the environment of the calls, the CBOR library, the bytes of
  the modem's answer to \<open>AT+CGSN\<close>, the addresses that the resolver gives (their length and
  the IPv4 address in them), the version of the running firmware, the signal strength
  that \<open>cellular.c\<close> would return, and what local variables hold before they are written.
\<close>

record 'dc platform =
  cfg :: config
  env :: "cloud_call env"
  enc :: encoder
  dec :: "'dc decoder"
  Decode_Init :: "byte list \<Rightarrow> 'dc"
  cgsn :: "(cloud_call \<times> int) list \<Rightarrow> byte list"
  resolved :: "(cloud_call \<times> int) list \<Rightarrow> (nat \<times> 32 word) list"
  pyrinas_version :: ota_version
  signal_strength :: "(cloud_call \<times> int) list \<Rightarrow> byte"
  stack_telemetry :: "(cloud_call \<times> int) list \<Rightarrow> telemetry_data"
  stack_temp :: "64 word"

section \<open>State\<close>

text \<open>
  An entry of the callback table. \<open>cb_topic\<close> is the memory from the member \<open>topic\<close> on: the bytes
  copied there and what the allocated block held after them.
\<close>

record cb_entry =
  cb :: nat
  full_topic :: "byte list"
  cb_topic :: "byte list"
  topic_len :: nat

text \<open>
  \<open>broker\<close> is the address of the broker, \<open>None\<close> before one is written; \<open>client_s\<close> the members of the MQTT client that are
  set. \<open>callbacks\<close> holds addresses, \<open>None\<close> for NULL; \<open>heap\<close> the blocks that are allocated. Topics are the C strings
  in their arrays. \<open>ota_cb\<close> and \<open>state_cb\<close> say whether the two callbacks are set.
\<close>

record sockaddr_in =
  s_addr :: "32 word"
  sin_port :: nat

record mqtt_client =
  client_id :: "byte list"
  rx_buf_size :: nat
  tx_buf_size :: nat
  peer_verify :: int
  sec_tag_list :: "int list"
  hostname :: string

record cloud = "cloud_call world" +
  cloud_state_s :: cloud_state
  ota_state_s :: ota_state
  initial_ota_check :: bool
  wdt_started_s :: bool
  imei :: "byte list"
  ota_pub_topic :: "byte list"
  ota_sub_topic :: "byte list"
  telemetry_pub_topic :: "byte list"
  application_sub_topic :: "byte list"
  broker :: "sockaddr_in option"
  client_s :: "mqtt_client option"
  payload_buf :: "byte list"
  ota_data_s :: ota_data
  callbacks :: "nat option list"
  heap :: "nat \<Rightarrow> cb_entry option"
  ota_cb :: bool
  state_cb :: bool
  ota_sub_message_id :: "16 word"

text \<open>The two callbacks into the application, called when they are set.\<close>

definition notify_ota :: "cloud \<Rightarrow> cloud" where
  "notify_ota s = (if ota_cb s then emit (Ota_state_callback (ota_state_s s)) s else s)"

definition notify_cloud :: "cloud \<Rightarrow> cloud" where
  "notify_cloud s = (if state_cb s then emit (Cloud_state_callback (cloud_state_s s)) s else s)"

section \<open>Publishing and subscribing\<close>

definition data_publish ::
    "'dc platform \<Rightarrow> byte list \<Rightarrow> byte list \<Rightarrow> 16 word \<Rightarrow> cloud \<Rightarrow> int \<times> cloud" where
  "data_publish P topic data message_id s =
     (if cloud_state_s s \<noteq> cloud_state_connected then (- ENETDOWN, s)
      else ext (env P) (Mqtt_publish topic data message_id) s)"

text \<open>The random message number is drawn before the function that uses it is entered.\<close>

definition rand_id :: "'dc platform \<Rightarrow> cloud \<Rightarrow> 16 word \<times> cloud" where
  "rand_id P s = (let (r, s) = ext (env P) Sys_rand32_get s in (word_of_int r, s))"

definition unsubscribe :: "'dc platform \<Rightarrow> byte list \<Rightarrow> cloud \<Rightarrow> int \<times> cloud" where
  "unsubscribe P topic s = (let (i, s) = rand_id P s in ext (env P) (Mqtt_unsubscribe topic i) s)"

definition subscribe :: "'dc platform \<Rightarrow> byte list \<Rightarrow> 16 word \<Rightarrow> cloud \<Rightarrow> int \<times> cloud" where
  "subscribe P topic message_id s = ext (env P) (Mqtt_subscribe topic message_id) s"

text \<open>The bytes to publish: the size stays 0 when the encoder fails.\<close>

definition encoded :: "nat \<times> byte list \<Rightarrow> byte list" where
  "encoded r = (if fst r = 0 then snd r else [])"

definition publish_ota_request :: "'dc platform \<Rightarrow> ota_cmd_type \<Rightarrow> cloud \<Rightarrow> cloud" where
  "publish_ota_request P cmd s =
     (let payload = encoded (encode_ota_request (enc P) cmd 10);
          (i, s) = rand_id P s
      in snd (data_publish P (ota_pub_topic s) payload i s))"

definition publish_ota_check :: "'dc platform \<Rightarrow> cloud \<Rightarrow> cloud" where
  "publish_ota_check P s = publish_ota_request P ota_cmd_type_check s"

definition publish_ota_done :: "'dc platform \<Rightarrow> cloud \<Rightarrow> cloud" where
  "publish_ota_done P s = publish_ota_request P ota_cmd_type_done s"

text \<open>The telemetry of the hub: the members for the two RSSI values are never written.\<close>

definition hub_telemetry :: "'dc platform \<Rightarrow> bool \<Rightarrow> cloud \<Rightarrow> telemetry_data" where
  "hub_telemetry P with_version s =
     (let d = stack_telemetry P (calls s);
          rsrp = signal_strength P (calls s);
          d = (if rsrp \<le> 97 then d\<lparr>has_rsrp := True, tel_rsrp := rsrp\<rparr> else d\<lparr>has_rsrp := False\<rparr>);
          d = d\<lparr>has_version := with_version\<rparr>
      in if with_version then d\<lparr>tel_version := snd (get_version_string (pyrinas_version P) 24)\<rparr> else d)"

definition publish_telemetry :: "'dc platform \<Rightarrow> bool \<Rightarrow> cloud \<Rightarrow> cloud" where
  "publish_telemetry P with_version s =
     (let (err, payload) = encode_telemetry_data (enc P) (hub_telemetry P with_version s) 64 in
      if err \<noteq> 0 then s
      else
        let (i, s) = rand_id P s
        in snd (data_publish P (telemetry_pub_topic s) payload i s))"

text \<open>
  An event of the codec package, as far as it is used here. The telemetry of an event sets only the
  flags that are to be true.
\<close>

record pyrinas_event =
  ev_name :: "byte list"
  ev_data :: "byte list"
  peripheral_addr :: "byte list"
  ev_central_rssi :: int
  ev_peripheral_rssi :: int

definition event_telemetry :: "'dc platform \<Rightarrow> pyrinas_event \<Rightarrow> cloud \<Rightarrow> telemetry_data" where
  "event_telemetry P evt s =
     (let d = stack_telemetry P (calls s);
          d = (if ev_central_rssi evt < 0
               then d\<lparr>has_central_rssi := True, central_rssi := word_of_int (ev_central_rssi evt)\<rparr> else d)
      in if ev_peripheral_rssi evt < 0
         then d\<lparr>has_peripheral_rssi := True, peripheral_rssi := word_of_int (ev_peripheral_rssi evt)\<rparr> else d)"

text \<open>\<open>%02x\<close> of the six bytes of the address.\<close>

definition hex_digit :: "nat \<Rightarrow> byte" where
  "hex_digit n = (if n < 10 then word_of_nat (48 + n) else word_of_nat (87 + n))"

definition uid_of :: "byte list \<Rightarrow> byte list" where
  "uid_of addr = snprintf 14 (concat (map (\<lambda>b. [hex_digit (unat b div 16), hex_digit (unat b mod 16)]) addr))"

definition pyrinas_cloud_publish_telemetry_evt :: "'dc platform \<Rightarrow> pyrinas_event \<Rightarrow> cloud \<Rightarrow> int \<times> cloud" where
  "pyrinas_cloud_publish_telemetry_evt P evt s =
     (let (err, payload) = encode_telemetry_data (enc P) (event_telemetry P evt s) 64 in
      if err \<noteq> 0 then (int err, s)
      else
        let topic = snprintf 256 (render (TELEMETRY_PUB_TOPIC (cfg P)) [uid_of (peripheral_addr evt)]);
            (i, s) = rand_id P s
        in data_publish P topic payload i s)"

definition pyrinas_cloud_publish_evt :: "'dc platform \<Rightarrow> pyrinas_event \<Rightarrow> cloud \<Rightarrow> int \<times> cloud" where
  "pyrinas_cloud_publish_evt P evt s =
     (let topic = snprintf 256 (render (APPLICATION_PUB_TOPIC (cfg P))
            [uid_of (peripheral_addr evt), c_string (ev_name evt)]);
          (i, s) = rand_id P s;
          (err, s) = data_publish P topic (ev_data evt) i s
      in pyrinas_cloud_publish_telemetry_evt P evt s)"

definition pyrinas_cloud_publish :: "'dc platform \<Rightarrow> byte list \<Rightarrow> byte list \<Rightarrow> cloud \<Rightarrow> int \<times> cloud" where
  "pyrinas_cloud_publish P type data s =
     (let topic = snprintf 256 (render (APPLICATION_PUB_TOPIC (cfg P)) [prec IMEI_LEN (imei s), type]);
          (i, s) = rand_id P s
      in data_publish P topic data i s)"

section \<open>Reading a payload\<close>

text \<open>
  The loop that fills the buffer; \<open>data\<close> is the payload that the client delivers, \<open>buf\<close> how much of it
  has been read. \<open>None\<close> is a write past the buffer.
\<close>

function payload_loop ::
    "'dc platform \<Rightarrow> byte list \<Rightarrow> nat \<Rightarrow> nat \<Rightarrow> cloud \<Rightarrow> (int \<times> cloud) option" where
  "payload_loop P data end_off buf s =
     (if buf < end_off then
        let (ret, s) = ext (env P) (Read_payload (end_off - buf)) s in
        if ret < 0 then Some (ret, s)
        else if ret = 0 then Some (- EIO, s)
        else case memcpy_at (payload_buf s) buf (take (nat ret) (drop buf data)) of
            None \<Rightarrow> None
          | Some m \<Rightarrow> payload_loop P data end_off (buf + nat ret) (s\<lparr>payload_buf := m\<rparr>)
      else Some (0, s))"
  by pat_completeness auto
termination
  by (relation "measure (\<lambda>(P, data, end_off, buf, s). end_off - buf)") auto

declare payload_loop.simps [simp del]

definition publish_get_payload :: "'dc platform \<Rightarrow> byte list \<Rightarrow> nat \<Rightarrow> cloud \<Rightarrow> (int \<times> cloud) option" where
  "publish_get_payload P data len s =
     (if PAYLOAD_BUFFER_SIZE (cfg P) < len then Some (- EMSGSIZE, s)
      else payload_loop P data len 0 s)"

text \<open>Reading changes the buffer and the trace only.\<close>

lemma payload_loop_frame:
  "payload_loop P data end_off buf s = Some (r, s') \<Longrightarrow>
   \<exists>tr. s' = s\<lparr>payload_buf := payload_buf s', calls := calls s @ tr\<rparr> \<and>
     length (payload_buf s') = length (payload_buf s) \<and> (\<forall>c \<in> set tr. \<exists>n. fst c = Read_payload n)"
proof (induction "end_off - buf" arbitrary: buf s rule: less_induct)
  case less
  show ?case
  proof (cases "buf < end_off")
    case False
    then show ?thesis using less.prems by (intro exI [of _ "[]"]) (simp add: payload_loop.simps [of P])
  next
    case True
    define x where "x = env P (calls s) (Read_payload (end_off - buf))"
    define s1 where "s1 = s\<lparr>calls := calls s @ [(Read_payload (end_off - buf), x)]\<rparr>"
    have ext: "ext (env P) (Read_payload (end_off - buf)) s = (x, s1)" by (simp add: ext_def x_def s1_def)
    show ?thesis
    proof (cases "0 < x")
      case False
      then show ?thesis
        using True less.prems
        by (intro exI [of _ "[(Read_payload (end_off - buf), x)]"]) (auto simp: payload_loop.simps [of P] ext s1_def split: if_splits)
    next
      case pos: True
      then obtain m where m: "memcpy_at (payload_buf s) buf (take (nat x) (drop buf data)) = Some m"
          "payload_loop P data end_off (buf + nat x) (s1\<lparr>payload_buf := m\<rparr>) = Some (r, s')"
        using less.prems True by (auto simp: payload_loop.simps [of P data end_off buf] ext s1_def split: option.splits)
      have dec: "end_off - (buf + nat x) < end_off - buf" using True pos by simp
      obtain tr where tr: "s' = s1\<lparr>payload_buf := payload_buf s', calls := calls s1 @ tr\<rparr>"
          "length (payload_buf s') = length m" "\<forall>c \<in> set tr. \<exists>n. fst c = Read_payload n"
        using less.hyps [OF dec m(2)] by auto
      then show ?thesis
        using memcpy_at_length [OF m(1)]
        by (intro exI [of _ "(Read_payload (end_off - buf), x) # tr"]) (auto simp: s1_def)
    qed
  qed
qed

lemma publish_get_payload_frame:
  "publish_get_payload P data len s = Some (r, s') \<Longrightarrow>
   \<exists>tr. s' = s\<lparr>payload_buf := payload_buf s', calls := calls s @ tr\<rparr> \<and>
     length (payload_buf s') = length (payload_buf s) \<and> (\<forall>c \<in> set tr. \<exists>n. fst c = Read_payload n)"
  unfolding publish_get_payload_def
  by (auto split: if_splits dest: payload_loop_frame intro: exI [of _ "[]"])

text \<open>
  The client never delivers more than it was asked for. Then the buffer is not overrun, and the
  call succeeds exactly when the whole payload is in the buffer; every failure is a negative number.
\<close>

definition reads_ok :: "'dc platform \<Rightarrow> bool" where
  "reads_ok P \<longleftrightarrow> (\<forall>h n. env P h (Read_payload n) \<le> int n)"

lemma payload_loop_fills:
  assumes "reads_ok P" and "end_off \<le> length data"
  shows "end_off \<le> length (payload_buf s) \<Longrightarrow> buf \<le> end_off \<Longrightarrow> take buf (payload_buf s) = take buf data \<Longrightarrow>
    \<exists>r s'. payload_loop P data end_off buf s = Some (r, s') \<and> r \<le> 0 \<and>
      (r = 0 \<longrightarrow> take end_off (payload_buf s') = take end_off data)"
proof (induction "end_off - buf" arbitrary: buf s rule: less_induct)
  case less
  define r where "r = env P (calls s) (Read_payload (end_off - buf))"
  define s1 where "s1 = s\<lparr>calls := calls s @ [(Read_payload (end_off - buf), r)]\<rparr>"
  have ext: "ext (env P) (Read_payload (end_off - buf)) s = (r, s1)" by (simp add: ext_def r_def s1_def)
  have r: "r \<le> int (end_off - buf)" using assms(1) by (simp add: reads_ok_def r_def)
  consider "\<not> buf < end_off" | "buf < end_off" "r \<le> 0" | "buf < end_off" "0 < r" by linarith
  then show ?case
  proof cases
    case 1
    then show ?thesis using less.prems by (simp add: payload_loop.simps [of P])
  next
    case 2
    then show ?thesis by (simp add: payload_loop.simps [of P] ext)
  next
    case 3
    define d where "d = take (nat r) (drop buf data)"
    have d: "length d = nat r" "buf + nat r \<le> end_off" using r 3 assms(2) by (auto simp: d_def)
    define m where "m = take buf (payload_buf s) @ d @ drop (buf + nat r) (payload_buf s)"
    have m: "memcpy_at (payload_buf s) buf d = Some m"
      using d less.prems(1) by (simp add: memcpy_at_def m_def)
    have step: "payload_loop P data end_off buf s = payload_loop P data end_off (buf + nat r) (s1\<lparr>payload_buf := m\<rparr>)"
      using 3 m by (simp add: payload_loop.simps [of P data end_off buf] ext d_def) (simp add: s1_def)
    have "take (buf + nat r) m = take buf data @ d"
      using less.prems d assms(2) by (simp add: m_def flip: d(1))
    also have "\<dots> = take (buf + nat r) data" by (simp add: d_def take_add)
    finally show ?thesis unfolding step
      using less.hyps [of "buf + nat r" "s1\<lparr>payload_buf := m\<rparr>"] less.prems(1) d(2) memcpy_at_length [OF m] 3 by simp
  qed
qed

lemma payload_loop_reads:
  assumes "reads_ok P" and "end_off \<le> length data" and "end_off \<le> length (payload_buf s)" and "buf \<le> end_off"
    and "take buf (payload_buf s) = take buf data"
  shows "\<exists>r s' tr. payload_loop P data end_off buf s = Some (r, s') \<and> r \<le> 0 \<and>
      s' = s\<lparr>payload_buf := payload_buf s', calls := calls s @ tr\<rparr> \<and>
      length (payload_buf s') = length (payload_buf s) \<and> (\<forall>c \<in> set tr. \<exists>n. fst c = Read_payload n) \<and>
      (r = 0 \<longrightarrow> take end_off (payload_buf s') = take end_off data)"
proof -
  obtain r s' where s': "payload_loop P data end_off buf s = Some (r, s')" "r \<le> 0" "r = 0 \<longrightarrow> take end_off (payload_buf s') = take end_off data"
    using payload_loop_fills [OF assms] by blast
  from payload_loop_frame [OF s'(1)] show ?thesis
    by (elim exE) (intro exI [of _ r] exI [of _ s'] exI conjI s'; elim conjE)
qed

lemma payload_read:
  assumes "reads_ok P" and "length (payload_buf s) = PAYLOAD_BUFFER_SIZE (cfg P)" and "len \<le> length data"
  shows "\<exists>r s'. publish_get_payload P data len s = Some (r, s') \<and> r \<le> 0 \<and>
    length (payload_buf s') = length (payload_buf s) \<and>
    (r = 0 \<longrightarrow> take len (payload_buf s') = take len data) \<and>
    (PAYLOAD_BUFFER_SIZE (cfg P) < len \<longrightarrow> r = - EMSGSIZE \<and> s' = s)"
  using payload_loop_reads [OF assms(1,3), of s 0] assms(2) by (auto simp: publish_get_payload_def)

text \<open>
  C27. Reading the payload of a message always ends, within the buffer. It gives the error for a
  message that does not fit and touches nothing, or a negative error, or 0, and then the buffer starts
  with exactly the payload.
\<close>

theorem payload_is_read:
  assumes "reads_ok P" and "length (payload_buf s) = PAYLOAD_BUFFER_SIZE (cfg P)" and "len \<le> length data"
  shows "\<exists>r s'. publish_get_payload P data len s = Some (r, s') \<and> r \<le> 0 \<and>
    length (payload_buf s') = length (payload_buf s) \<and>
    (r = 0 \<longrightarrow> take len (payload_buf s') = take len data) \<and>
    (PAYLOAD_BUFFER_SIZE (cfg P) < len \<longrightarrow> r = - EMSGSIZE \<and> s' = s)"
  by (rule payload_read [OF assms])

section \<open>An example\<close>

text \<open>
  The platform and the state that the witnesses of the cloud theories start from: the default configuration, calls
  that succeed with 0, a heap block at 1000, the decoder of \<open>Cloud_Codec\<close> reading its example message, and a
  device that has set up its topics.
\<close>

definition example_platform :: "(ota_msg \<times> dec_pos) option platform" where
  "example_platform = \<lparr>cfg = default_config, env = (\<lambda>h c. if c = K_malloc then 1000 else 0),
     enc = (\<lambda>ops n. (0, [1])), dec = example_decoder, Decode_Init = (\<lambda>d. Some (example_msg, At_start)),
     cgsn = (\<lambda>h. replicate 19 49), resolved = (\<lambda>h. [(8, 1)]),
     pyrinas_version = \<lparr>major = 1, minor = 0, patch = 0, commit = 0, hash = replicate 8 0\<rparr>,
     signal_strength = (\<lambda>h. 50),
     stack_telemetry = (\<lambda>h. \<lparr>has_version = False, tel_version = [], has_rsrp = False, tel_rsrp = 0,
        has_central_rssi = False, central_rssi = 0, has_peripheral_rssi = False, peripheral_rssi = 0\<rparr>),
     stack_temp = 0\<rparr>"

definition example_cloud :: cloud where
  "example_cloud = \<lparr>calls = [], cloud_state_s = cloud_state_disconnected, ota_state_s = ota_state_ready,
     initial_ota_check = False, wdt_started_s = False, imei = replicate 15 49,
     ota_pub_topic = replicate 15 49 @ [47, 111], ota_sub_topic = replicate 15 49 @ [47, 115],
     telemetry_pub_topic = replicate 15 49 @ [47, 116], application_sub_topic = replicate 15 49 @ [47, 97],
     broker = None, client_s = None, payload_buf = replicate 128 0, ota_data_s = example_ota, callbacks = replicate 10 None,
     heap = (\<lambda>a. None), ota_cb = True, state_cb = True, ota_sub_message_id = 0\<rparr>"

text \<open>A client that delivers two bytes at a time.\<close>

definition two_at_a_time :: "(ota_msg \<times> dec_pos) option platform" where
  "two_at_a_time = example_platform\<lparr>env := (\<lambda>h c. case c of Read_payload n \<Rightarrow> min 2 (int n) | _ \<Rightarrow> 0)\<rparr>"

theorem payload_is_read_witness:
  "\<exists>s'. publish_get_payload two_at_a_time [1, 2, 3] 3 example_cloud = Some (0, s') \<and> take 3 (payload_buf s') = [1, 2, 3]"
proof -
  have ok: "reads_ok two_at_a_time" by (simp add: reads_ok_def two_at_a_time_def)
  have size: "length (payload_buf example_cloud) = PAYLOAD_BUFFER_SIZE (cfg two_at_a_time)"
    by (simp add: example_cloud_def two_at_a_time_def example_platform_def default_config_def)
  have "\<exists>s'. publish_get_payload two_at_a_time [1, 2, 3] 3 example_cloud = Some (0, s')"
    by (simp add: publish_get_payload_def payload_loop.simps two_at_a_time_def example_platform_def
        default_config_def ext_def memcpy_at_def example_cloud_def)
  then show ?thesis
    using payload_is_read [OF ok size, of 3 "[1, 2, 3]"] by (auto simp: numeral_3_eq_3)
qed

end
