(* ===== verification/Cloud_Callbacks.thy ===== *)
theory Cloud_Callbacks
  imports Cloud_State
begin

text \<open>
  The application's subscriptions in \<open>subsys/pyrinas_cloud/pyrinas_cloud.c\<close>: the table of pointers to
  allocated entries, \<open>pyrinas_cloud_subscribe\<close>, \<open>pyrinas_cloud_unsubscribe\<close> and the search in
  \<open>publish_evt_handler\<close> that hands a message to its subscriber. The blocks of the kernel's heap are in
  the store \<open>heap\<close>; using a block that is not allocated is \<open>None\<close>.
\<close>

section \<open>Subscribing\<close>

text \<open>The first free position of the table.\<close>

fun first_free :: "'a option list \<Rightarrow> nat option" where
  "first_free [] = None"
| "first_free (x # xs) = (if x = None then Some 0 else map_option Suc (first_free xs))"

definition full_topic_of :: "config \<Rightarrow> byte list \<Rightarrow> byte list \<Rightarrow> byte list" where
  "full_topic_of c im topic =
     snprintf (sizeof_literal (APPLICATION_SUB_TOPIC c) + IMEI_LEN + EVENT_NAME_MAX_SIZE c)
       (render (APPLICATION_SUB_TOPIC c) [prec IMEI_LEN im, topic])"

text \<open>
  \<open>topic\<close> is the C string of the name and \<open>junk\<close> what the allocated block holds after the bytes
  that are copied into its member \<open>topic\<close>: no NUL is written there. The result of the allocation is not
  checked.
\<close>

definition pyrinas_cloud_subscribe ::
    "'dc platform \<Rightarrow> byte list \<Rightarrow> byte list \<Rightarrow> nat \<Rightarrow> cloud \<Rightarrow> (int \<times> cloud) option" where
  "pyrinas_cloud_subscribe P junk topic callback s =
     (if EVENT_NAME_MAX_SIZE (cfg P) < length topic then Some (- EINVAL, s)
      else
        case first_free (callbacks s) of
          None \<Rightarrow> Some (- ENOMEM, s)
        | Some i \<Rightarrow>
            let (a, s) = ext (env P) K_malloc s in
            if a = 0 then None
            else
              let e = \<lparr>cb = callback, full_topic = full_topic_of (cfg P) (imei s) topic,
                    cb_topic = topic @ junk, topic_len = length topic\<rparr>
              in Some (0, s\<lparr>callbacks := (callbacks s)[i := Some (nat a)], heap := (heap s)(nat a \<mapsto> e)\<rparr>))"

section \<open>Unsubscribing\<close>

text \<open>The entry is freed; the pointer to it stays in the table.\<close>

fun unsubscribe_loop :: "byte list \<Rightarrow> nat option list \<Rightarrow> cloud \<Rightarrow> (int \<times> cloud) option" where
  "unsubscribe_loop topic [] s = Some (- ENOENT, s)"
| "unsubscribe_loop topic (None # ps) s = unsubscribe_loop topic ps s"
| "unsubscribe_loop topic (Some a # ps) s =
     (case heap s a of
        None \<Rightarrow> None
      | Some e \<Rightarrow>
          if c_string (cb_topic e) = topic
          then Some (0, (emit (K_free a) s)\<lparr>heap := (heap s)(a := None)\<rparr>)
          else unsubscribe_loop topic ps s)"

definition pyrinas_cloud_unsubscribe :: "byte list \<Rightarrow> cloud \<Rightarrow> (int \<times> cloud) option" where
  "pyrinas_cloud_unsubscribe topic s = unsubscribe_loop topic (callbacks s) s"

section \<open>Dispatching\<close>

text \<open>
  \<open>topic_mem\<close> is the memory at the topic of the message, \<open>len\<close> the length of the topic. The
  comparison ends after \<open>len\<close> bytes.
\<close>

fun dispatch_loop :: "byte list \<Rightarrow> nat \<Rightarrow> byte list \<Rightarrow> nat option list \<Rightarrow> cloud \<Rightarrow> cloud option" where
  "dispatch_loop topic_mem len data [] s = Some s"
| "dispatch_loop topic_mem len data (None # ps) s = dispatch_loop topic_mem len data ps s"
| "dispatch_loop topic_mem len data (Some a # ps) s =
     (case heap s a of
        None \<Rightarrow> None
      | Some e \<Rightarrow>
          if strncmp (full_topic e) topic_mem len = 0
          then Some (emit (App_cb (cb e) (take (topic_len e) (cb_topic e)) (topic_len e) data) s)
          else dispatch_loop topic_mem len data ps s)"

section \<open>The table\<close>

text \<open>
  Every pointer of the table is to an allocated entry, no two to the same one. The allocator gives
  blocks that are not in use.
\<close>

definition table_inv :: "cloud \<Rightarrow> bool" where
  "table_inv s \<longleftrightarrow> (\<forall>a. Some a \<in> set (callbacks s) \<longrightarrow> heap s a \<noteq> None)"

definition malloc_ok :: "'dc platform \<Rightarrow> cloud \<Rightarrow> bool" where
  "malloc_ok P s \<longleftrightarrow> 0 < env P (calls s) K_malloc \<and> heap s (nat (env P (calls s) K_malloc)) = None"

text \<open>The entries in the order of the table.\<close>

definition entries :: "cloud \<Rightarrow> cb_entry list" where
  "entries s = List.map_filter (\<lambda>p. Option.bind p (heap s)) (callbacks s)"

text \<open>What the search does with a sound table: the first entry whose topic starts with that of the message.\<close>

fun find_entry :: "byte list \<Rightarrow> cb_entry list \<Rightarrow> cb_entry option" where
  "find_entry t [] = None"
| "find_entry t (e # es) = (if take (length t) (full_topic e) = t then Some e else find_entry t es)"

text \<open>A table whose entries hold C strings.\<close>

definition table_ok :: "cloud \<Rightarrow> bool" where
  "table_ok s \<longleftrightarrow> table_inv s \<and> (\<forall>e \<in> set (entries s). 0 \<notin> set (full_topic e))"

lemma set_map_filter: "x \<in> set (List.map_filter f xs) \<longleftrightarrow> (\<exists>y \<in> set xs. f y = Some x)"
  by (induction xs) (auto split: option.split)

lemma entries_set: "e \<in> set (entries s) \<longleftrightarrow> (\<exists>a. Some a \<in> set (callbacks s) \<and> heap s a = Some e)"
  unfolding entries_def set_map_filter by (auto simp: bind_eq_Some_conv)

lemma strncmp_take: "strncmp a b n = strncmp a (take n b) n"
  by (induction a b n rule: strncmp.induct) auto

lemma dispatch_loop_finds:
  assumes "0 \<notin> set (take len topic_mem)" and "len \<le> length topic_mem"
  shows "\<forall>a. Some a \<in> set ps \<longrightarrow> heap s a \<noteq> None \<and> 0 \<notin> set (full_topic (the (heap s a))) \<Longrightarrow>
    dispatch_loop topic_mem len data ps s =
     (case find_entry (take len topic_mem) (List.map_filter (\<lambda>p. Option.bind p (heap s)) ps) of
        None \<Rightarrow> Some s
      | Some e \<Rightarrow> Some (emit (App_cb (cb e) (take (topic_len e) (cb_topic e)) (topic_len e) data) s))"
proof (induction ps)
  case (Cons p ps)
  show ?case
  proof (cases p)
    case (Some a)
    then obtain e where e: "heap s a = Some e" "0 \<notin> set (full_topic e)" using Cons.prems by auto
    have "strncmp (full_topic e) topic_mem len = 0 \<longleftrightarrow> take len (full_topic e) = take len topic_mem"
      using strncmp_eq_0_iff [OF e(2) assms(1), of len] by (simp flip: strncmp_take)
    then show ?thesis using Cons Some e assms(2) by (simp add: min_absorb2)
  qed (use Cons in simp)
qed simp

lemma find_entry_None: "find_entry t es = None \<longleftrightarrow> (\<forall>e \<in> set es. take (length t) (full_topic e) \<noteq> t)"
  by (induction es) auto

lemma find_entry_only:
  "e \<in> set es \<Longrightarrow> take (length t) (full_topic e) = t \<Longrightarrow>
   (\<And>e'. e' \<in> set es \<Longrightarrow> take (length t) (full_topic e') = t \<Longrightarrow> e' = e) \<Longrightarrow> find_entry t es = Some e"
proof (induction es)
  case (Cons x es)
  show ?case
  proof (cases "take (length t) (full_topic x) = t")
    case True
    then have "x = e" by (intro Cons.prems(3)) simp_all
    then show ?thesis using Cons.prems(2) by simp
  next
    case False
    then have "e \<in> set es" using Cons.prems(1,2) by auto
    then have "find_entry t es = Some e" by (intro Cons.IH Cons.prems(2,3)) simp_all
    then show ?thesis using False by simp
  qed
qed simp

lemma first_free_Some: "first_free xs = Some i \<Longrightarrow> i < length xs \<and> xs ! i = None"
  by (induction xs arbitrary: i) (auto split: if_splits)

lemma first_free_None: "first_free xs = None \<longleftrightarrow> None \<notin> set xs"
  by (induction xs) (auto split: if_splits)

lemma set_update_free:
  assumes "i < length xs" and "xs ! i = None" and "ys = xs[i := Some a]"
  shows "Some b \<in> set ys \<longleftrightarrow> b = a \<or> Some b \<in> set xs"
proof -
  have "xs = take i xs @ None # drop (Suc i) xs" using assms(1,2) by (metis id_take_nth_drop)
  moreover have "ys = take i xs @ Some a # drop (Suc i) xs" using assms(1,3) by (simp add: upd_conv_take_nth_drop)
  moreover have "Some b \<in> set (take i xs @ Some a # drop (Suc i) xs) \<longleftrightarrow>
      b = a \<or> Some b \<in> set (take i xs @ None # drop (Suc i) xs)" by auto
  ultimately show ?thesis by metis
qed

text \<open>What a successful subscription adds.\<close>

definition new_entry :: "'dc platform \<Rightarrow> byte list \<Rightarrow> byte list \<Rightarrow> nat \<Rightarrow> cloud \<Rightarrow> cb_entry" where
  "new_entry P junk topic f s = \<lparr>cb = f, full_topic = full_topic_of (cfg P) (imei s) topic,
     cb_topic = topic @ junk, topic_len = length topic\<rparr>"

lemma subscribe_succeeds:
  assumes "pyrinas_cloud_subscribe P junk topic f s = Some (0, s')"
  obtains i a where "first_free (callbacks s) = Some i" "a = nat (env P (calls s) K_malloc)"
    "callbacks s' = (callbacks s)[i := Some a]" "heap s' = (heap s)(a \<mapsto> new_entry P junk topic f s)"
    "length topic \<le> EVENT_NAME_MAX_SIZE (cfg P)"
  using assms
  by (auto simp: pyrinas_cloud_subscribe_def new_entry_def ext_def Let_def split: if_splits option.splits)

text \<open>A new entry joins the others.\<close>

lemma subscribe_entries:
  assumes s: "pyrinas_cloud_subscribe P junk topic f s = Some (0, s')" and inv: "table_inv s" and m: "malloc_ok P s"
  shows "table_inv s' \<and> set (entries s') = insert (new_entry P junk topic f s) (set (entries s))"
proof -
  obtain i a where i: "first_free (callbacks s) = Some i" "a = nat (env P (calls s) K_malloc)"
    "callbacks s' = (callbacks s)[i := Some a]" "heap s' = (heap s)(a \<mapsto> new_entry P junk topic f s)"
    using subscribe_succeeds [OF s] by metis
  have fresh: "heap s a = None" using m i(2) by (simp add: malloc_ok_def)
  have *: "Some b \<in> set (callbacks s') \<longleftrightarrow> b = a \<or> Some b \<in> set (callbacks s)" for b
    using first_free_Some [OF i(1)] i(3)
    by (intro set_update_free) auto
  have old: "b \<noteq> a" if "Some b \<in> set (callbacks s)" for b
    using inv fresh that by (auto simp: table_inv_def)
  show ?thesis
    using inv * old unfolding table_inv_def by (auto simp: i(4) entries_set set_eq_iff)
qed

section \<open>Properties\<close>

text \<open>The topic under the default configuration.\<close>

lemma prec_no_NUL: "0 \<notin> set (prec n m)"
  by (auto simp: prec_def c_string_def dest: in_set_takeD set_takeWhileD)

lemma default_full_topic:
  assumes "length topic \<le> 16"
  shows "full_topic_of default_config im topic =
    prec IMEI_LEN im @ [47, 97, 112, 112, 47, 115, 117, 98, 47] @ topic"
proof -
  have "length (prec IMEI_LEN im) \<le> 15" by (simp add: prec_def IMEI_LEN_def)
  then show ?thesis
    using assms
    by (simp add: full_topic_of_def default_config_def render_arg render_char sizeof_literal_def
        IMEI_LEN_def snprintf_fits of_char_def)
qed

text \<open>The search in a sound table.\<close>

lemma message_goes:
  assumes "table_ok s" and "0 \<notin> set t"
  shows "dispatch_loop (t @ rest) (length t) data (callbacks s) s =
    (case find_entry t (entries s) of
       None \<Rightarrow> Some s
     | Some e \<Rightarrow> Some (emit (App_cb (cb e) (take (topic_len e) (cb_topic e)) (topic_len e) data) s))"
proof -
  have "\<forall>a. Some a \<in> set (callbacks s) \<longrightarrow> heap s a \<noteq> None \<and> 0 \<notin> set (full_topic (the (heap s a)))"
    using assms(1) by (fastforce simp: table_ok_def table_inv_def entries_set)
  from dispatch_loop_finds [OF _ _ this, of "length t" "t @ rest" data] assms(2)
  show ?thesis by (simp add: entries_def)
qed

text \<open>
  C29. A message goes to the first entry of the table whose full topic starts with the topic of the message,
  with that entry's topic and the payload, and to no other; without such an entry nothing happens. The
  comparison is over the length of the message's topic, so a topic that is a proper beginning of a
  subscribed one is delivered as well.
\<close>

theorem message_goes_to_first_prefix:
  assumes "table_ok s" and "0 \<notin> set t"
  shows "dispatch_loop (t @ rest) (length t) data (callbacks s) s =
    (case find_entry t (entries s) of
       None \<Rightarrow> Some s
     | Some e \<Rightarrow> Some (emit (App_cb (cb e) (take (topic_len e) (cb_topic e)) (topic_len e) data) s))"
  by (rule message_goes [OF assms])


text \<open>The loop of \<open>pyrinas_cloud_unsubscribe\<close> stops at the first entry whose name is the one given.\<close>

lemma unsubscribe_loop_None:
  "unsubscribe_loop topic ps s = Some (- ENOENT, s) \<longleftrightarrow>
     (\<forall>a. Some a \<in> set ps \<longrightarrow> (\<exists>e. heap s a = Some e \<and> c_string (cb_topic e) \<noteq> topic))"
  by (induction topic ps s rule: unsubscribe_loop.induct) (auto split: option.split)

lemma unsubscribe_loop_frees:
  "unsubscribe_loop topic ps s = Some (0, s') \<Longrightarrow>
   \<exists>a e. Some a \<in> set ps \<and> heap s a = Some e \<and> c_string (cb_topic e) = topic \<and>
     s' = (emit (K_free a) s)\<lparr>heap := (heap s)(a := None)\<rparr>"
  by (induction topic ps s rule: unsubscribe_loop.induct) (auto split: option.splits if_splits)

text \<open>The search reads a freed block when it reaches it.\<close>

lemma dispatch_reaches_freed:
  assumes "0 \<notin> set t"
  shows "Some a \<in> set ps \<Longrightarrow> heap s a = None \<Longrightarrow>
    (\<And>b e. Some b \<in> set ps \<Longrightarrow> heap s b = Some e \<Longrightarrow> 0 \<notin> set (full_topic e) \<and> take (length t) (full_topic e) \<noteq> t) \<Longrightarrow>
    dispatch_loop (t @ rest) (length t) data ps s = None"
proof (induction ps)
  case (Cons p ps)
  show ?case
  proof (cases "\<exists>b e. p = Some b \<and> heap s b = Some e")
    case True
    then obtain b e where e: "p = Some b" "heap s b = Some e" by auto
    then have "0 \<notin> set (full_topic e)" "take (length t) (full_topic e) \<noteq> t" using Cons.prems(3) by auto
    then have "strncmp (full_topic e) (t @ rest) (length t) \<noteq> 0"
      using strncmp_eq_0_iff [of "full_topic e" t "length t"] strncmp_take [of "full_topic e" "t @ rest" "length t"] assms
      by simp
    moreover have a: "Some a \<in> set ps" using Cons.prems(1,2) e by auto
    moreover have "dispatch_loop (t @ rest) (length t) data ps s = None"
      by (intro Cons.IH Cons.prems(2,3)) (use a in simp_all)
    ultimately show ?thesis using e by simp
  next
    case False
    then consider "p = None" | b where "p = Some b" "heap s b = None" by (cases p) auto
    then show ?thesis
    proof cases
      case 1
      then show ?thesis using Cons.prems(1,2) by (simp, intro Cons.IH Cons.prems(2,3)) auto
    qed simp
  qed
qed simp


text \<open>
  The name of a subscription is copied into its block without a NUL, so the entry can be found again
  to unsubscribe only if the block happened to hold a NUL after it; otherwise the answer is that there is no such
  subscription.
\<close>

theorem unsubscribe_needs_a_lucky_block:
  assumes "table_ok s" and "malloc_ok P s" and "0 \<notin> set topic"
    and "pyrinas_cloud_subscribe P junk topic f s = Some (0, s')"
    and "\<forall>e \<in> set (entries s). c_string (cb_topic e) \<noteq> topic"
  shows "(pyrinas_cloud_unsubscribe topic s' = Some (- ENOENT, s')) = (c_string junk \<noteq> [])"
proof -
  have e: "table_inv s'" "set (entries s') = insert (new_entry P junk topic f s) (set (entries s))"
    using subscribe_entries [OF assms(4) _ assms(2)] assms(1) by (auto simp: table_ok_def)
  have "pyrinas_cloud_unsubscribe topic s' = Some (- ENOENT, s') \<longleftrightarrow>
      (\<forall>e \<in> set (entries s'). c_string (cb_topic e) \<noteq> topic)"
    using e(1) unfolding pyrinas_cloud_unsubscribe_def unsubscribe_loop_None by (fastforce simp: table_inv_def entries_set)
  then show ?thesis
    using assms(3,5) by (simp add: e(2) new_entry_def c_string_append)
qed

section \<open>A table that only fills\<close>

text \<open>The calls of the application.\<close>

datatype app_op = Op_subscribe "byte list" "byte list" nat | Op_unsubscribe "byte list"

definition app_step :: "'dc platform \<Rightarrow> cloud \<Rightarrow> app_op \<Rightarrow> cloud option" where
  "app_step P s op =
     map_option snd (case op of
       Op_subscribe junk topic f \<Rightarrow> pyrinas_cloud_subscribe P junk topic f s
     | Op_unsubscribe topic \<Rightarrow> pyrinas_cloud_unsubscribe topic s)"

definition free_positions :: "cloud \<Rightarrow> int" where
  "free_positions s = int (count_list (callbacks s) None)"

text \<open>What an operation does to the number of free positions: a subscription takes one if there is one.\<close>

fun position_delta :: "'dc platform \<Rightarrow> cloud \<Rightarrow> app_op \<Rightarrow> int" where
  "position_delta P s (Op_subscribe junk topic f) =
     (if length topic \<le> EVENT_NAME_MAX_SIZE (cfg P) \<and> 0 < free_positions s then - 1 else 0)"
| "position_delta P s (Op_unsubscribe topic) = 0"

lemma count_list_update:
  "i < length xs \<Longrightarrow> xs ! i = x \<Longrightarrow> y \<noteq> x \<Longrightarrow> Suc (count_list (xs[i := y]) x) = count_list xs x"
  by (induction xs arbitrary: i) (auto simp: nth_Cons split: nat.splits)

lemma free_positions_pos: "0 < free_positions s \<longleftrightarrow> first_free (callbacks s) \<noteq> None"
  using count_list_0_iff [of "callbacks s" None]
  by (simp add: free_positions_def first_free_None del: count_list_0_iff) linarith

lemma unsubscribe_loop_callbacks: "unsubscribe_loop topic ps s = Some (r, s') \<Longrightarrow> callbacks s' = callbacks s"
  by (induction topic ps s rule: unsubscribe_loop.induct) (auto simp: emit_def split: option.splits if_splits)

interpretation positions: accounting "app_step P" free_positions "position_delta P" for P
proof
  fix s op and s' :: cloud
  assume step: "app_step P s op = Some s'"
  show "free_positions s' = free_positions s + position_delta P s op"
  proof (cases op)
    case (Op_subscribe junk topic f)
    then show ?thesis
      using step free_positions_pos [of s]
      by (auto simp: app_step_def pyrinas_cloud_subscribe_def ext_def Let_def split: if_splits option.splits)
        (auto simp: free_positions_def dest!: first_free_Some simp flip: count_list_update [of _ "callbacks s" None "Some a" for a])
  next
    case (Op_unsubscribe topic)
    then show ?thesis
      using step unsubscribe_loop_callbacks
      by (auto simp: app_step_def pyrinas_cloud_unsubscribe_def free_positions_def)
  qed
qed

text \<open>
  Positions of the table are used up: whatever the application subscribes to and unsubscribes from, the
  number of free positions falls by one with every subscription that is accepted and never grows, so over the
  life of the device at most as many subscriptions are accepted as the table has positions.
\<close>

theorem positions_are_never_returned:
  assumes "exec (app_step P) s ops = Some s'"
  shows "free_positions s' = free_positions s + total (app_step P) (position_delta P) s ops \<and>
    0 \<le> free_positions s' \<and> free_positions s' \<le> free_positions s"
proof -
  have "total (app_step P) (position_delta P) s ops \<le> 0" for s
  proof (induction ops arbitrary: s)
    case (Cons op ops)
    have "position_delta P s op \<le> 0" by (cases op) auto
    then show ?case using Cons.IH by (auto split: option.split intro: add_nonpos_nonpos)
  qed simp
  then show ?thesis using positions.exec_quantity [OF assms] by (simp add: free_positions_def)
qed

section \<open>The properties at work\<close>

text \<open>The example device with a subscription to \<open>temp\<close>, once in a cleared block and once in a block full of ones.\<close>

definition temp_topic :: "byte list" where
  "temp_topic = [116, 101, 109, 112]"

definition subscribed :: "byte list \<Rightarrow> cloud" where
  "subscribed junk = snd (the (pyrinas_cloud_subscribe example_platform junk temp_topic 7 example_cloud))"

lemma example_table:
  "table_ok example_cloud" "malloc_ok example_platform example_cloud" "entries example_cloud = []"
  "cfg example_platform = default_config" "0 \<notin> set temp_topic"
proof -
  have c: "set (callbacks example_cloud) = {None}" by (simp add: example_cloud_def)
  then show e: "entries example_cloud = []"
    using entries_set [of _ example_cloud] by (metis hd_in_set option.distinct(1) singletonD)
  with c show "table_ok example_cloud" by (simp add: table_ok_def table_inv_def)
  show "malloc_ok example_platform example_cloud" "cfg example_platform = default_config" "0 \<notin> set temp_topic"
    by (simp_all add: malloc_ok_def example_cloud_def example_platform_def temp_topic_def)
qed

lemma example_callbacks: "callbacks example_cloud = None # replicate 9 None"
proof -
  have "replicate 10 x = x # replicate 9 x" for x :: "nat option" by (simp add: eval_nat_numeral)
  then show ?thesis by (simp add: example_cloud_def)
qed

lemma example_subscribe:
  "pyrinas_cloud_subscribe example_platform junk temp_topic 7 example_cloud = Some (0, subscribed junk)"
proof -
  have "first_free (callbacks example_cloud) = Some 0" by (simp add: example_callbacks)
  then have "\<exists>s. pyrinas_cloud_subscribe example_platform junk temp_topic 7 example_cloud = Some (0, s)"
    by (simp add: pyrinas_cloud_subscribe_def temp_topic_def example_platform_def default_config_def ext_def Let_def)
  then show ?thesis by (auto simp: subscribed_def)
qed

lemma example_entries:
  "set (entries (subscribed junk)) = {new_entry example_platform junk temp_topic 7 example_cloud}"
  using subscribe_entries [OF example_subscribe _ example_table(2)] example_table(1,3) by (simp add: table_ok_def)

lemma example_full_topic:
  "full_topic_of (cfg example_platform) (imei example_cloud) temp_topic =
     replicate 15 49 @ [47, 97, 112, 112, 47, 115, 117, 98, 47] @ temp_topic"
  by (simp add: example_table(4) default_full_topic temp_topic_def example_cloud_def prec_def IMEI_LEN_def
      c_string_def takeWhile_eq_all_conv [THEN iffD2])

lemma temp_topic_length: "length temp_topic = 4"
  by (simp add: temp_topic_def)

lemma example_ok: "table_ok (subscribed junk)"
proof -
  have "table_inv (subscribed junk)"
    using subscribe_entries [OF example_subscribe _ example_table(2)] example_table(1) by (simp add: table_ok_def)
  then show ?thesis
    using example_table(5) by (simp add: table_ok_def example_entries new_entry_def example_full_topic)
qed

lemma example_unsubscribe: "\<exists>s'. pyrinas_cloud_unsubscribe temp_topic (subscribed [0]) = Some (0, s')"
proof -
  have "callbacks (subscribed [0]) = Some 1000 # replicate 9 None"
    "heap (subscribed [0]) = [1000 \<mapsto> new_entry example_platform [0] temp_topic 7 example_cloud]"
    by (simp_all add: subscribed_def pyrinas_cloud_subscribe_def temp_topic_def example_platform_def
        default_config_def ext_def Let_def example_callbacks new_entry_def)
      (simp add: example_cloud_def)
  then show ?thesis
    by (simp add: pyrinas_cloud_unsubscribe_def new_entry_def c_string_append example_table(5))
qed


text \<open>A message on \<open>.../app/sub/te\<close> reaches the subscriber of \<open>temp\<close>.\<close>

theorem message_goes_to_first_prefix_witness:
  "dispatch_loop (replicate 15 49 @ [47, 97, 112, 112, 47, 115, 117, 98, 47, 116, 101]) 26 [1]
     (callbacks (subscribed [1])) (subscribed [1]) =
   Some (emit (App_cb 7 temp_topic 4 [1]) (subscribed [1]))"
proof -
  let ?t = "replicate 15 49 @ [47, 97, 112, 112, 47, 115, 117, 98, 47, 116, 101] :: byte list"
  have "find_entry ?t (entries (subscribed [1])) = Some (new_entry example_platform [1] temp_topic 7 example_cloud)"
    by (rule find_entry_only) (auto simp: example_entries new_entry_def example_full_topic, simp add: temp_topic_def)
  then show ?thesis
    using message_goes_to_first_prefix [OF example_ok, of ?t "[]" "[1]"]
    by (simp add: new_entry_def temp_topic_length)
qed

theorem unsubscribe_needs_a_lucky_block_witness:
  "pyrinas_cloud_unsubscribe temp_topic (subscribed [1]) = Some (- ENOENT, subscribed [1]) \<and>
   pyrinas_cloud_unsubscribe temp_topic (subscribed [0]) \<noteq> Some (- ENOENT, subscribed [0])"
  using unsubscribe_needs_a_lucky_block [OF example_table(1,2,5) example_subscribe, of "[1]"]
    unsubscribe_needs_a_lucky_block [OF example_table(1,2,5) example_subscribe, of "[0]"]
  by (simp add: example_table(3) c_string_def)


theorem positions_are_never_returned_witness:
  "\<exists>s'. exec (app_step example_platform) example_cloud [Op_subscribe [0] temp_topic 7, Op_unsubscribe temp_topic] = Some s' \<and>
     free_positions s' = 9"
proof -
  have 1: "app_step example_platform example_cloud (Op_subscribe [0] temp_topic 7) = Some (subscribed [0])"
    by (simp add: app_step_def example_subscribe)
  obtain s' where 2: "app_step example_platform (subscribed [0]) (Op_unsubscribe temp_topic) = Some s'"
    using example_unsubscribe by (auto simp: app_step_def)
  have e: "exec (app_step example_platform) example_cloud [Op_subscribe [0] temp_topic 7, Op_unsubscribe temp_topic] = Some s'"
    using 1 2 by simp
  have "count_list (replicate n x) x = n" for n and x :: "nat option" by (induction n) auto
  then have "free_positions example_cloud = 10" by (simp add: free_positions_def example_cloud_def)
  then show ?thesis
    using positions_are_never_returned [OF e] e 1 2
    by (simp add: temp_topic_length example_platform_def default_config_def)
qed

end
