(* ===== verification/Pyrinas_Cloud.thy ===== *)
theory Pyrinas_Cloud
  imports Cloud_Callbacks
begin

text \<open>
  The cloud client as a whole, \<open>subsys/pyrinas_cloud/pyrinas_cloud.c\<close>: the handler of OTA offers, the MQTT event
  handler, the work items, connecting and initialising, and the thread that drives the MQTT
  client. Every function runs to its end before the next one starts; the events that the MQTT library reports are steps of
  their own, or arguments of the thread's round when they are reported during \<open>mqtt_live\<close> or
  \<open>mqtt_input\<close>.
\<close>

section \<open>OTA\<close>

text \<open>
  The strings that \<open>fota_download_start\<close> is given: the arrays are neighbours in the structure, and no NUL is
  written into them.
\<close>

definition host_string :: "ota_data \<Rightarrow> byte list" where
  "host_string od = c_string (host od @ file od @ [of_bool (force od)])"

definition file_string :: "ota_data \<Rightarrow> byte list" where
  "file_string od = c_string (file od @ [of_bool (force od)])"

text \<open>
  The handler of a published message. \<open>topic_mem\<close> is the memory at its topic, \<open>data\<close> the payload.
\<close>

definition publish_evt_handler :: "'dc platform \<Rightarrow> byte list \<Rightarrow> nat \<Rightarrow> byte list \<Rightarrow> cloud \<Rightarrow> cloud option" where
  "publish_evt_handler P topic_mem tlen data s =
     (if strncmp (ota_sub_topic s) topic_mem (length (ota_sub_topic s)) = 0 then
        let s = s\<lparr>initial_ota_check := True\<rparr> in
        case decode_ota_data (dec P) (stack_temp P) (ota_data_s s) (Decode_Init P data) of
          None \<Rightarrow> None
        | Some (err, od) \<Rightarrow>
            let s = s\<lparr>ota_data_s := od\<rparr>;
                result = (if err = 0 then ver_comp (pyrinas_version P) (version od) else 0)
            in if result = 1 then
                 Some (emit (Submit_delayed fota_work 5) (notify_ota (s\<lparr>ota_state_s := ota_state_started\<rparr>)))
               else if ota_state_s s = ota_state_ready then
                 let s = emit (Submit ota_done_work) s;
                     (i, s) = rand_id P s;
                     (err, s) = subscribe P (application_sub_topic s) i s
                 in Some (notify_ota s)
               else Some s
      else dispatch_loop topic_mem tlen data (callbacks s) s)"

definition fota_start_fn :: "'dc platform \<Rightarrow> cloud \<Rightarrow> cloud" where
  "fota_start_fn P s =
     (let od = ota_data_s s;
          (err, s) = ext (env P) (Fota_download_start (host_string od) (file_string od) (HTTPS_SEC_TAG (cfg P))) s
      in if err \<noteq> 0 then emit Sys_reboot (notify_ota (s\<lparr>ota_state_s := ota_state_error\<rparr>))
         else notify_ota (s\<lparr>ota_state_s := ota_state_downloading\<rparr>))"

text \<open>The events of the download library.\<close>

datatype fota_download_evt_id = FOTA_DOWNLOAD_EVT_ERROR | FOTA_DOWNLOAD_EVT_FINISHED | FOTA_DOWNLOAD_EVT_OTHER

fun fota_evt :: "fota_download_evt_id \<Rightarrow> cloud \<Rightarrow> cloud" where
  "fota_evt FOTA_DOWNLOAD_EVT_ERROR s =
     emit (Submit_system ota_reboot_work) (notify_ota (s\<lparr>ota_state_s := ota_state_error\<rparr>))"
| "fota_evt FOTA_DOWNLOAD_EVT_FINISHED s =
     emit (Submit_system ota_reboot_work) (notify_ota (s\<lparr>ota_state_s := ota_state_done\<rparr>))"
| "fota_evt FOTA_DOWNLOAD_EVT_OTHER s = s"

definition reboot_work_fn :: "cloud \<Rightarrow> cloud" where
  "reboot_work_fn s = notify_ota ((emit Sys_reboot s)\<lparr>ota_state_s := ota_state_rebooting\<rparr>)"

section \<open>MQTT events\<close>

text \<open>
  \<open>Publish t n d k q i\<close> is a message on the topic of \<open>n\<close> bytes at the memory \<open>t\<close>, with \<open>k\<close> bytes of payload which are those
  of \<open>d\<close>, the quality of service \<open>q\<close> and the message number \<open>i\<close>.
\<close>

datatype mqtt_evt =
  Connack int | Disconnect int | Publish "byte list" nat "byte list" nat nat "16 word"
| Puback int | Suback int "16 word" | Other_evt nat

definition on_disconnect :: "cloud \<Rightarrow> cloud" where
  "on_disconnect s = notify_cloud ((emit Timer_stop s)\<lparr>cloud_state_s := cloud_state_disconnected\<rparr>)"

definition qos1_ack :: "'dc platform \<Rightarrow> nat \<Rightarrow> 16 word \<Rightarrow> cloud \<Rightarrow> cloud" where
  "qos1_ack P qos i s = (if qos = 1 then snd (ext (env P) (Mqtt_publish_qos1_ack i) s) else s)"

fun mqtt_evt_handler :: "'dc platform \<Rightarrow> mqtt_evt \<Rightarrow> cloud \<Rightarrow> cloud option" where
  "mqtt_evt_handler P (Connack result) s =
     Some (if result \<noteq> 0 then notify_cloud (s\<lparr>cloud_state_s := cloud_state_disconnected\<rparr>)
           else emit (Timer_start 600) (emit (Submit on_connect_work) s))"
| "mqtt_evt_handler P (Disconnect result) s = Some (on_disconnect s)"
| "mqtt_evt_handler P (Publish topic_mem tlen data len qos i) s =
     (case publish_get_payload P data len s of
        None \<Rightarrow> None
      | Some (err, s) \<Rightarrow>
          map_option (qos1_ack P qos i)
            (if 0 \<le> err then publish_evt_handler P topic_mem tlen (take len (payload_buf s)) s
             else Some (snd (ext (env P) Mqtt_disconnect s))))"
| "mqtt_evt_handler P (Puback result) s = Some s"
| "mqtt_evt_handler P (Suback result i) s =
     Some (if result = 0 \<and> ota_sub_message_id s = i \<and> \<not> initial_ota_check s
           then emit (Submit_delayed ota_check_subscribed_work 5) (emit (Submit ota_request_work) s)
           else s)"
| "mqtt_evt_handler P (Other_evt n) s = Some s"

section \<open>Work\<close>

definition telemetry_check_event :: "cloud \<Rightarrow> cloud" where
  "telemetry_check_event s = emit (Timer_start 600) (emit (Submit publish_telemetry_work) s)"

definition on_connect_fn :: "'dc platform \<Rightarrow> cloud \<Rightarrow> cloud" where
  "on_connect_fn P s =
     (let s = publish_telemetry P True s in
      if ota_state_s s = ota_state_ready then
        let (i, s) = rand_id P s;
            s = s\<lparr>ota_sub_message_id := i\<rparr>
        in snd (subscribe P (ota_sub_topic s) (ota_sub_message_id s) s)
      else s)"

text \<open>The assertion that the server has answered.\<close>

definition ota_check_subscribed_work_fn :: "cloud \<Rightarrow> cloud option" where
  "ota_check_subscribed_work_fn s = (if initial_ota_check s then Some s else None)"

fun run_work :: "'dc platform \<Rightarrow> work \<Rightarrow> cloud \<Rightarrow> cloud option" where
  "run_work P fota_work s = Some (fota_start_fn P s)"
| "run_work P ota_check_subscribed_work s = ota_check_subscribed_work_fn s"
| "run_work P on_connect_work s = Some (on_connect_fn P s)"
| "run_work P ota_reboot_work s = Some (reboot_work_fn s)"
| "run_work P ota_request_work s = Some (publish_ota_check P s)"
| "run_work P ota_done_work s = Some (publish_ota_done P s)"
| "run_work P publish_telemetry_work s = Some (publish_telemetry P False s)"

section \<open>Connecting\<close>

definition get_imei :: "'dc platform \<Rightarrow> cloud \<Rightarrow> int \<times> cloud" where
  "get_imei P s =
     (let buf = cgsn P (calls s);
          (err, s) = ext (env P) At_cmd_write s
      in if err \<noteq> 0 then (err, s) else (0, s\<lparr>imei := take IMEI_LEN buf\<rparr>))"

text \<open>The search for the address of the broker: it ends after the first address, whatever that is.\<close>

definition sizeof_sockaddr_in :: nat where
  "sizeof_sockaddr_in = 8"

fun broker_loop :: "config \<Rightarrow> (nat \<times> 32 word) list \<Rightarrow> cloud \<Rightarrow> cloud" where
  "broker_loop c [] s = s"
| "broker_loop c ((addrlen, a) # as) s =
     (if addrlen = sizeof_sockaddr_in
      then s\<lparr>broker := Some \<lparr>s_addr = a, sin_port = BROKER_PORT c\<rparr>\<rparr>
      else s)"

definition broker_init :: "'dc platform \<Rightarrow> cloud \<Rightarrow> int \<times> cloud" where
  "broker_init P s =
     (let as = resolved P (calls s);
          (err, s) = ext (env P) Getaddrinfo s
      in if err \<noteq> 0 then (err, s)
         else (0, emit Freeaddrinfo (broker_loop (cfg P) as s)))"

definition client_init :: "'dc platform \<Rightarrow> byte list \<Rightarrow> cloud \<Rightarrow> int \<times> cloud" where
  "client_init P p_client_id s =
     (let (err, s) = broker_init P (emit Mqtt_client_init s) in
      if err \<noteq> 0 then (err, s)
      else (0, s\<lparr>client_s := Some \<lparr>client_id = p_client_id, rx_buf_size = MESSAGE_BUFFER_SIZE (cfg P),
             tx_buf_size = MESSAGE_BUFFER_SIZE (cfg P), peer_verify = PEER_VERIFY (cfg P),
             sec_tag_list = [SEC_TAG (cfg P)], hostname = BROKER_HOSTNAME (cfg P)\<rparr>\<rparr>))"

definition pyrinas_cloud_connect :: "'dc platform \<Rightarrow> cloud \<Rightarrow> int \<times> cloud" where
  "pyrinas_cloud_connect P s =
     (if cloud_state_s s = cloud_state_connected then (- EINPROGRESS, s)
      else
        let (err, s) = get_imei P s;
            (err, s) = client_init P (imei s) s
        in if err \<noteq> 0 then (err, s)
           else
             let (err, s) = ext (env P) Mqtt_connect s in
             if err \<noteq> 0 then (err, s)
             else (0, emit K_sem_give (notify_cloud (s\<lparr>cloud_state_s := cloud_state_connected\<rparr>))))"

definition pyrinas_cloud_is_connected :: "cloud \<Rightarrow> bool" where
  "pyrinas_cloud_is_connected s = (cloud_state_s s = cloud_state_connected)"

definition pyrinas_cloud_disconnect :: "'dc platform \<Rightarrow> cloud \<Rightarrow> int \<times> cloud" where
  "pyrinas_cloud_disconnect P s = ext (env P) Mqtt_disconnect s"

definition pyrinas_cloud_register_state_evt :: "bool \<Rightarrow> cloud \<Rightarrow> cloud" where
  "pyrinas_cloud_register_state_evt c s = s\<lparr>state_cb := c\<rparr>"

text \<open>A topic array: the format with the IMEI in it.\<close>

definition device_topic :: "string \<Rightarrow> byte list \<Rightarrow> byte list" where
  "device_topic fmt im = snprintf (sizeof_literal fmt + IMEI_LEN) (render fmt [prec IMEI_LEN im])"

text \<open>
  \<open>None\<close> is a failed assertion: no queue, no watchdog, or no watchdog channel. \<open>c\<close> says whether a callback is given.
\<close>

definition pyrinas_cloud_init :: "'dc platform \<Rightarrow> bool \<Rightarrow> bool \<Rightarrow> cloud \<Rightarrow> cloud option" where
  "pyrinas_cloud_init P task_q c s =
     (if \<not> task_q then None
      else
        let (wdt_drv, s) = ext (env P) Wdt_get_binding s in
        if wdt_drv = 0 then None
        else
          let (wdt_channel_id, s) = ext (env P) Wdt_install_timeout s in
          if wdt_channel_id < 0 then None
          else
            let s = s\<lparr>ota_cb := c\<rparr>;
                (err, s) = get_imei P s;
                s = emit Fota_download_init s
            in Some (s\<lparr>ota_pub_topic := device_topic (OTA_PUB_TOPIC (cfg P)) (imei s),
                  ota_sub_topic := device_topic (OTA_SUB_TOPIC (cfg P)) (imei s),
                  telemetry_pub_topic := device_topic (TELEMETRY_PUB_TOPIC (cfg P)) (imei s),
                  application_sub_topic := full_topic_of (cfg P) (imei s) [43]\<rparr>))"

section \<open>The thread\<close>

text \<open>
  Where the thread is: at the semaphore or in the loop that serves the connection. The semaphore is waited for 55 seconds at a time.
\<close>

datatype thread_pc = Waiting | Serving

definition process_wait :: "'dc platform \<Rightarrow> cloud \<Rightarrow> thread_pc \<times> cloud" where
  "process_wait P s =
     (let (err, s) = ext (env P) (K_sem_take 55) s in
      if err \<noteq> 0 then (Waiting, if wdt_started_s s then emit Wdt_feed s else s)
      else if \<not> wdt_started_s s
      then let (err, s) = ext (env P) Wdt_setup s in (Serving, s\<lparr>wdt_started_s := True\<rparr>)
      else (Serving, s))"

text \<open>
  What happens during a round of the inner loop: the events that the client reports while it is in \<open>mqtt_live\<close>
  and in \<open>mqtt_input\<close>, and the flags of the socket.
\<close>

record turn =
  live_events :: "mqtt_evt list"
  input_events :: "mqtt_evt list"
  POLLIN :: bool
  POLLERR :: bool
  POLLNVAL :: bool

fun handle_events :: "'dc platform \<Rightarrow> mqtt_evt list \<Rightarrow> cloud \<Rightarrow> cloud option" where
  "handle_events P [] s = Some s"
| "handle_events P (e # es) s =
     (case mqtt_evt_handler P e s of None \<Rightarrow> None | Some s \<Rightarrow> handle_events P es s)"

text \<open>The part of a round after \<open>mqtt_live\<close>.\<close>

definition process_input :: "'dc platform \<Rightarrow> turn \<Rightarrow> cloud \<Rightarrow> (thread_pc \<times> cloud) option" where
  "process_input P t s =
     (case (if POLLIN t
            then let (err, s) = ext (env P) Mqtt_input s in map_option (\<lambda>s. (err, s)) (handle_events P (input_events t) s)
            else Some (0, s)) of
        None \<Rightarrow> None
      | Some (err, s) \<Rightarrow>
          Some (if err \<noteq> 0 \<or> POLLERR t \<or> POLLNVAL t then (Waiting, emit Mqtt_abort s) else (Serving, s)))"

definition process_serve :: "'dc platform \<Rightarrow> turn \<Rightarrow> cloud \<Rightarrow> (thread_pc \<times> cloud) option" where
  "process_serve P t s =
     (if cloud_state_s s \<noteq> cloud_state_connected then Some (Waiting, s)
      else
        let (err, s) = ext (env P) Poll (emit Wdt_feed s) in
        if err < 0 then Some (Waiting, s)
        else
          let (err, s) = ext (env P) Mqtt_live s in
          case handle_events P (live_events t) s of
            None \<Rightarrow> None
          | Some s \<Rightarrow>
              if err \<noteq> 0 \<and> err \<noteq> - EAGAIN then Some (Waiting, s)
              else process_input P t s)"

section \<open>The device's cloud client as a system\<close>

datatype cloud_event =
  Thread turn | Run work | Mqtt mqtt_evt | Fota fota_download_evt_id | Telemetry_timer | Connect | Disconnect_call
| Register bool | Publish_evt pyrinas_event | Publish_data "byte list" "byte list"
| Subscribe_app "byte list" "byte list" nat | Unsubscribe_app "byte list"

fun cloud_step :: "'dc platform \<Rightarrow> thread_pc \<times> cloud \<Rightarrow> cloud_event \<Rightarrow> (thread_pc \<times> cloud) option" where
  "cloud_step P (Waiting, s) (Thread t) = Some (process_wait P s)"
| "cloud_step P (Serving, s) (Thread t) = process_serve P t s"
| "cloud_step P (pc, s) (Run w) = map_option (Pair pc) (run_work P w s)"
| "cloud_step P (pc, s) (Mqtt e) = map_option (Pair pc) (mqtt_evt_handler P e s)"
| "cloud_step P (pc, s) (Fota e) = Some (pc, fota_evt e s)"
| "cloud_step P (pc, s) Telemetry_timer = Some (pc, telemetry_check_event s)"
| "cloud_step P (pc, s) Connect = Some (pc, snd (pyrinas_cloud_connect P s))"
| "cloud_step P (pc, s) Disconnect_call = Some (pc, snd (pyrinas_cloud_disconnect P s))"
| "cloud_step P (pc, s) (Register c) = Some (pc, pyrinas_cloud_register_state_evt c s)"
| "cloud_step P (pc, s) (Publish_evt evt) = Some (pc, snd (pyrinas_cloud_publish_evt P evt s))"
| "cloud_step P (pc, s) (Publish_data type data) = Some (pc, snd (pyrinas_cloud_publish P type data s))"
| "cloud_step P (pc, s) (Subscribe_app junk topic f) =
     map_option (\<lambda>r. (pc, snd r)) (pyrinas_cloud_subscribe P junk topic f s)"
| "cloud_step P (pc, s) (Unsubscribe_app topic) =
     map_option (\<lambda>r. (pc, snd r)) (pyrinas_cloud_unsubscribe topic s)"

section \<open>Facts on the parts\<close>

named_theorems cloud_defs "definitions of the cloud client's small operations"

lemmas [cloud_defs] = ext_def emit_def notify_ota_def notify_cloud_def rand_id_def subscribe_def data_publish_def Let_def

text \<open>A topic in memory is compared with the OTA topic over the length of the latter.\<close>

definition is_ota_topic :: "byte list \<Rightarrow> cloud \<Rightarrow> bool" where
  "is_ota_topic topic_mem s \<longleftrightarrow> strncmp (ota_sub_topic s) topic_mem (length (ota_sub_topic s)) = 0"

lemma is_ota_topic_append: "0 \<notin> set (ota_sub_topic s) \<Longrightarrow> is_ota_topic (ota_sub_topic s @ rest) s"
  unfolding is_ota_topic_def by (subst strncmp_take) (simp add: strncmp_eq_0_iff)

lemma handler_update:
  assumes "is_ota_topic topic_mem s"
    and "decode_ota_data (dec P) (stack_temp P) (ota_data_s s) (Decode_Init P data) = Some (0, od)"
    and "ver_comp (pyrinas_version P) (version od) = 1"
  shows "publish_evt_handler P topic_mem n data s =
    Some (emit (Submit_delayed fota_work 5) (notify_ota (s\<lparr>initial_ota_check := True, ota_data_s := od,
      ota_state_s := ota_state_started\<rparr>)))"
  using assms by (simp add: publish_evt_handler_def is_ota_topic_def)

lemma handler_no_update:
  assumes "is_ota_topic topic_mem s"
    and "decode_ota_data (dec P) (stack_temp P) (ota_data_s s) (Decode_Init P data) = Some (err, od)"
    and "err \<noteq> 0 \<or> ver_comp (pyrinas_version P) (version od) \<noteq> 1"
  shows "\<exists>s' tr. publish_evt_handler P topic_mem n data s = Some s' \<and>
    s' = s\<lparr>initial_ota_check := True, ota_data_s := od, calls := calls s @ tr\<rparr> \<and>
    map fst tr = (if ota_state_s s = ota_state_ready
      then [Submit ota_done_work, Sys_rand32_get,
            Mqtt_subscribe (application_sub_topic s) (word_of_int (env P (calls s @ [(Submit ota_done_work, 0)]) Sys_rand32_get))] @
           (if ota_cb s then [Ota_state_callback ota_state_ready] else [])
      else [])"
  using assms by (auto simp: publish_evt_handler_def is_ota_topic_def cloud_defs)

section \<open>OTA properties\<close>


text \<open>
  The offer that has been accepted is not the one that is downloaded: any OTA message that arrives in
  the five seconds before the download starts replaces host and file, although it is refused, be it an
  older version or one that does not even decode. The download then fetches what the refused message named.
\<close>

theorem refused_offer_is_downloaded:
  assumes "is_ota_topic topic_mem s"
    and "decode_ota_data (dec P) (stack_temp P) (ota_data_s s) (Decode_Init P data1) = Some (0, od1)"
    and "ver_comp (pyrinas_version P) (version od1) = 1"
    and "decode_ota_data (dec P) (stack_temp P) od1 (Decode_Init P data2) = Some (err, od2)"
    and "err \<noteq> 0 \<or> ver_comp (pyrinas_version P) (version od2) \<noteq> 1"
  shows "\<exists>s1 s2. publish_evt_handler P topic_mem n data1 s = Some s1 \<and>
    publish_evt_handler P topic_mem n data2 s1 = Some s2 \<and> calls s2 = calls s1 \<and>
    Fota_download_start (host_string od2) (file_string od2) (HTTPS_SEC_TAG (cfg P))
      \<in> set (map fst (calls (fota_start_fn P s2)))"
proof -
  define s1 where "s1 = emit (Submit_delayed fota_work 5) (notify_ota (s\<lparr>initial_ota_check := True, ota_data_s := od1,
      ota_state_s := ota_state_started\<rparr>))"
  have 1: "publish_evt_handler P topic_mem n data1 s = Some s1"
    unfolding s1_def by (rule handler_update [OF assms(1-3)])
  have s1: "ota_data_s s1 = od1" "ota_state_s s1 = ota_state_started" "ota_sub_topic s1 = ota_sub_topic s"
    by (simp_all add: s1_def cloud_defs)
  then have "is_ota_topic topic_mem s1" using assms(1) by (simp add: is_ota_topic_def)
  from handler_no_update [OF this _ assms(5), of data2 n] assms(4) s1
  have 2: "publish_evt_handler P topic_mem n data2 s1 = Some (s1\<lparr>initial_ota_check := True, ota_data_s := od2\<rparr>)"
    by auto
  show ?thesis using 1 2 by (simp add: fota_start_fn_def cloud_defs)
qed

subsection \<open>At work\<close>

text \<open>
  The example device runs 1.0.0.0. The payload \<open>[1]\<close> is an offer of 1.2.3.4 from the host \<open>ab\<close>, every other one
  an offer of 0.2.3.4 from the host \<open>ef\<close>.
\<close>

definition old_msg :: ota_msg where
  "old_msg = example_msg\<lparr>msg_numbers := [0, 2, 3, 4], msg_host := Some [101, 102]\<rparr>"

definition offers :: "(ota_msg \<times> dec_pos) option platform" where
  "offers = example_platform\<lparr>Decode_Init := (\<lambda>d. Some (if d = [1] then example_msg else old_msg, At_start))\<rparr>"

lemma offers_simps:
  "decoder_laws (dec offers) (\<lambda>dc. dc)" "ver_wf (pyrinas_version offers)" "stack_temp offers = 0"
  "Decode_Init offers [1] = Some (example_msg, At_start)" "Decode_Init offers [2] = Some (old_msg, At_start)"
  "ota_data_wf (ota_data_s example_cloud)" "msg_wf old_msg"
  "numbers (pyrinas_version offers) = Ver_Num 1 0 0 0"
  using example_decoder_laws example_wf
  by (simp_all add: offers_def example_platform_def ver_wf_def example_cloud_def old_msg_def msg_wf_def numbers_def)

lemma example_ota_topic: "is_ota_topic (replicate 15 49 @ [47, 115]) example_cloud"
  using is_ota_topic_append [of example_cloud "[]"] by (simp add: example_cloud_def)

lemma msg_versions:
  "numbers (msg_version example_msg) = Ver_Num 1 2 3 4" "numbers (msg_version old_msg) = Ver_Num 0 2 3 4"
  by (simp_all add: numbers_def msg_version_def example_msg_def old_msg_def)

lemma msg_fields:
  "msg_host example_msg = Some [97, 98]" "msg_file example_msg = Some [99]" "msg_force example_msg = Some True"
  "msg_host old_msg = Some [101, 102]" "msg_file old_msg = Some [99]" "msg_force old_msg = Some True"
  by (simp_all add: example_msg_def old_msg_def)


theorem refused_offer_is_downloaded_witness:
  "\<exists>s1 s2. publish_evt_handler offers (replicate 15 49 @ [47, 115]) 17 [1] example_cloud = Some s1 \<and>
     publish_evt_handler offers (replicate 15 49 @ [47, 115]) 17 [2] s1 = Some s2 \<and>
     (\<exists>f t. Fota_download_start [101, 102] f t \<in> set (map fst (calls (fota_start_fn offers s2))))"
proof -
  let ?od1 = "\<lparr>version = msg_version example_msg, host = 97 # 98 # replicate 126 0, file = 99 # replicate 127 0, force = True\<rparr>"
  let ?od2 = "\<lparr>version = msg_version old_msg, host = 101 # 102 # replicate 126 0, file = 99 # replicate 127 0, force = True\<rparr>"
  have d: "drop (Suc 0) (replicate 128 (0 :: byte)) = replicate 127 0" "drop 2 (replicate 128 (0 :: byte)) = replicate 126 0"
    by simp_all
  have 1: "decode_ota_data (dec offers) (stack_temp offers) (ota_data_s example_cloud) (Decode_Init offers [1]) = Some (0, ?od1)"
    using decode_cases [OF offers_simps(1,4) example_wf(1) offers_simps(6)] msg_fields d
    by (simp add: example_cloud_def example_ota_def)
  have wf: "ota_data_wf ?od1" by (simp add: ota_data_wf_def ver_wf_def msg_version_def example_msg_def)
  have 2: "decode_ota_data (dec offers) (stack_temp offers) ?od1 (Decode_Init offers [2]) = Some (0, ?od2)"
    using decode_cases [OF offers_simps(1,5,7) wf] msg_fields d by simp
  have v: "ver_comp (pyrinas_version offers) (version ?od1) = 1" "ver_comp (pyrinas_version offers) (version ?od2) \<noteq> 1"
    using offers_simps(2) by (simp_all add: ver_comp_1_iff ver_wf_def msg_version_def example_msg_def old_msg_def is_update_def
        numbers_def less_ver_num_def offers_def example_platform_def)
  have "host_string ?od2 = [101, 102]"
  proof -
    have "replicate 126 (0 :: byte) = 0 # replicate 125 0" by (simp add: eval_nat_numeral)
    then show ?thesis by (simp add: host_string_def c_string_def)
  qed
  then show ?thesis
    using refused_offer_is_downloaded [OF example_ota_topic 1 v(1) 2 disjI2 [OF v(2)], of 17]
    by (fastforce simp del: set_map)
qed

end
