(* ===== verification/Cloud_Relation.thy ===== *)
theory Cloud_Relation
  imports Pyrinas_Cloud
begin

text \<open>
  What the functions of the cloud client have in common: each of them is a sequence of a few kinds of moves. A reflexive and
  transitive relation that these moves keep is kept by every function, and so by every step of the client
  that is not itself about an update. The locale \<open>quiet_relation\<close> states the moves of a client that hears no OTA message,
  and \<open>client_relation\<close> adds those of its handler; \<open>Cloud_Safety\<close>
  interprets it for the application's view of the connection, \<open>Cloud_Ota\<close> for the life of an update.
\<close>

section \<open>The moves\<close>

text \<open>Work that belongs to an update, and calls that neither publish, nor tell the application something, nor belong to an update.\<close>

fun ota_work :: "work \<Rightarrow> bool" where
  "ota_work fota_work = True"
| "ota_work ota_reboot_work = True"
| "ota_work w = False"

lemma ota_work_iff: "ota_work w \<longleftrightarrow> w = fota_work \<or> w = ota_reboot_work"
  by (cases w) auto

fun ordinary :: "cloud_call \<Rightarrow> bool" where
  "ordinary (Mqtt_publish t d i) = False"
| "ordinary (Ota_state_callback st) = False"
| "ordinary (Cloud_state_callback st) = False"
| "ordinary (Submit w) = (\<not> ota_work w)"
| "ordinary (Submit_system w) = (\<not> ota_work w)"
| "ordinary (Submit_delayed w n) = (\<not> ota_work w)"
| "ordinary (Fota_download_start h f t) = False"
| "ordinary Sys_reboot = False"
| "ordinary c = True"

text \<open>The members that a routine step does not write without further ado.\<close>

definition same_members :: "cloud \<Rightarrow> cloud \<Rightarrow> bool" where
  "same_members s s' \<longleftrightarrow> calls s' = calls s \<and> cloud_state_s s' = cloud_state_s s \<and> ota_state_s s' = ota_state_s s \<and>
     ota_data_s s' = ota_data_s s \<and> ota_cb s' = ota_cb s \<and> state_cb s' = state_cb s"

text \<open>The events that are not about an update, and do not change who is told.\<close>

fun routine :: "cloud_event \<Rightarrow> bool" where
  "routine (Run w) = (\<not> ota_work w)"
| "routine (Fota e) = False"
| "routine (Register c) = False"
| "routine e = True"

text \<open>The messages and reports of the broker that a step handles, and those that the handler of offers does not see.\<close>

fun heard :: "cloud_event \<Rightarrow> mqtt_evt set" where
  "heard (Thread t) = set (live_events t) \<union> set (input_events t)"
| "heard (Mqtt e) = {e}"
| "heard e = {}"

fun no_offer :: "cloud \<Rightarrow> mqtt_evt \<Rightarrow> bool" where
  "no_offer s (Publish t n d k q i) = (\<not> is_ota_topic t s)"
| "no_offer s e = True"

text \<open>A relation that the handling of these messages keeps.\<close>

definition kept_by :: "(cloud \<Rightarrow> cloud \<Rightarrow> bool) \<Rightarrow> 'dc platform \<Rightarrow> mqtt_evt set \<Rightarrow> bool" where
  "kept_by R P M \<longleftrightarrow> (\<forall>m \<in> M. \<forall>s s'. mqtt_evt_handler P m s = Some s' \<longrightarrow> R s s')"

lemma kept_by_mono: "kept_by R P M \<Longrightarrow> N \<subseteq> M \<Longrightarrow> kept_by R P N"
  by (auto simp: kept_by_def)

text \<open>A step that no offer comes with: none in a round of the thread, none on its own.\<close>

fun without_offer :: "cloud \<Rightarrow> cloud_event \<Rightarrow> bool" where
  "without_offer s (Mqtt m) = no_offer s m"
| "without_offer s e = (\<forall>m \<in> heard e. \<forall>x. no_offer x m)"

lemma payload_topic: "publish_get_payload P data n s = Some (r, s1) \<Longrightarrow> ota_sub_topic s1 = ota_sub_topic s"
proof -
  assume "publish_get_payload P data n s = Some (r, s1)"
  then obtain tr where "s1 = s\<lparr>payload_buf := payload_buf s1, calls := calls s @ tr\<rparr>"
    using publish_get_payload_frame by blast
  then have "ota_sub_topic s1 = ota_sub_topic (s\<lparr>payload_buf := payload_buf s1, calls := calls s @ tr\<rparr>)" by (rule arg_cong)
  then show ?thesis by simp
qed

locale quiet_relation =
  fixes R :: "cloud \<Rightarrow> cloud \<Rightarrow> bool"
  assumes members: "same_members s s' \<Longrightarrow> R s s'"
    and trans: "R s1 s2 \<Longrightarrow> R s2 s3 \<Longrightarrow> R s1 s3"
    and ordinary_call: "ordinary c \<Longrightarrow> R s (s\<lparr>calls := calls s @ [(c, r)]\<rparr>)"
    and publish_call: "cloud_state_s s = cloud_state_connected \<Longrightarrow> R s (s\<lparr>calls := calls s @ [(Mqtt_publish t d i, r)]\<rparr>)"
    and connection: "R s (notify_cloud (s\<lparr>cloud_state_s := st\<rparr>))"
    and tells_ota: "R s (notify_ota s)"
begin

named_theorems ops "operations that keep the relation"

lemma refl [simp, ops]: "R s s"
  by (rule members) (simp add: same_members_def)

lemma ext: "ordinary c \<Longrightarrow> R s (snd (ext E c s))"
  by (simp add: ext_def ordinary_call)

lemma emits: "ordinary c \<Longrightarrow> R s (emit c s)"
  by (simp add: emit_def ordinary_call)

lemma then_ext: "R s s1 \<Longrightarrow> ordinary c \<Longrightarrow> R s (snd (ext E c s1))"
  by (blast intro: trans ext)

lemma then_emit: "R s s1 \<Longrightarrow> ordinary c \<Longrightarrow> R s (emit c s1)"
  by (blast intro: trans emits)

lemma then_members: "R s s1 \<Longrightarrow> same_members s1 s2 \<Longrightarrow> R s s2"
  by (blast intro: trans members)

lemma set_message_id: "R s (s\<lparr>ota_sub_message_id := i\<rparr>)"
  by (rule members) (simp add: same_members_def)

lemma data_publish [ops]: "R s (snd (data_publish P topic data i s))"
  by (simp add: data_publish_def ext_def publish_call)

lemma rand_id [ops]: "R s (snd (rand_id P s))"
  by (simp add: rand_id_def case_prod_beta ext)

lemma subscribe [ops]: "R s (snd (subscribe P topic i s))"
  by (simp add: subscribe_def ext)

lemma telemetry [ops]: "R s (publish_telemetry P v s)"
  by (simp add: publish_telemetry_def case_prod_beta Let_def) (meson trans ops)

lemma ota_request [ops]: "R s (publish_ota_request P c s)"
  by (simp add: publish_ota_request_def case_prod_beta Let_def) (meson trans ops)

lemma telemetry_evt [ops]: "R s (snd (pyrinas_cloud_publish_telemetry_evt P evt s))"
  by (simp add: pyrinas_cloud_publish_telemetry_evt_def case_prod_beta Let_def) (meson trans ops)

lemma publish_evt [ops]: "R s (snd (pyrinas_cloud_publish_evt P evt s))"
  by (simp add: pyrinas_cloud_publish_evt_def case_prod_beta Let_def) (meson trans ops)

lemma publish [ops]: "R s (snd (pyrinas_cloud_publish P type data s))"
  by (simp add: pyrinas_cloud_publish_def case_prod_beta Let_def) (meson trans ops)

section \<open>Messages\<close>

text \<open>Several ordinary calls in a row.\<close>

lemma ordinary_calls: "\<forall>c \<in> set tr. ordinary (fst c) \<Longrightarrow> R s (s\<lparr>calls := calls s @ tr\<rparr>)"
proof (induction tr rule: rev_induct)
  case (snoc c tr)
  have "R (s\<lparr>calls := calls s @ tr\<rparr>) (s\<lparr>calls := calls s @ tr @ [c]\<rparr>)"
    using ordinary_call [of "fst c" "s\<lparr>calls := calls s @ tr\<rparr>" "snd c"] snoc.prems by simp
  then show ?case using snoc by (auto intro: trans)
qed simp

lemma payload:
  assumes "publish_get_payload P data n s = Some (r, s')"
  shows "R s s'"
proof -
  obtain tr where tr: "s' = s\<lparr>payload_buf := payload_buf s', calls := calls s @ tr\<rparr>"
    "\<forall>c \<in> set tr. \<exists>n. fst c = Read_payload n"
    using publish_get_payload_frame [OF assms] by blast
  have "R s (s\<lparr>calls := calls s @ tr\<rparr>)" using tr(2) by (intro ordinary_calls) force
  moreover have "same_members (s\<lparr>calls := calls s @ tr\<rparr>) s'" by (subst tr(1)) (simp add: same_members_def)
  ultimately show ?thesis by (rule then_members)
qed

lemma dispatch: "dispatch_loop t n d ps s = Some s' \<Longrightarrow> R s s'"
  by (induction t n d ps s rule: dispatch_loop.induct) (auto intro: emits split: option.splits if_splits)

lemma other_handler: "publish_evt_handler P t n d s = Some s' \<Longrightarrow> \<not> is_ota_topic t s \<Longrightarrow> R s s'"
  using dispatch by (simp add: publish_evt_handler_def is_ota_topic_def)

text \<open>The MQTT events, whatever the handler of messages does.\<close>

lemma mqtt_with:
  assumes "mqtt_evt_handler P e s = Some s'"
    and "\<And>t n d k q i x x'. e = Publish t n d k q i \<Longrightarrow> ota_sub_topic x = ota_sub_topic s \<Longrightarrow>
      publish_evt_handler P t n (take k (payload_buf x)) x = Some x' \<Longrightarrow> R x x'"
  shows "R s s'"
proof (cases e)
  case (Connack result)
  then show ?thesis using assms(1) connection by (auto intro!: then_emit split: if_splits)
next
  case (Disconnect result)
  then show ?thesis using assms(1) trans [OF emits connection] by (auto simp: on_disconnect_def)
next
  case (Suback result i)
  then show ?thesis using assms(1) by (auto intro!: then_emit split: if_splits)
next
  case (Publish t n d k q i)
  obtain r s1 s2 where 1: "publish_get_payload P d k s = Some (r, s1)" "s' = qos1_ack P q i s2"
    "publish_evt_handler P t n (take k (payload_buf s1)) s1 = Some s2 \<or> s2 = snd (Prelude.ext (env P) Mqtt_disconnect s1)"
    using Publish assms(1) by (auto split: option.splits if_splits)
  have "ota_sub_topic s1 = ota_sub_topic s" by (rule payload_topic [OF 1(1)])
  then have "R s1 s2" using 1(3) assms(2) [OF Publish] by (auto intro: ext)
  moreover have "R s2 s'" using 1(2) by (auto simp: qos1_ack_def intro: ext)
  ultimately show ?thesis using payload [OF 1(1)] trans by blast
qed (use assms(1) in auto)

lemma quiet_mqtt: "mqtt_evt_handler P e s = Some s' \<Longrightarrow> no_offer s e \<Longrightarrow> R s s'"
  by (rule mqtt_with) (auto simp: is_ota_topic_def intro: other_handler)

lemma events: "handle_events P es s = Some s' \<Longrightarrow> kept_by R P (set es) \<Longrightarrow> R s s'"
proof (induction es arbitrary: s)
  case (Cons e es)
  obtain x where "mqtt_evt_handler P e s = Some x" "handle_events P es x = Some s'"
    using Cons.prems(1) by (auto split: option.splits)
  then show ?case using Cons.IH [of x] Cons.prems(2) trans [of s x s'] by (simp add: kept_by_def)
qed simp

section \<open>Work, connecting, the thread\<close>

lemma on_connect [ops]: "R s (on_connect_fn P s)"
proof -
  let ?s2 = "snd (rand_id P (publish_telemetry P True s))"
  have "R s ?s2" by (rule trans [OF telemetry rand_id])
  then have "R s (snd (subscribe P t i (?s2\<lparr>ota_sub_message_id := i\<rparr>)))" for t i
    by (rule trans [OF trans [OF _ set_message_id] subscribe])
  then show ?thesis by (simp add: on_connect_fn_def Let_def case_prod_beta telemetry)
qed

lemma work: "\<not> ota_work w \<Longrightarrow> run_work P w s = Some s' \<Longrightarrow> R s s'"
  by (cases w) (auto simp: publish_ota_check_def publish_ota_done_def ota_check_subscribed_work_fn_def ops split: if_splits)

lemma get_imei [ops]: "R s (snd (get_imei P s))"
proof -
  have "R s (x\<lparr>imei := i\<rparr>)" if "R s x" for x i by (rule then_members [OF that]) (simp add: same_members_def)
  then show ?thesis by (simp add: get_imei_def case_prod_beta Let_def ext)
qed

lemma broker_loop_members: "same_members s (broker_loop c as s)"
  by (induction c as s rule: broker_loop.induct) (simp_all add: same_members_def)

lemma client_init [ops]: "R s (snd (client_init P i s))"
proof -
  let ?s1 = "snd (Prelude.ext (env P) Getaddrinfo (emit Mqtt_client_init s))"
  let ?s2 = "emit Freeaddrinfo (broker_loop (cfg P) (resolved P (calls (emit Mqtt_client_init s))) ?s1)"
  have 1: "R s ?s1" by (rule trans [OF emits ext]) simp_all
  then have 2: "R s ?s2" by (intro then_emit then_members [OF _ broker_loop_members]) simp_all
  have "R s (?s2\<lparr>client_s := c\<rparr>)" for c by (rule then_members [OF 2]) (simp add: same_members_def)
  then show ?thesis using 1 by (simp add: client_init_def broker_init_def case_prod_beta Let_def)
qed

lemma connect [ops]: "R s (snd (pyrinas_cloud_connect P s))"
proof -
  define s1 where "s1 = snd (get_imei P s)"
  define s2 where "s2 = snd (client_init P (imei s1) s1)"
  define s3 where "s3 = snd (Prelude.ext (env P) Mqtt_connect s2)"
  have 2: "R s s2" unfolding s1_def s2_def by (rule trans [OF get_imei client_init])
  then have 3: "R s s3" unfolding s3_def by (rule then_ext) simp
  then have "R s (emit K_sem_give (notify_cloud (s3\<lparr>cloud_state_s := cloud_state_connected\<rparr>)))"
    by (intro then_emit trans [OF _ connection]) simp_all
  then show ?thesis
    using 2 3 by (simp add: pyrinas_cloud_connect_def case_prod_beta Let_def s1_def [symmetric] s2_def [symmetric] s3_def [symmetric])
qed

lemma wait [ops]: "R s (snd (process_wait P s))"
proof -
  let ?s1 = "snd (Prelude.ext (env P) (K_sem_take 55) s)"
  have 1: "R s ?s1" by (rule ext) simp
  have "R s ((snd (Prelude.ext (env P) Wdt_setup ?s1))\<lparr>wdt_started_s := True\<rparr>)"
    by (rule then_members [OF then_ext [OF 1]]) (simp_all add: same_members_def)
  then show ?thesis using 1 by (simp add: process_wait_def case_prod_beta Let_def then_emit)
qed

lemma input:
  assumes "process_input P t s = Some (pc, s')"
    and "kept_by R P (set (input_events t))"
  shows "R s s'"
proof -
  obtain x where x: "x = s \<or> handle_events P (input_events t) (snd (Prelude.ext (env P) Mqtt_input s)) = Some x"
    "s' = x \<or> s' = emit Mqtt_abort x"
    using assms(1) by (auto simp: process_input_def case_prod_beta Let_def split: if_splits option.splits)
  have "R s x"
  proof (cases "x = s")
    case False
    have "R s (snd (Prelude.ext (env P) Mqtt_input s))" by (rule ext) simp
    then show ?thesis using False x events [OF _ assms(2)] x(1) trans by blast
  qed simp
  then show ?thesis using x then_emit [of s x Mqtt_abort] by auto
qed

lemma serve:
  assumes "process_serve P t s = Some (pc, s')"
    and "kept_by R P (heard (Thread t))"
  shows "R s s'"
proof (cases "cloud_state_s s = cloud_state_connected")
  case True
  let ?s1 = "snd (Prelude.ext (env P) Poll (emit Wdt_feed s))"
  let ?s2 = "snd (Prelude.ext (env P) Mqtt_live ?s1)"
  have s1: "R s ?s1" by (intro trans [OF emits ext]) simp_all
  have s2: "R s ?s2" by (rule then_ext [OF s1]) simp
  consider "s' = ?s1" | s3 where "handle_events P (live_events t) ?s2 = Some s3" "s' = s3 \<or> process_input P t s3 = Some (pc, s')"
    using assms(1) True by (auto simp: process_serve_def case_prod_beta Let_def split: if_splits option.splits)
  then show ?thesis
  proof cases
    case 2
    have "R ?s2 s3" by (rule events [OF 2(1) kept_by_mono [OF assms(2)]]) simp
    moreover have "process_input P t s3 = Some (pc, s') \<Longrightarrow> R s3 s'" by (erule input) (rule kept_by_mono [OF assms(2)], simp)
    ultimately show ?thesis using 2(2) s2 trans by blast
  qed (use s1 in simp)
qed (use assms(1) in \<open>simp add: process_serve_def\<close>)

lemma unsubscribe: "unsubscribe_loop t ps s = Some (r, s') \<Longrightarrow> R s s'"
proof (induction t ps s rule: unsubscribe_loop.induct)
  case (3 topic a ps s)
  have "R s ((emit (K_free a) s)\<lparr>heap := h\<rparr>)" for h
    by (rule then_members [OF emits]) (simp_all add: same_members_def)
  then show ?case using 3 by (auto split: option.splits if_splits)
qed simp_all

lemma subscribe_app: "pyrinas_cloud_subscribe P junk t f s = Some (r, s') \<Longrightarrow> R s s'"
proof -
  let ?s1 = "snd (Prelude.ext (env P) K_malloc s)"
  have 1: "R s (?s1\<lparr>callbacks := cs, heap := h\<rparr>)" for cs h
    by (rule then_members [OF ext]) (simp_all add: same_members_def)
  assume "pyrinas_cloud_subscribe P junk t f s = Some (r, s')"
  then have "s' = s \<or> (\<exists>cs h. s' = ?s1\<lparr>callbacks := cs, heap := h\<rparr>)"
    by (auto simp: pyrinas_cloud_subscribe_def case_prod_beta Let_def split: option.splits if_splits)
  then show ?thesis using 1 by auto
qed

text \<open>A routine step keeps the relation if the messages do that it handles.\<close>

lemma step_with:
  assumes "cloud_step P (pc, s) e = Some (pc', s')" and "routine e"
    and "kept_by R P (heard e)"
  shows "R s s'"
proof (cases e)
  case (Thread t)
  show ?thesis
  proof (cases pc)
    case Waiting
    then show ?thesis using assms(1) Thread wait [of s P] by auto
  next
    case Serving
    then have "process_serve P t s = Some (pc', s')" using assms(1) Thread by simp
    then show ?thesis by (rule serve) (use assms(3) Thread in simp)
  qed
next
  case (Mqtt m)
  then show ?thesis using assms(1,3) by (auto simp: kept_by_def)
next
  case Telemetry_timer
  then show ?thesis using assms(1) by (auto simp: telemetry_check_event_def intro!: then_emit)
qed (use assms in \<open>auto simp: pyrinas_cloud_disconnect_def pyrinas_cloud_unsubscribe_def ops ext
    dest: work unsubscribe subscribe_app\<close>)

lemma quiet_step:
  assumes "cloud_step P (pc, s) e = Some (pc', s')" and "routine e" and "without_offer s e"
  shows "R s s'"
proof (cases "\<exists>m. e = Mqtt m")
  case True
  then show ?thesis using assms quiet_mqtt by auto
next
  case False
  then have "\<forall>m \<in> heard e. \<forall>x. no_offer x m" using assms(3) by (cases e) auto
  then have "kept_by R P (heard e)" using quiet_mqtt unfolding kept_by_def by blast
  then show ?thesis by (rule step_with [OF assms(1,2)])
qed

declare refl [simp del]

end

section \<open>With offers\<close>

locale client_relation = quiet_relation +
  assumes stores: "R s (s\<lparr>initial_ota_check := True, ota_data_s := od\<rparr>)"
    and accepts: "R s (emit (Submit_delayed fota_work 5) (notify_ota (s\<lparr>ota_state_s := ota_state_started\<rparr>)))"
begin

lemma handler:
  assumes "publish_evt_handler P t n d s = Some s'"
  shows "R s s'"
proof (cases "is_ota_topic t s")
  case False
  then show ?thesis using assms dispatch by (simp add: publish_evt_handler_def is_ota_topic_def)
next
  case True
  then obtain err od where d: "decode_ota_data (dec P) (stack_temp P) (ota_data_s s) (Decode_Init P d) = Some (err, od)"
    using assms by (auto simp: publish_evt_handler_def is_ota_topic_def split: option.splits)
  define x where "x = s\<lparr>initial_ota_check := True, ota_data_s := od\<rparr>"
  have x: "R s x" unfolding x_def by (rule stores)
  consider "s' = emit (Submit_delayed fota_work 5) (notify_ota (x\<lparr>ota_state_s := ota_state_started\<rparr>))"
    | i where "s' = notify_ota (snd (subscribe P (application_sub_topic x) i (snd (rand_id P (emit (Submit ota_done_work) x)))))"
    | "s' = x"
    using assms True d
    by (auto simp: publish_evt_handler_def is_ota_topic_def x_def case_prod_beta Let_def rand_id_def subscribe_def ext_def emit_def
        split: if_splits)
  then show ?thesis
  proof cases
    case 2
    have "R x (snd (rand_id P (emit (Submit ota_done_work) x)))" by (rule trans [OF emits rand_id]) simp
    then show ?thesis unfolding 2 using x trans subscribe tells_ota by blast
  qed (use x accepts trans in blast)+
qed

lemma mqtt: "mqtt_evt_handler P e s = Some s' \<Longrightarrow> R s s'"
  by (rule mqtt_with) (auto intro: handler)

text \<open>Every routine step keeps the relation.\<close>

lemma step: "cloud_step P (pc, s) e = Some (pc', s') \<Longrightarrow> routine e \<Longrightarrow> R s s'"
  by (rule step_with) (auto simp: kept_by_def intro: mqtt)

end

end
