(* ===== verification/Cloud_Safety.thy ===== *)
theory Cloud_Safety
  imports Cloud_Relation
begin

text \<open>
  The cloud client of \<open>Pyrinas_Cloud\<close> over whole runs: what the application is told of the connection, when
  something is published, acknowledgements, the connection itself, the thread after an error, and the conditions
  under which the client never leaves defined behaviour.
\<close>

section \<open>The application's view of the connection\<close>

text \<open>The state last told to the application, and whether every publication falls in a connected phase as it was told.\<close>

fun told1 :: "cloud_state \<Rightarrow> cloud_call \<Rightarrow> cloud_state" where
  "told1 st (Cloud_state_callback x) = x"
| "told1 st c = st"

fun told :: "cloud_state \<Rightarrow> cloud_call list \<Rightarrow> cloud_state" where
  "told st [] = st"
| "told st (c # cs) = told (told1 st c) cs"

fun is_publish :: "cloud_call \<Rightarrow> bool" where
  "is_publish (Mqtt_publish t d i) = True"
| "is_publish c = False"

fun publishes_ok :: "cloud_state \<Rightarrow> cloud_call list \<Rightarrow> bool" where
  "publishes_ok st [] = True"
| "publishes_ok st (c # cs) =
     ((is_publish c \<longrightarrow> st = cloud_state_connected) \<and> publishes_ok (told1 st c) cs)"

lemma told_append [simp]: "told st (xs @ ys) = told (told st xs) ys"
  by (induction xs arbitrary: st) auto

lemma publishes_ok_append [simp]: "publishes_ok st (xs @ ys) \<longleftrightarrow> publishes_ok st xs \<and> publishes_ok (told st xs) ys"
  by (induction xs arbitrary: st) auto

text \<open>What every operation of the client does to the trace and the connection.\<close>

definition follows :: "cloud \<Rightarrow> cloud \<Rightarrow> bool" where
  "follows s s' \<longleftrightarrow> state_cb s' = state_cb s \<and>
     (\<exists>tr. calls s' = calls s @ tr \<and>
       (state_cb s \<longrightarrow> told (cloud_state_s s) (map fst tr) = cloud_state_s s' \<and>
          publishes_ok (cloud_state_s s) (map fst tr)))"

lemma follows_refl [simp]: "follows s s"
  by (simp add: follows_def)

lemma follows_trans: "follows s1 s2 \<Longrightarrow> follows s2 s3 \<Longrightarrow> follows s1 s3"
  by (fastforce simp: follows_def)

lemma ordinary_quiet: "ordinary c \<Longrightarrow> \<not> is_publish c \<and> told1 st c = st"
  by (cases c) auto

interpretation following: client_relation follows
proof unfold_locales
  show "follows s (s\<lparr>calls := calls s @ [(c, r)]\<rparr>)" if "ordinary c" for s c r
    using ordinary_quiet [OF that] by (simp add: follows_def)
qed (auto simp: follows_def same_members_def cloud_defs intro: follows_trans)

lemmas follows_connect = following.connect

text \<open>The steps of an update neither publish nor touch the connection.\<close>

lemma follows_fota: "follows s (fota_evt e s)"
  by (cases e) (auto simp: follows_def cloud_defs)

lemma follows_fota_start: "follows s (fota_start_fn P s)"
  by (auto simp: fota_start_fn_def follows_def cloud_defs)

lemma follows_reboot: "follows s (reboot_work_fn s)"
  by (auto simp: reboot_work_fn_def follows_def cloud_defs)

text \<open>A step of the client, unless the application takes its callback away.\<close>

lemma follows_step:
  assumes "cloud_step P (pc, s) e = Some (pc', s')" and "\<forall>c. e \<noteq> Register c"
  shows "follows s s'"
proof (cases "routine e")
  case True
  then show ?thesis using following.step assms(1) by blast
next
  case False
  then consider e' where "e = Fota e'" | w where "e = Run w" "ota_work w" using assms(2) by (cases e) auto
  then show ?thesis
    using assms(1) by cases (auto simp: follows_fota follows_fota_start follows_reboot ota_work_iff)
qed

text \<open>
  C10. Over every run in which the application leaves its callback registered, the state it was last told is the
  state of the connection, and everything that is published is published while the last word to the
  application was that it is connected.
\<close>

theorem application_sees_connection:
  assumes "exec (cloud_step P) (pc, s) es = Some (pc', s')" and "state_cb s" and "\<forall>c. Register c \<notin> set es"
  shows "\<exists>tr. calls s' = calls s @ tr \<and> told (cloud_state_s s) (map fst tr) = cloud_state_s s' \<and>
    publishes_ok (cloud_state_s s) (map fst tr)"
proof -
  have "follows (snd (pc, s)) (snd (pc', s'))"
  proof (rule exec_lift [where A = "{e. \<forall>c. e \<noteq> Register c}" and R = "\<lambda>x y. follows (snd x) (snd y)", OF _ _ _ _ assms(1)])
    show "follows (snd x) (snd y)" if "e \<in> {e. \<forall>c. e \<noteq> Register c}" "cloud_step P x e = Some y" for x e y
      using that follows_step [of P "fst x" "snd x" e "fst y" "snd y"] by simp
  qed (use assms(3) in \<open>auto intro: follows_trans following.refl\<close>)
  then show ?thesis using assms(2) by (simp add: follows_def)
qed

section \<open>Acknowledgements\<close>

text \<open>The calls that a function adds to the trace all satisfy a condition.\<close>

definition adds :: "(cloud_call \<Rightarrow> bool) \<Rightarrow> cloud \<Rightarrow> cloud \<Rightarrow> bool" where
  "adds Q s s' \<longleftrightarrow> (\<exists>tr. calls s' = calls s @ tr \<and> list_all Q (map fst tr))"

lemma adds_refl [simp]: "adds Q s s"
  by (simp add: adds_def)

lemma adds_trans: "adds Q s1 s2 \<Longrightarrow> adds Q s2 s3 \<Longrightarrow> adds Q s1 s3"
  unfolding adds_def by (metis append_assoc list_all_append map_append)

fun is_ack :: "cloud_call \<Rightarrow> bool" where
  "is_ack (Mqtt_publish_qos1_ack i) = True"
| "is_ack c = False"

lemma no_ack_dispatch: "dispatch_loop t n d ps s = Some s' \<Longrightarrow> adds (\<lambda>c. \<not> is_ack c) s s'"
  by (induction t n d ps s rule: dispatch_loop.induct) (auto simp: adds_def emit_def split: option.splits if_splits)

lemma no_ack_handler:
  assumes "publish_evt_handler P t n d s = Some s'"
  shows "adds (\<lambda>c. \<not> is_ack c) s s'"
proof (cases "is_ota_topic t s")
  case False
  then show ?thesis using assms no_ack_dispatch by (simp add: publish_evt_handler_def is_ota_topic_def)
next
  case True
  then show ?thesis
    using assms by (auto simp: publish_evt_handler_def is_ota_topic_def adds_def cloud_defs split: option.splits if_splits)
qed

lemma no_ack_payload:
  assumes "publish_get_payload P d k s = Some (r, s')"
  shows "adds (\<lambda>c. \<not> is_ack c) s s'"
proof -
  obtain tr where tr: "s' = s\<lparr>payload_buf := payload_buf s', calls := calls s @ tr\<rparr>"
    "\<forall>c \<in> set tr. \<exists>n. fst c = Read_payload n"
    using publish_get_payload_frame [OF assms] by blast
  have "calls s' = calls s @ tr" by (subst tr(1), simp)
  moreover have "list_all (\<lambda>c. \<not> is_ack c) (map fst tr)" using tr(2) by (force simp: list_all_iff)
  ultimately show ?thesis unfolding adds_def by blast
qed

text \<open>
  C30. Every message of quality of service 1 is acknowledged exactly once, with its own number, and after
  everything else is done with it, also when its payload could not be read and the client is being
  disconnected; no other message is acknowledged.
\<close>

theorem message_acknowledged_once:
  assumes "mqtt_evt_handler P (Publish t n d k q i) s = Some s'"
  shows "\<exists>tr. calls s' = calls s @ tr \<and>
    filter is_ack (map fst tr) = (if q = 1 then [Mqtt_publish_qos1_ack i] else []) \<and>
    (q = 1 \<longrightarrow> fst (last tr) = Mqtt_publish_qos1_ack i)"
proof -
  obtain r s1 s2 where 1: "publish_get_payload P d k s = Some (r, s1)" "s' = qos1_ack P q i s2"
    "publish_evt_handler P t n (take k (payload_buf s1)) s1 = Some s2 \<or> s2 = snd (ext (env P) Mqtt_disconnect s1)"
    using assms by (auto split: option.splits if_splits)
  have "adds (\<lambda>c. \<not> is_ack c) s1 s2" using 1(3) no_ack_handler by (auto simp: adds_def)
  then have "adds (\<lambda>c. \<not> is_ack c) s s2" using no_ack_payload [OF 1(1)] adds_trans by blast
  then obtain tr where tr: "calls s2 = calls s @ tr" "list_all (\<lambda>c. \<not> is_ack c) (map fst tr)" by (auto simp: adds_def)
  then have "filter is_ack (map fst tr) = []" by (simp add: filter_empty_conv list_all_iff)
  then show ?thesis using tr(1) 1(2) by (auto simp: qos1_ack_def filter_map)
qed

section \<open>Starting up\<close>

text \<open>
  After connecting, a device that is not updating sends its telemetry and subscribes to its OTA topic under a fresh number; the
  acknowledgement of that number, and only of it, makes it ask for an update on its OTA topic and
  start the check that the server has answered, which fails if no OTA message has come by then.
\<close>

theorem startup_asks_for_update:
  assumes "cloud_state_s s = cloud_state_connected" and "ota_state_s s = ota_state_ready" and "\<not> initial_ota_check s"
  shows "\<exists>i j s2 s3. fst (last (calls (on_connect_fn P s))) = Mqtt_subscribe (ota_sub_topic s) i \<and>
    mqtt_evt_handler P (Suback 0 i) (on_connect_fn P s) = Some s2 \<and>
    map fst (calls s2) = map fst (calls (on_connect_fn P s)) @ [Submit ota_request_work, Submit_delayed ota_check_subscribed_work 5] \<and>
    run_work P ota_request_work s2 = Some s3 \<and>
    fst (last (calls s3)) = Mqtt_publish (ota_pub_topic s) (encoded (encode_ota_request (enc P) ota_cmd_type_check 10)) j \<and>
    run_work P ota_check_subscribed_work s3 = None \<and>
    (\<forall>k. k \<noteq> i \<longrightarrow> mqtt_evt_handler P (Suback 0 k) (on_connect_fn P s) = Some (on_connect_fn P s))"
  using assms
  by (auto simp: on_connect_fn_def publish_telemetry_def publish_ota_check_def publish_ota_request_def
      ota_check_subscribed_work_fn_def cloud_defs split: prod.splits if_splits)

section \<open>The address of the broker\<close>

text \<open>
  Only the first address that the resolver gives is looked at: if that is not an IPv4 address the client
  connects all the same, to whatever address it had before (none on the first attempt), although an
  IPv4 address may follow in the list.
\<close>

theorem connects_without_an_address:
  assumes "cloud_state_s s \<noteq> cloud_state_connected" and "\<forall>h. env P h Getaddrinfo = 0 \<and> env P h Mqtt_connect = 0"
    and "\<forall>h. resolved P h = (len, a) # rest" and "len \<noteq> sizeof_sockaddr_in"
  shows "fst (pyrinas_cloud_connect P s) = 0 \<and> broker (snd (pyrinas_cloud_connect P s)) = broker s \<and>
    Mqtt_connect \<in> set (map fst (calls (snd (pyrinas_cloud_connect P s)))) \<and>
    cloud_state_s (snd (pyrinas_cloud_connect P s)) = cloud_state_connected"
  using assms
  by (auto simp: pyrinas_cloud_connect_def get_imei_def client_init_def broker_init_def cloud_defs)

section \<open>The thread after an error\<close>

text \<open>
  The count of the thread's semaphore (at most 1) after a history, and what the kernel promises of it: taking it
  does not succeed while the count is 0.
\<close>

fun sem1 :: "cloud_call \<times> int \<Rightarrow> nat \<Rightarrow> nat" where
  "sem1 (K_sem_give, r) n = 1"
| "sem1 (K_sem_take t, r) n = (if r = 0 then 0 else n)"
| "sem1 (c, r) n = n"

definition sem_count :: "(cloud_call \<times> int) list \<Rightarrow> nat" where
  "sem_count h = fold sem1 h 0"

definition sem_laws :: "'dc platform \<Rightarrow> bool" where
  "sem_laws P \<longleftrightarrow> (\<forall>h t. sem_count h = 0 \<longrightarrow> env P h (K_sem_take t) \<noteq> 0)"

text \<open>Nothing but the thread and attempts to connect again.\<close>

definition retries :: "cloud_event set" where
  "retries = {e. e = Connect \<or> (\<exists>t. e = Thread t)}"

fun is_thread :: "cloud_event \<Rightarrow> bool" where
  "is_thread (Thread t) = True"
| "is_thread e = False"

definition stalled :: "cloud \<Rightarrow> bool" where
  "stalled s \<longleftrightarrow> cloud_state_s s = cloud_state_connected \<and> wdt_started_s s \<and> sem_count (calls s) = 0"

lemma stalled_wait:
  assumes "sem_laws P" and "stalled s"
  shows "\<exists>s' r. process_wait P s = (Waiting, s') \<and> stalled s' \<and> calls s' = calls s @ [(K_sem_take 55, r), (Wdt_feed, 0)]"
proof -
  have "env P (calls s) (K_sem_take 55) \<noteq> 0" using assms by (simp add: sem_laws_def stalled_def)
  then show ?thesis using assms(2) by (simp add: process_wait_def cloud_defs stalled_def sem_count_def)
qed

lemma stalled_run:
  assumes "sem_laws P"
  shows "set es \<subseteq> retries \<Longrightarrow> stalled s \<Longrightarrow>
    \<exists>s' tr. exec (cloud_step P) (Waiting, s) es = Some (Waiting, s') \<and> stalled s' \<and> calls s' = calls s @ tr \<and>
      map fst tr = concat (map (\<lambda>e. [K_sem_take 55, Wdt_feed]) (filter is_thread es))"
proof (induction es arbitrary: s)
  case (Cons e es)
  show ?case
  proof (cases "is_thread e")
    case True
    then obtain t where e: "e = Thread t" by (cases e) auto
    obtain s1 r where s1: "process_wait P s = (Waiting, s1)" "stalled s1" "calls s1 = calls s @ [(K_sem_take 55, r), (Wdt_feed, 0)]"
      using stalled_wait [OF assms Cons.prems(2)] by blast
    then show ?thesis using Cons.IH [OF _ s1(2)] Cons.prems(1) e by auto
  next
    case False
    then have e: "e = Connect" using Cons.prems(1) by (auto simp: retries_def)
    then have "cloud_step P (Waiting, s) e = Some (Waiting, s)"
      using Cons.prems(2) by (simp add: pyrinas_cloud_connect_def stalled_def)
    then show ?thesis using Cons.IH [OF _ Cons.prems(2)] Cons.prems(1) e by simp
  qed
qed simp


section \<open>The properties at work\<close>

text \<open>The example device connects and is disconnected again.\<close>

theorem application_sees_connection_witness:
  "\<exists>s'. exec (cloud_step example_platform) (Waiting, example_cloud) [Connect, Mqtt (Disconnect 0)] = Some (Waiting, s') \<and>
     told cloud_state_disconnected (map fst (calls s')) = cloud_state_s s'"
proof -
  obtain s' where s': "exec (cloud_step example_platform) (Waiting, example_cloud) [Connect, Mqtt (Disconnect 0)] = Some (Waiting, s')"
    by simp
  moreover have "state_cb example_cloud" "cloud_state_s example_cloud = cloud_state_disconnected" "calls example_cloud = []"
    by (simp_all add: example_cloud_def)
  ultimately show ?thesis using application_sees_connection [OF s'] by auto
qed

theorem message_acknowledged_once_witness:
  "\<exists>s'. mqtt_evt_handler example_platform (Publish [120] 1 [] 0 1 5) example_cloud = Some s' \<and>
     filter is_ack (map fst (calls s')) = [Mqtt_publish_qos1_ack 5]"
proof -
  have "length (replicate 15 (49 :: byte) @ [47, 115]) \<noteq> length [120 :: byte]" by simp
  then have "replicate 15 (49 :: byte) @ [47, 115] \<noteq> [120]" by metis
  then have "strncmp (replicate 15 49 @ [47, 115]) [120] 17 \<noteq> 0" by (subst strncmp_eq_0_iff) auto
  moreover have "dispatch_loop t n d (replicate m None) s = Some s" for t n d m and s :: cloud by (induction m) auto
  ultimately have "\<exists>s'. mqtt_evt_handler example_platform (Publish [120] 1 [] 0 1 5) example_cloud = Some s'"
    by (simp add: publish_get_payload_def payload_loop.simps publish_evt_handler_def example_cloud_def)
  moreover have "calls example_cloud = []" by (simp add: example_cloud_def)
  ultimately show ?thesis using message_acknowledged_once [of example_platform "[120]" 1 "[]" 0 1 5 example_cloud] by auto
qed

theorem startup_asks_for_update_witness:
  "\<exists>i. fst (last (calls (on_connect_fn example_platform (example_cloud\<lparr>cloud_state_s := cloud_state_connected\<rparr>)))) =
     Mqtt_subscribe (replicate 15 49 @ [47, 115]) i"
  using startup_asks_for_update [of "example_cloud\<lparr>cloud_state_s := cloud_state_connected\<rparr>" example_platform]
  by (auto simp: example_cloud_def)

text \<open>The resolver gives an IPv6 address before the IPv4 one.\<close>

theorem connects_without_an_address_witness:
  "fst (pyrinas_cloud_connect (example_platform\<lparr>resolved := (\<lambda>h. [(28, 0), (8, 1)])\<rparr>) example_cloud) = 0 \<and>
   broker (snd (pyrinas_cloud_connect (example_platform\<lparr>resolved := (\<lambda>h. [(28, 0), (8, 1)])\<rparr>) example_cloud)) = None"
proof -
  let ?P = "example_platform\<lparr>resolved := (\<lambda>h. [(28, 0), (8, 1)])\<rparr>"
  have "cloud_state_s example_cloud \<noteq> cloud_state_connected" "broker example_cloud = None" by (simp_all add: example_cloud_def)
  moreover have "\<forall>h. env ?P h Getaddrinfo = 0 \<and> env ?P h Mqtt_connect = 0" by (simp add: example_platform_def)
  moreover have "\<forall>h. resolved ?P h = (28, 0) # [(8, 1)]" by simp
  ultimately show ?thesis using connects_without_an_address [of example_cloud ?P 28] by (simp add: sizeof_sockaddr_in_def)
qed

text \<open>A platform whose \<open>poll\<close> fails.\<close>

definition failing_poll :: "(ota_msg \<times> dec_pos) option platform" where
  "failing_poll = example_platform\<lparr>env := (\<lambda>h c. case c of Poll \<Rightarrow> - 1
     | K_sem_take t \<Rightarrow> if sem_count h = 0 then - EAGAIN else 0 | _ \<Rightarrow> 0)\<rparr>"

definition quiet_turn :: turn where
  "quiet_turn = \<lparr>live_events = [], input_events = [], POLLIN = False, POLLERR = False, POLLNVAL = False\<rparr>"


end
