(* ===== verification/Cloud_Defined.thy ===== *)
theory Cloud_Defined
  imports Cloud_Safety
begin

text \<open>
  When the cloud client stays within defined behaviour: an invariant of its buffers and its table, what it
  relies on from the outside, and the proof that no step fails and every step keeps the invariant.
\<close>

section \<open>Invariant\<close>

definition cloud_inv :: "'dc platform \<Rightarrow> cloud \<Rightarrow> bool" where
  "cloud_inv P s \<longleftrightarrow> length (payload_buf s) = PAYLOAD_BUFFER_SIZE (cfg P) \<and> ota_data_wf (ota_data_s s) \<and> table_ok s"

text \<open>The operations that touch none of it.\<close>

definition leaves :: "cloud \<Rightarrow> cloud \<Rightarrow> bool" where
  "leaves s s' \<longleftrightarrow> length (payload_buf s') = length (payload_buf s) \<and> ota_data_s s' = ota_data_s s \<and>
     callbacks s' = callbacks s \<and> heap s' = heap s \<and> ota_sub_topic s' = ota_sub_topic s"

lemma leaves_refl [simp]: "leaves s s"
  by (simp add: leaves_def)

lemma leaves_trans: "leaves s1 s2 \<Longrightarrow> leaves s2 s3 \<Longrightarrow> leaves s1 s3"
  by (simp add: leaves_def)

lemma table_ok_cong: "callbacks s' = callbacks s \<Longrightarrow> heap s' = heap s \<Longrightarrow> table_ok s' = table_ok s"
  by (simp add: table_ok_def table_inv_def entries_def)

lemma leaves_inv: "leaves s s' \<Longrightarrow> cloud_inv P s \<Longrightarrow> cloud_inv P s'"
  using table_ok_cong [of s' s] by (simp add: leaves_def cloud_inv_def)

named_theorems leaves_ops "operations that leave buffers and table alone"

lemma leaves_ext [leaves_ops]: "leaves s (snd (ext E c s))"
  by (simp add: leaves_def ext_def)

lemma leaves_emit [leaves_ops]: "leaves s (emit c s)"
  by (simp add: leaves_def emit_def)

lemma leaves_data_publish [leaves_ops]: "leaves s (snd (data_publish P topic data i s))"
  by (simp add: leaves_def data_publish_def cloud_defs)

lemma leaves_rand_id [leaves_ops]: "leaves s (snd (rand_id P s))"
  by (simp add: leaves_def cloud_defs)

lemma leaves_telemetry [leaves_ops]: "leaves s (publish_telemetry P v s)"
  by (simp add: publish_telemetry_def case_prod_beta Let_def) (meson leaves_trans leaves_ops)

lemma leaves_ota_request [leaves_ops]: "leaves s (publish_ota_request P c s)"
  by (simp add: publish_ota_request_def case_prod_beta Let_def) (meson leaves_trans leaves_ops)

lemma leaves_telemetry_evt [leaves_ops]: "leaves s (snd (pyrinas_cloud_publish_telemetry_evt P evt s))"
  by (simp add: pyrinas_cloud_publish_telemetry_evt_def case_prod_beta Let_def) (meson leaves_trans leaves_ops)

lemma leaves_publish_evt [leaves_ops]: "leaves s (snd (pyrinas_cloud_publish_evt P evt s))"
  by (simp add: pyrinas_cloud_publish_evt_def case_prod_beta Let_def) (meson leaves_trans leaves_ops)

lemma leaves_publish [leaves_ops]: "leaves s (snd (pyrinas_cloud_publish P type data s))"
  by (simp add: pyrinas_cloud_publish_def case_prod_beta Let_def) (meson leaves_trans leaves_ops)

lemma leaves_fota [leaves_ops]: "leaves s (fota_evt e s)"
  by (cases e) (auto simp: leaves_def cloud_defs)

lemma leaves_fota_start [leaves_ops]: "leaves s (fota_start_fn P s)"
  by (auto simp: fota_start_fn_def leaves_def cloud_defs)

lemma leaves_reboot [leaves_ops]: "leaves s (reboot_work_fn s)"
  by (auto simp: reboot_work_fn_def leaves_def cloud_defs)

lemma leaves_on_connect [leaves_ops]: "leaves s (on_connect_fn P s)"
  using leaves_telemetry [of s P True]
  by (auto simp: on_connect_fn_def leaves_def cloud_defs)

lemma leaves_broker_loop: "leaves s (broker_loop c as s)"
  by (induction c as s rule: broker_loop.induct) (auto simp: leaves_def)

lemma leaves_client_init: "leaves s (snd (client_init P i s))"
proof -
  have "leaves x (y\<lparr>client_s := z\<rparr>)" if "leaves x y" for x y z using that by (simp add: leaves_def)
  then show ?thesis
    by (auto simp: client_init_def broker_init_def case_prod_beta Let_def)
      (meson leaves_trans leaves_ops leaves_broker_loop)+
qed

lemma leaves_connect [leaves_ops]: "leaves s (snd (pyrinas_cloud_connect P s))"
proof -
  have 1: "leaves s (snd (get_imei P s))" by (simp add: get_imei_def leaves_def cloud_defs)
  have 2: "leaves x (emit K_sem_give (notify_cloud (x\<lparr>cloud_state_s := c\<rparr>)))" for x c
    by (simp add: leaves_def cloud_defs)
  show ?thesis
    using 1 2 by (auto simp: pyrinas_cloud_connect_def case_prod_beta Let_def)
      (meson leaves_trans leaves_client_init leaves_ext)+
qed

lemma leaves_wait [leaves_ops]: "leaves s (snd (process_wait P s))"
  by (auto simp: process_wait_def leaves_def cloud_defs)

section \<open>What the client relies on\<close>

text \<open>An OTA message on the wire that has all its texts, none of them too long.\<close>

definition good_offer :: "'dc platform \<Rightarrow> ('dc \<Rightarrow> (ota_msg \<times> dec_pos) option) \<Rightarrow> byte list \<Rightarrow> bool" where
  "good_offer P view d \<longleftrightarrow> (\<exists>m h f. view (Decode_Init P d) = Some (m, At_start) \<and> msg_wf m \<and>
     msg_host m = Some h \<and> length h \<le> 128 \<and> msg_file m = Some f \<and> length f \<le> 128)"

fun mqtt_ok :: "'dc platform \<Rightarrow> ('dc \<Rightarrow> (ota_msg \<times> dec_pos) option) \<Rightarrow> byte list \<Rightarrow> mqtt_evt \<Rightarrow> bool" where
  "mqtt_ok P view ota_topic (Publish t n d k q i) =
     (k \<le> length d \<and> n \<le> length t \<and> 0 \<notin> set (take n t) \<and>
      (strncmp ota_topic t (length ota_topic) = 0 \<longrightarrow> good_offer P view (take k d)))"
| "mqtt_ok P view ota_topic e = True"

text \<open>
  An unsubscription is allowed only of a name that nobody subscribed to: any other one leaves a dangling pointer.
\<close>

fun cloud_ok ::
    "'dc platform \<Rightarrow> ('dc \<Rightarrow> (ota_msg \<times> dec_pos) option) \<Rightarrow> thread_pc \<times> cloud \<Rightarrow> cloud_event \<Rightarrow> bool" where
  "cloud_ok P view (pc, s) (Thread t) =
     (list_all (mqtt_ok P view (ota_sub_topic s)) (live_events t) \<and>
      list_all (mqtt_ok P view (ota_sub_topic s)) (input_events t))"
| "cloud_ok P view (pc, s) (Run w) = (w = ota_check_subscribed_work \<longrightarrow> initial_ota_check s)"
| "cloud_ok P view (pc, s) (Mqtt e) = mqtt_ok P view (ota_sub_topic s) e"
| "cloud_ok P view (pc, s) (Subscribe_app junk topic f) = (malloc_ok P s \<and> 0 \<notin> set topic)"
| "cloud_ok P view (pc, s) (Unsubscribe_app topic) = (\<forall>e \<in> set (entries s). c_string (cb_topic e) \<noteq> topic)"
| "cloud_ok P view (pc, s) e = True"

definition platform_ok :: "'dc platform \<Rightarrow> ('dc \<Rightarrow> (ota_msg \<times> dec_pos) option) \<Rightarrow> bool" where
  "platform_ok P view \<longleftrightarrow> cfg P = default_config \<and> reads_ok P \<and> decoder_laws (dec P) view"

section \<open>Every step is defined\<close>

lemma dispatch_defined:
  assumes "table_ok s" and "n \<le> length t" and "0 \<notin> set (take n t)"
  shows "\<exists>s'. dispatch_loop t n d (callbacks s) s = Some s' \<and> leaves s s'"
  using message_goes [OF assms(1,3), of "drop n t" d] assms(2) leaves_emit
  by (auto simp: min_absorb2 split: option.split)

lemma handler_defined:
  assumes "platform_ok P view" and "cloud_inv P s" and "n \<le> length t" and "0 \<notin> set (take n t)"
    and "strncmp (ota_sub_topic s) t (length (ota_sub_topic s)) = 0 \<longrightarrow> good_offer P view d"
  shows "\<exists>s'. publish_evt_handler P t n d s = Some s' \<and> cloud_inv P s' \<and> ota_sub_topic s' = ota_sub_topic s"
proof (cases "is_ota_topic t s")
  case False
  then show ?thesis
    using dispatch_defined [of s n t d] assms(2-4) leaves_inv [of s _ P]
    by (fastforce simp: publish_evt_handler_def is_ota_topic_def cloud_inv_def leaves_def)
next
  case True
  then obtain m h f where m: "view (Decode_Init P d) = Some (m, At_start)" "msg_wf m"
    "msg_host m = Some h" "length h \<le> 128" "msg_file m = Some f" "length f \<le> 128"
    using assms(5) by (auto simp: is_ota_topic_def good_offer_def)
  have D: "decoder_laws (dec P) view" and w: "ota_data_wf (ota_data_s s)"
    using assms(1,2) by (simp_all add: platform_ok_def cloud_inv_def)
  obtain err od where od: "decode_ota_data (dec P) (stack_temp P) (ota_data_s s) (Decode_Init P d) = Some (err, od)" "ota_data_wf od"
    using decode_defined [OF D m(1,2) w m(3-6)] by blast
  show ?thesis
  proof (cases "err = 0 \<and> ver_comp (pyrinas_version P) (version od) = 1")
    case upd: True
    then show ?thesis
      using handler_update [OF True, of P d od n] od assms(2)
      by (simp add: cloud_inv_def cloud_defs table_ok_def table_inv_def entries_def)
  next
    case False
    then show ?thesis
      using handler_no_update [OF True od(1), of n] od(2) assms(2)
      by (auto simp: cloud_inv_def table_ok_def table_inv_def entries_def)
  qed
qed

lemma mqtt_defined:
  assumes "platform_ok P view" and "cloud_inv P s" and "mqtt_ok P view (ota_sub_topic s) e"
  shows "\<exists>s'. mqtt_evt_handler P e s = Some s' \<and> cloud_inv P s' \<and> ota_sub_topic s' = ota_sub_topic s"
proof (cases e)
  case (Publish t n d k q i)
  have len: "length (payload_buf s) = PAYLOAD_BUFFER_SIZE (cfg P)" using assms(2) by (simp add: cloud_inv_def)
  have r: "reads_ok P" using assms(1) by (simp add: platform_ok_def)
  have k: "k \<le> length d" "n \<le> length t" "0 \<notin> set (take n t)" using assms(3) Publish by auto
  obtain r s1 where s1: "publish_get_payload P d k s = Some (r, s1)" "r \<le> 0" "r = 0 \<longrightarrow> take k (payload_buf s1) = take k d"
    using payload_read [OF r len k(1)] by blast
  obtain tr where tr: "s1 = s\<lparr>payload_buf := payload_buf s1, calls := calls s @ tr\<rparr>"
    "length (payload_buf s1) = length (payload_buf s)"
    using publish_get_payload_frame [OF s1(1)] by blast
  have l1: "leaves s s1" unfolding leaves_def by (subst tr(1), subst tr(1), subst tr(1), subst tr(1)) (simp add: tr(2))
  have inv1: "cloud_inv P s1" by (rule leaves_inv [OF l1 assms(2)])
  have ack: "leaves x (qos1_ack P q i x)" for x by (simp add: qos1_ack_def leaves_ops)
  show ?thesis
  proof (cases "r = 0")
    case True
    then have "strncmp (ota_sub_topic s1) t (length (ota_sub_topic s1)) = 0 \<longrightarrow> good_offer P view (take k (payload_buf s1))"
      using assms(3) Publish s1(3) l1 by (simp add: leaves_def)
    then obtain s2 where s2: "publish_evt_handler P t n (take k (payload_buf s1)) s1 = Some s2" "cloud_inv P s2"
        "ota_sub_topic s2 = ota_sub_topic s1"
      using handler_defined [OF assms(1) inv1 k(2,3)] by blast
    then show ?thesis
      using Publish s1(1) True ack [of s2] leaves_inv [OF ack s2(2)] l1 by (simp add: leaves_def)
  next
    case False
    have "leaves s1 (qos1_ack P q i (snd (ext (env P) Mqtt_disconnect s1)))" using leaves_trans leaves_ext ack by blast
    then show ?thesis
      using Publish s1(1,2) False leaves_inv [OF _ inv1] l1 by (auto simp: leaves_def)
  qed
qed (use assms(2) in \<open>auto simp: on_disconnect_def cloud_inv_def table_ok_def table_inv_def entries_def cloud_defs\<close>)

lemma events_defined:
  assumes "platform_ok P view"
  shows "cloud_inv P s \<Longrightarrow> list_all (mqtt_ok P view (ota_sub_topic s)) es \<Longrightarrow>
    \<exists>s'. handle_events P es s = Some s' \<and> cloud_inv P s' \<and> ota_sub_topic s' = ota_sub_topic s"
proof (induction es arbitrary: s)
  case (Cons e es)
  obtain s1 where "mqtt_evt_handler P e s = Some s1" "cloud_inv P s1" "ota_sub_topic s1 = ota_sub_topic s"
    using mqtt_defined [OF assms Cons.prems(1)] Cons.prems(2) by auto
  then show ?case using Cons.IH [of s1] Cons.prems(2) by auto
qed simp

lemma input_defined:
  assumes "platform_ok P view" and "cloud_inv P s" and "list_all (mqtt_ok P view (ota_sub_topic s)) (input_events t)"
  shows "\<exists>pc s'. process_input P t s = Some (pc, s') \<and> cloud_inv P s'"
proof -
  let ?s1 = "snd (ext (env P) Mqtt_input s)"
  have l: "leaves s ?s1" by (rule leaves_ext)
  then obtain s2 where "handle_events P (input_events t) ?s1 = Some s2" "cloud_inv P s2"
    using events_defined [OF assms(1) leaves_inv [OF l assms(2)], of "input_events t"] assms(3) by (auto simp: leaves_def)
  then show ?thesis
    using assms(2) leaves_inv [OF leaves_emit, of P] by (auto simp: process_input_def case_prod_beta Let_def)
qed

lemma serve_defined:
  assumes "platform_ok P view" and "cloud_inv P s" and "list_all (mqtt_ok P view (ota_sub_topic s)) (live_events t)"
    and "list_all (mqtt_ok P view (ota_sub_topic s)) (input_events t)"
  shows "\<exists>pc s'. process_serve P t s = Some (pc, s') \<and> cloud_inv P s'"
proof -
  let ?s1 = "snd (ext (env P) Poll (emit Wdt_feed s))"
  let ?s2 = "snd (ext (env P) Mqtt_live ?s1)"
  have l1: "leaves s ?s1" using leaves_trans leaves_emit leaves_ext by blast
  have l2: "leaves s ?s2" using leaves_trans l1 leaves_ext by blast
  then obtain s3 where s3: "handle_events P (live_events t) ?s2 = Some s3" "cloud_inv P s3" "ota_sub_topic s3 = ota_sub_topic s"
    using events_defined [OF assms(1) leaves_inv [OF l2 assms(2)], of "live_events t"] assms(3) by (auto simp: leaves_def)
  moreover obtain pc s' where "process_input P t s3 = Some (pc, s')" "cloud_inv P s'"
    using input_defined [OF assms(1) s3(2), of t] assms(4) s3(3) by auto
  ultimately show ?thesis
    using assms(2) leaves_inv [OF l1 assms(2)] by (auto simp: process_serve_def case_prod_beta Let_def)
qed

lemmas inv_ops = leaves_ops [THEN leaves_inv]

lemma work_defined:
  assumes "cloud_inv P s" and "w = ota_check_subscribed_work \<longrightarrow> initial_ota_check s"
  shows "\<exists>s'. run_work P w s = Some s' \<and> cloud_inv P s'"
  using assms
  by (cases w) (auto simp: publish_ota_check_def publish_ota_done_def ota_check_subscribed_work_fn_def intro: inv_ops)

lemma subscribe_defined:
  assumes "cfg P = default_config" and "cloud_inv P s" and "malloc_ok P s" and "0 \<notin> set topic"
  shows "\<exists>r s'. pyrinas_cloud_subscribe P junk topic f s = Some (r, s') \<and> cloud_inv P s'"
proof -
  have "pyrinas_cloud_subscribe P junk topic f s \<noteq> None"
    using assms(3) by (simp add: pyrinas_cloud_subscribe_def malloc_ok_def ext_def Let_def split: option.split)
  then obtain r s' where s': "pyrinas_cloud_subscribe P junk topic f s = Some (r, s')" by auto
  show ?thesis
  proof (cases "r = 0")
    case True
    have t: "table_inv s'" "set (entries s') = insert (new_entry P junk topic f s) (set (entries s))"
      using subscribe_entries [OF _ _ assms(3)] s' True assms(2) by (auto simp: cloud_inv_def table_ok_def)
    have "length topic \<le> 16" using subscribe_succeeds s' True assms(1) by (fastforce simp: default_config_def)
    then have "0 \<notin> set (full_topic_of (cfg P) (imei s) topic)"
      using assms(1,4) prec_no_NUL by (simp add: default_full_topic)
    then have "table_ok s'" using t assms(2) by (auto simp: table_ok_def cloud_inv_def new_entry_def)
    moreover have "payload_buf s' = payload_buf s" "ota_data_s s' = ota_data_s s"
      using s' by (auto simp: pyrinas_cloud_subscribe_def ext_def Let_def split: option.splits if_splits)
    ultimately show ?thesis using s' assms(2) by (simp add: cloud_inv_def)
  next
    case False
    then have "s' = s" using s' by (auto simp: pyrinas_cloud_subscribe_def ext_def Let_def split: option.splits if_splits)
    then show ?thesis using s' assms(2) by simp
  qed
qed

lemma unsubscribe_defined:
  assumes "cloud_inv P s" and "\<forall>e \<in> set (entries s). c_string (cb_topic e) \<noteq> topic"
  shows "pyrinas_cloud_unsubscribe topic s = Some (- ENOENT, s)"
  using assms unfolding pyrinas_cloud_unsubscribe_def unsubscribe_loop_None
  by (fastforce simp: cloud_inv_def table_ok_def table_inv_def entries_set)

lemma step_defined:
  assumes P: "platform_ok P view" and inv: "cloud_inv P (snd x)" and ok: "cloud_ok P view x e"
  shows "\<exists>x'. cloud_step P x e = Some x' \<and> cloud_inv P (snd x')"
proof -
  obtain pc s where x: "x = (pc, s)" by (cases x)
  have c: "cfg P = default_config" using P by (simp add: platform_ok_def)
  have i: "cloud_inv P s" using inv x by simp
  show ?thesis
  proof (cases e)
    case (Thread t)
    then show ?thesis
      using serve_defined [OF P i, of t] ok x leaves_inv [OF leaves_wait i, of P] by (cases pc) auto
  next
    case (Run w)
    then show ?thesis using work_defined [OF i, of w] ok x by auto
  next
    case (Mqtt e')
    then show ?thesis using mqtt_defined [OF P i, of e'] ok x by auto
  next
    case (Subscribe_app junk topic f)
    then show ?thesis using subscribe_defined [OF c i, of topic junk f] ok x by auto
  next
    case (Unsubscribe_app topic)
    then show ?thesis using unsubscribe_defined [OF i, of topic] ok x i by auto
  next
    case (Register b)
    then show ?thesis
      using x i by (simp add: pyrinas_cloud_register_state_evt_def cloud_inv_def table_ok_def table_inv_def entries_def)
  qed (use x i in \<open>auto simp: telemetry_check_event_def pyrinas_cloud_disconnect_def intro: inv_ops\<close>)
qed

text \<open>A platform that keeps its promises makes the client an event system.\<close>

interpretation client: event_system
  "cloud_step P"
  "\<lambda>x e. platform_ok P view \<and> cloud_ok P view x e" "\<lambda>x. cloud_inv P (snd x)"
  for P :: "'dc platform" and view
  by unfold_locales (use step_defined in auto)


text \<open>The example device receives an offer and connects.\<close>

lemma cloud_ok_connect: "cloud_ok P view x Connect"
  by (cases x) simp


end
