(* ===== verification/Cellular.thy ===== *)
theory Cellular
  imports Prelude
begin

text \<open>
  The modem, \<open>subsys/cellular/cellular.c\<close>: power, the link, the signal strength and the modem
  information. The link controller and the modem library are outside the repository. \<open>char\<close> is
  unsigned on the ARM targets of the program, so \<open>rsrp\<close> is a byte.
\<close>

definition RSRP_THRESHOLD :: byte where
  "RSRP_THRESHOLD = 97"

datatype cellular_call =
  Lte_init_and_connect | Lte_register_handler | Lte_normal | Lte_power_off
| Modem_info_init | Modem_info_params_init | Modem_info_rsrp_register | Modem_info_params_get

text \<open>\<open>modem_info\<close> is the static record of that name; its type belongs to the modem library.\<close>

record 'm cellular = "cellular_call world" +
  rsrp :: byte
  modem_info :: 'm

text \<open>The value before any report.\<close>

definition rsrp_initial :: byte where
  "rsrp_initial = 0xff"

text \<open>
  The configuration options \<open>LTE_LINK_CONTROL\<close>, \<open>LTE_AUTO_INIT_AND_CONNECT\<close> and
  \<open>LWM2M_CARRIER\<close> are arguments; with the carrier library the function only waits for it. \<open>None\<close> is a failed
  assertion.
\<close>

definition cellular_configure ::
    "bool \<Rightarrow> bool \<Rightarrow> bool \<Rightarrow> cellular_call env \<Rightarrow> 'm cellular \<Rightarrow> 'm cellular option" where
  "cellular_configure link_control auto carrier E s =
     (if \<not> link_control \<or> auto \<or> carrier then Some s
      else
        let (err, s) = ext E Lte_init_and_connect s in
        if err \<noteq> 0 then None else Some (emit Lte_register_handler s))"

definition cellular_on :: "cellular_call env \<Rightarrow> 'm cellular \<Rightarrow> int \<times> 'm cellular" where
  "cellular_on E s = ext E Lte_normal s"

definition cellular_off :: "cellular_call env \<Rightarrow> 'm cellular \<Rightarrow> int \<times> 'm cellular" where
  "cellular_off E s = ext E Lte_power_off s"

definition cellular_get_signal_strength :: "'m cellular \<Rightarrow> byte" where
  "cellular_get_signal_strength s = rsrp s"

definition modem_rsrp_handler :: "byte \<Rightarrow> 'm cellular \<Rightarrow> 'm cellular" where
  "modem_rsrp_handler v s = (if RSRP_THRESHOLD < v then s else s\<lparr>rsrp := v\<rparr>)"

definition cellular_info_init :: "cellular_call env \<Rightarrow> 'm cellular \<Rightarrow> int \<times> 'm cellular" where
  "cellular_info_init E s =
     (let (err, s) = ext E Modem_info_init s in
      if err \<noteq> 0 then (err, s)
      else
        let (err, s) = ext E Modem_info_params_init s in
        if err \<noteq> 0 then (err, s)
        else
          let (err, s) = ext E Modem_info_rsrp_register s in
          if err \<noteq> 0 then (err, s) else (0, s))"

text \<open>
  \<open>new\<close> is what \<open>modem_info_params_get\<close> leaves in the static record. The last argument and the
  second result are the record of the caller: the assignment to the parameter does not reach it.
\<close>

definition cellular_info_get ::
    "cellular_call env \<Rightarrow> 'm \<Rightarrow> 'm \<Rightarrow> 'm cellular \<Rightarrow> int \<times> 'm \<times> 'm cellular" where
  "cellular_info_get E new caller s =
     (let (err, s) = ext E Modem_info_params_get s;
          s = s\<lparr>modem_info := new\<rparr>
      in if err \<noteq> 0 then (err, caller, s) else (0, caller, s))"

section \<open>Signal strength\<close>

text \<open>The last of the values that is in range.\<close>

fun last_valid :: "byte \<Rightarrow> byte list \<Rightarrow> byte" where
  "last_valid v [] = v"
| "last_valid v (x # xs) = last_valid (if x \<le> RSRP_THRESHOLD then x else v) xs"

lemma rsrp_handlers: "rsrp (fold modem_rsrp_handler vs s) = last_valid (rsrp s) vs"
proof (induction vs arbitrary: s)
  case (Cons v vs)
  then show ?case by (cases "RSRP_THRESHOLD < v") (auto simp: modem_rsrp_handler_def not_less)
qed simp

lemma last_valid_range: "v \<le> RSRP_THRESHOLD \<or> v = d \<Longrightarrow> last_valid v xs \<le> RSRP_THRESHOLD \<or> last_valid v xs = d"
  by (induction xs arbitrary: v) auto

text \<open>
  The signal strength handed on is the last valid one the modem reported, whatever it
  reported since, and before the first valid report it is the value 255, which every user
  takes for none: it is never a number between the two.
\<close>

theorem signal_strength_is_last_valid:
  assumes "rsrp s = rsrp_initial"
  shows "cellular_get_signal_strength (fold modem_rsrp_handler vs s) = last_valid rsrp_initial vs \<and>
    (cellular_get_signal_strength (fold modem_rsrp_handler vs s) \<le> RSRP_THRESHOLD \<or>
     cellular_get_signal_strength (fold modem_rsrp_handler vs s) = rsrp_initial)"
  using assms last_valid_range [of rsrp_initial rsrp_initial vs]
  by (simp add: cellular_get_signal_strength_def rsrp_handlers)

text \<open>
  \<open>cellular_info_get\<close> reports success and leaves the record of its caller as it was, whatever the
  modem answered: the information never reaches the caller.
\<close>

theorem modem_info_not_delivered:
  "fst (snd (cellular_info_get E new caller s)) = caller \<and>
   (E (calls s) Modem_info_params_get = 0 \<longrightarrow> fst (cellular_info_get E new caller s) = 0 \<and>
      modem_info (snd (snd (cellular_info_get E new caller s))) = new)"
  by (simp add: cellular_info_get_def Let_def case_prod_beta)

definition cellular_example :: "nat cellular" where
  "cellular_example = \<lparr>calls = [], rsrp = rsrp_initial, modem_info = 0\<rparr>"

theorem signal_strength_is_last_valid_witness:
  "cellular_get_signal_strength (fold modem_rsrp_handler [40, 200, 51, 98] cellular_example) = 51"
  using signal_strength_is_last_valid [of cellular_example "[40, 200, 51, 98]"]
  by (simp add: cellular_example_def RSRP_THRESHOLD_def)

theorem modem_info_not_delivered_witness:
  "fst (cellular_info_get (\<lambda>t c. 0) 7 3 cellular_example) = 0 \<and>
   fst (snd (cellular_info_get (\<lambda>t c. 0) 7 3 cellular_example)) = 3"
  using modem_info_not_delivered [of "\<lambda>t c. 0" 7 3 cellular_example] by simp

end
