(* ===== verification/App_Main.thy ===== *)
theory App_Main
  imports Cloud_Defined Cellular Rtc_Pcf85063a
begin

text \<open>
  The application framework: \<open>lib/app/main.c\<close> (start-up, the two callbacks from the cloud client, the reconnection
  work) and \<open>subsys/worker/worker.c\<close> (the work queue it shares with applications). The functions of the cloud client, the
  modem and the clock that it calls are those of the other theories, so a state of this component
  contains theirs.
\<close>

section \<open>Worker\<close>

text \<open>The queue is a pointer, 0 for NULL; \<open>None\<close> is the failed assertion.\<close>

datatype worker_call = Work_submit nat nat | Delayed_work_submit nat nat nat

record worker = "worker_call world" +
  main_tasks_q :: nat

definition worker_init :: "nat \<Rightarrow> worker \<Rightarrow> worker option" where
  "worker_init q s = (if q = 0 then None else Some (s\<lparr>main_tasks_q := q\<rparr>))"

definition worker_submit :: "nat \<Rightarrow> worker \<Rightarrow> worker" where
  "worker_submit w s = emit (Work_submit (main_tasks_q s) w) s"

definition worker_submit_delayed :: "worker_call env \<Rightarrow> nat \<Rightarrow> nat \<Rightarrow> worker \<Rightarrow> int \<times> worker" where
  "worker_submit_delayed E w delay s = ext E (Delayed_work_submit (main_tasks_q s) w delay) s"

section \<open>The device\<close>

datatype main_call =
  K_work_q_start | Worker_init | Bsdlib_init | K_thread_suspend | Boot_write_img_confirmed
| Flash_area_open | Flash_area_erase | Flash_area_close | Fs_mount | Fs_statvfs | Img_mgmt_register_group
| Rtc_get_binding | K_delayed_work_init | Submit_reconnect nat | Proceed_give | Proceed_take | Setup

text \<open>
  \<open>reconnect_pending\<close> says whether the reconnection work is waiting to run (the kernel holds it at most once),
  \<open>proceed\<close> is the count of \<open>main_thread_proceed_sem\<close>, \<open>main_waits\<close> whether \<open>main\<close> is waiting for it. \<open>'m\<close> is the modem library's record, \<open>'d\<close> the clock chip.
\<close>

record ('m, 'd) device = "main_call world" +
  pc_s :: thread_pc
  cloud_s :: cloud
  cell_s :: "'m cellular"
  rtc_s :: 'd
  reconnect_pending :: bool
  proceed :: nat
  main_waits :: bool

text \<open>The configuration options that \<open>main.c\<close> looks at; \<open>ASSERTS\<close> says whether assertions are compiled in.\<close>

record main_config =
  CLOUD_ENABLED :: bool
  IMG_MANAGER :: bool
  LITTLEFS :: bool
  APP_WIPE_STORAGE :: bool
  MCUMGR_CMD_IMG_MGMT :: bool
  PCF85063A :: bool
  ASSERTS :: bool

text \<open>What the boards and libraries contribute.\<close>

record ('dc, 'd) board =
  plat :: "'dc platform"
  cell_env :: "cellular_call env"
  main_env :: "main_call env"
  bus :: "'d i2c"

section \<open>Callbacks\<close>

definition submit_reconnect :: "nat \<Rightarrow> ('m, 'd) device \<Rightarrow> ('m, 'd) device" where
  "submit_reconnect secs d = (emit (Submit_reconnect secs) d)\<lparr>reconnect_pending := True\<rparr>"

definition pyrinas_cloud_ota_evt_handler :: "ota_state \<Rightarrow> ('m, 'd) device \<Rightarrow> ('m, 'd) device" where
  "pyrinas_cloud_ota_evt_handler st d =
     (case st of ota_state_ready \<Rightarrow> (emit Proceed_give d)\<lparr>proceed := 1\<rparr> | _ \<Rightarrow> d)"

definition cloud_state_callback :: "cloud_state \<Rightarrow> ('m, 'd) device \<Rightarrow> ('m, 'd) device" where
  "cloud_state_callback st d =
     (case st of cloud_state_disconnected \<Rightarrow> submit_reconnect 2 d | cloud_state_connected \<Rightarrow> d)"

text \<open>
  A function of the cloud client runs on the client's state; the callbacks it makes, which are in its trace, are
  those above. They touch only the state of this component, so it does not matter that they are run after the
  function instead of in the middle of it.
\<close>

fun callback :: "cloud_call \<Rightarrow> ('m, 'd) device \<Rightarrow> ('m, 'd) device" where
  "callback (Ota_state_callback st) d = pyrinas_cloud_ota_evt_handler st d"
| "callback (Cloud_state_callback st) d = cloud_state_callback st d"
| "callback c d = d"

definition in_cloud :: "(cloud \<Rightarrow> 'r \<times> cloud) \<Rightarrow> ('m, 'd) device \<Rightarrow> 'r \<times> ('m, 'd) device" where
  "in_cloud f d =
     (let (r, s) = f (cloud_s d);
          new = map fst (drop (length (calls (cloud_s d))) (calls s))
      in (r, fold callback new (d\<lparr>cloud_s := s\<rparr>)))"

section \<open>Reconnecting\<close>

text \<open>The error numbers of the client are negative; \<open>EINPROGRESS\<close> is positive.\<close>

definition reconnect_work_fn :: "('dc, 'd) board \<Rightarrow> ('m, 'd) device \<Rightarrow> ('m, 'd) device" where
  "reconnect_work_fn B d =
     (let (err, d) = in_cloud (pyrinas_cloud_connect (plat B)) d in
      if err \<noteq> 0 \<and> err \<noteq> EINPROGRESS then submit_reconnect 10 d else d)"

section \<open>Start-up\<close>

definition flash_init :: "main_config \<Rightarrow> main_call env \<Rightarrow> ('m, 'd) device \<Rightarrow> ('m, 'd) device" where
  "flash_init C E d =
     (if \<not> LITTLEFS C then d
      else
        let (rc, d) = ext E Flash_area_open d in
        if rc < 0 then d
        else
          let d = (if APP_WIPE_STORAGE C then emit Flash_area_erase d else d);
              d = emit Flash_area_close d;
              (rc, d) = ext E Fs_mount d
          in if rc < 0 then d else emit Fs_statvfs d)"

definition rtc_init :: "('dc, 'd) board \<Rightarrow> ('m, 'd) device \<Rightarrow> ('m, 'd) device" where
  "rtc_init B d =
     (let (rtc, d) = ext (main_env B) Rtc_get_binding d in
      if rtc = 0 then d
      else
        let (ret, c) = pcf85063a_set_alarm (bus B) 10 (rtc_s d)
        in d\<lparr>rtc_s := c\<rparr>)"

text \<open>The codes that the modem library's initialisation returns for a modem update, as far as they are told apart.\<close>

datatype bsdlib_result = MODEM_DFU_RESULT_OK | MODEM_DFU_RESULT_error | Bsdlib_failed | Bsdlib_other

text \<open>
  How \<open>main\<close> ends up: suspended for good after a modem update, back from \<open>main\<close> because the modem library
  failed, stopped by a failed assertion, or waiting for the semaphore.
\<close>

datatype main_end = Suspended | Returned | Assertion_failed | Waits

definition main_cloud_start ::
    "('dc, 'd) board \<Rightarrow> main_config \<Rightarrow> bool \<Rightarrow> bool \<Rightarrow> bool \<Rightarrow> ('m, 'd) device \<Rightarrow> main_end \<times> ('m, 'd) device" where
  "main_cloud_start B C link_control auto carrier d =
     (case cellular_configure link_control auto carrier (cell_env B) (cell_s d) of
        None \<Rightarrow> (Assertion_failed, d)
      | Some c \<Rightarrow>
          let (err, c) = cellular_info_init (cell_env B) c;
              d = emit K_delayed_work_init (d\<lparr>cell_s := c\<rparr>)
          in case pyrinas_cloud_init (plat B) True True (cloud_s d) of
               None \<Rightarrow> (Assertion_failed, d)
             | Some s \<Rightarrow>
                 let d = d\<lparr>cloud_s := pyrinas_cloud_register_state_evt True s\<rparr> in
                 if ASSERTS C then
                   let (err, d) = in_cloud (pyrinas_cloud_connect (plat B)) d
                   in if err = 0 then (Waits, d\<lparr>main_waits := True\<rparr>) else (Assertion_failed, d)
                 else (Waits, d\<lparr>main_waits := True\<rparr>))"

text \<open>The beginning of \<open>main\<close>: the work queue and the modem library, which may end it.\<close>

definition main_modem ::
    "('dc, 'd) board \<Rightarrow> (int \<Rightarrow> bsdlib_result) \<Rightarrow> ('m, 'd) device \<Rightarrow> main_end option \<times> ('m, 'd) device" where
  "main_modem B classify d =
     (let (err, d) = ext (main_env B) Bsdlib_init (emit Worker_init (emit K_work_q_start d)) in
      case classify err of
        MODEM_DFU_RESULT_OK \<Rightarrow> (Some Suspended, emit K_thread_suspend d)
      | MODEM_DFU_RESULT_error \<Rightarrow> (None, d)
      | Bsdlib_failed \<Rightarrow> (Some Returned, d)
      | Bsdlib_other \<Rightarrow> (None, d))"

text \<open>The middle of \<open>main\<close>: the image, the flash and the clock.\<close>

definition main_board :: "('dc, 'd) board \<Rightarrow> main_config \<Rightarrow> ('m, 'd) device \<Rightarrow> ('m, 'd) device" where
  "main_board B C d =
     (let d = (if IMG_MANAGER C then emit Boot_write_img_confirmed d else d);
          d = flash_init C (main_env B) d;
          d = (if MCUMGR_CMD_IMG_MGMT C then emit Img_mgmt_register_group d else d)
      in if PCF85063A C then rtc_init B d else d)"

definition app_main ::
    "('dc, 'd) board \<Rightarrow> main_config \<Rightarrow> (int \<Rightarrow> bsdlib_result) \<Rightarrow> bool \<Rightarrow> bool \<Rightarrow> bool \<Rightarrow> ('m, 'd) device \<Rightarrow>
     main_end \<times> ('m, 'd) device" where
  "app_main B C classify link_control auto carrier d =
     (if \<not> CLOUD_ENABLED C then (Waits, (emit Proceed_give (main_board B C d))\<lparr>proceed := 1, main_waits := True\<rparr>)
      else
        case main_modem B classify d of
          (Some e, d) \<Rightarrow> (e, d)
        | (None, d) \<Rightarrow> main_cloud_start B C link_control auto carrier (main_board B C d))"

text \<open>The end of \<open>main\<close>, once the semaphore can be taken.\<close>

definition main_proceed :: "('m, 'd) device \<Rightarrow> ('m, 'd) device" where
  "main_proceed d =
     (if main_waits d \<and> 0 < proceed d
      then (emit Setup (emit Proceed_take d))\<lparr>proceed := proceed d - 1, main_waits := False\<rparr>
      else d)"

section \<open>The device over time\<close>

datatype device_event = Cloud_event cloud_event | Reconnect | Main_thread

definition device_step :: "('dc, 'd) board \<Rightarrow> ('m, 'd) device \<Rightarrow> device_event \<Rightarrow> ('m, 'd) device option" where
  "device_step B d e =
     (case e of
        Cloud_event e \<Rightarrow>
          (case cloud_step (plat B) (pc_s d, cloud_s d) e of
             None \<Rightarrow> None
           | Some (pc, s) \<Rightarrow> Some (snd (in_cloud (\<lambda>_. ((), s)) (d\<lparr>pc_s := pc\<rparr>))))
      | Reconnect \<Rightarrow> Some (if reconnect_pending d then reconnect_work_fn B (d\<lparr>reconnect_pending := False\<rparr>) else d)
      | Main_thread \<Rightarrow> Some (main_proceed d))"

section \<open>Reconnection\<close>

text \<open>The callback is registered, and whenever the client is disconnected the reconnection work is waiting.\<close>

definition device_inv :: "('m, 'd) device \<Rightarrow> bool" where
  "device_inv d \<longleftrightarrow> state_cb (cloud_s d) \<and>
     (cloud_state_s (cloud_s d) = cloud_state_disconnected \<longrightarrow> reconnect_pending d)"

lemma device_emit [simp]:
  "cloud_s (emit c d) = cloud_s d" "pc_s (emit c d) = pc_s d" "cell_s (emit c d) = cell_s d" "rtc_s (emit c d) = rtc_s d"
  "reconnect_pending (emit c d) = reconnect_pending d" "proceed (emit c d) = proceed d" "main_waits (emit c d) = main_waits d"
  for d :: "('m, 'd) device"
  by (cases d; simp add: emit_def)+

lemma device_ext [simp]:
  "cloud_s (snd (ext E c d)) = cloud_s d" "pc_s (snd (ext E c d)) = pc_s d" "cell_s (snd (ext E c d)) = cell_s d"
  "rtc_s (snd (ext E c d)) = rtc_s d" "reconnect_pending (snd (ext E c d)) = reconnect_pending d"
  "proceed (snd (ext E c d)) = proceed d" "main_waits (snd (ext E c d)) = main_waits d"
  for d :: "('m, 'd) device"
  by (cases d; simp add: ext_def)+

lemma callback_frame [simp]: "cloud_s (callback c d) = cloud_s d"
  by (cases c) (auto simp: pyrinas_cloud_ota_evt_handler_def cloud_state_callback_def submit_reconnect_def
      split: ota_state.splits cloud_state.splits)

lemma callback_pending: "reconnect_pending d \<Longrightarrow> reconnect_pending (callback c d)"
  by (cases c) (auto simp: pyrinas_cloud_ota_evt_handler_def cloud_state_callback_def submit_reconnect_def
      split: ota_state.splits cloud_state.splits)

lemma callbacks_frame [simp]: "cloud_s (fold callback cs d) = cloud_s d"
  by (induction cs arbitrary: d) auto

lemma callbacks_pending: "reconnect_pending d \<Longrightarrow> reconnect_pending (fold callback cs d)"
  by (induction cs arbitrary: d) (auto intro: callback_pending)

lemma callbacks_told:
  "Cloud_state_callback cloud_state_disconnected \<in> set cs \<Longrightarrow> reconnect_pending (fold callback cs d)"
proof (induction cs arbitrary: d)
  case (Cons c cs)
  show ?case
  proof (cases "c = Cloud_state_callback cloud_state_disconnected")
    case True
    then show ?thesis by (simp add: callbacks_pending cloud_state_callback_def submit_reconnect_def)
  next
    case False
    then show ?thesis using Cons by auto
  qed
qed simp

lemma told_disconnected:
  "told cloud_state_connected cs = cloud_state_disconnected \<Longrightarrow> Cloud_state_callback cloud_state_disconnected \<in> set cs"
proof (induction cs)
  case (Cons c cs)
  show ?case
  proof (cases "\<exists>st. c = Cloud_state_callback st")
    case True
    then obtain st where "c = Cloud_state_callback st" by auto
    then show ?thesis using Cons by (cases st) auto
  next
    case False
    then have "told1 cloud_state_connected c = cloud_state_connected" by (cases c) auto
    then show ?thesis using Cons by auto
  qed
qed simp

text \<open>Whatever the client does, the callbacks keep the invariant.\<close>

lemma in_cloud_inv:
  assumes "follows (cloud_s d) (snd (f (cloud_s d)))" and "device_inv d"
  shows "device_inv (snd (in_cloud f d))"
proof -
  let ?s = "snd (f (cloud_s d))"
  obtain tr where tr: "calls ?s = calls (cloud_s d) @ tr" "state_cb ?s = state_cb (cloud_s d)"
    "told (cloud_state_s (cloud_s d)) (map fst tr) = cloud_state_s ?s"
    using assms by (auto simp: follows_def device_inv_def)
  have eq: "snd (in_cloud f d) = fold callback (map fst tr) (d\<lparr>cloud_s := ?s\<rparr>)"
    using tr(1) by (simp add: in_cloud_def case_prod_beta Let_def)
  have "reconnect_pending (fold callback (map fst tr) (d\<lparr>cloud_s := ?s\<rparr>))" if "cloud_state_s ?s = cloud_state_disconnected"
  proof (cases "cloud_state_s (cloud_s d)")
    case cloud_state_disconnected
    then show ?thesis using assms(2) by (simp add: device_inv_def callbacks_pending)
  next
    case cloud_state_connected
    then show ?thesis using told_disconnected [of "map fst tr"] tr(3) that by (intro callbacks_told) metis
  qed
  then show ?thesis using assms(2) tr(2) by (simp add: eq device_inv_def)
qed

text \<open>The client's own error numbers do not collide with the positive \<open>EINPROGRESS\<close>.\<close>

definition errors_ok :: "'dc platform \<Rightarrow> bool" where
  "errors_ok P \<longleftrightarrow> (\<forall>h. env P h Getaddrinfo \<noteq> EINPROGRESS \<and> env P h Mqtt_connect \<noteq> EINPROGRESS)"

lemma connect_result:
  "fst (pyrinas_cloud_connect P s) = 0 \<Longrightarrow> cloud_state_s (snd (pyrinas_cloud_connect P s)) = cloud_state_connected"
  by (auto simp: pyrinas_cloud_connect_def case_prod_beta Let_def cloud_defs split: if_splits)

lemma connect_errors: "errors_ok P \<Longrightarrow> fst (pyrinas_cloud_connect P s) \<noteq> EINPROGRESS"
  by (auto simp: pyrinas_cloud_connect_def client_init_def broker_init_def errors_ok_def case_prod_beta Let_def ext_def)

lemma reconnect_inv:
  assumes "errors_ok (plat B)" and "state_cb (cloud_s d)"
  shows "device_inv (reconnect_work_fn B d)"
proof -
  let ?f = "pyrinas_cloud_connect (plat B)"
  have fol: "follows (cloud_s d) (snd (?f (cloud_s d)))" by (rule follows_connect)
  have cl: "cloud_s (snd (in_cloud ?f d)) = snd (?f (cloud_s d))" "fst (in_cloud ?f d) = fst (?f (cloud_s d))"
    by (simp_all add: in_cloud_def case_prod_beta Let_def)
  have "state_cb (snd (?f (cloud_s d)))" using fol assms(2) by (simp add: follows_def)
  then show ?thesis
    using connect_result [of "plat B" "cloud_s d"] connect_errors [OF assms(1), of "cloud_s d"]
    by (auto simp: reconnect_work_fn_def case_prod_beta Let_def cl device_inv_def submit_reconnect_def)
qed

lemma device_step_inv:
  assumes "errors_ok (plat B)" and "device_inv d" and "device_step B d e = Some d'"
    and "\<forall>c. e \<noteq> Cloud_event (Register c)"
  shows "device_inv d'"
proof (cases e)
  case (Cloud_event ce)
  then obtain pc s where s: "cloud_step (plat B) (pc_s d, cloud_s d) ce = Some (pc, s)"
    "d' = snd (in_cloud (\<lambda>_. ((), s)) (d\<lparr>pc_s := pc\<rparr>))"
    using assms(3) by (auto simp: device_step_def split: option.splits)
  have "follows (cloud_s d) s" using follows_step [OF s(1)] assms(4) Cloud_event by blast
  then show ?thesis unfolding s(2) using assms(2) by (intro in_cloud_inv) (simp_all add: device_inv_def)
next
  case Reconnect
  then show ?thesis
    using assms reconnect_inv [of B "d\<lparr>reconnect_pending := False\<rparr>"] by (auto simp: device_step_def device_inv_def split: if_splits)
next
  case Main_thread
  then show ?thesis using assms(2,3) by (auto simp: device_step_def device_inv_def main_proceed_def)
qed

section \<open>After start-up\<close>

text \<open>What the part of \<open>main\<close> before the cloud client leaves alone, and what it does not call.\<close>

definition quiet_start :: "('m, 'd) device \<Rightarrow> ('m, 'd) device \<Rightarrow> bool" where
  "quiet_start d d' \<longleftrightarrow> cloud_s d' = cloud_s d \<and> pc_s d' = pc_s d \<and> cell_s d' = cell_s d \<and> reconnect_pending d' = reconnect_pending d \<and>
     proceed d' = proceed d \<and>
     (\<exists>tr. calls d' = calls d @ tr \<and> Setup \<notin> fst ` set tr \<and> Proceed_give \<notin> fst ` set tr)"

lemma quiet_start_refl [simp]: "quiet_start d d"
  by (simp add: quiet_start_def)

lemma quiet_start_trans: "quiet_start d1 d2 \<Longrightarrow> quiet_start d2 d3 \<Longrightarrow> quiet_start d1 d3"
  by (fastforce simp: quiet_start_def)

lemma quiet_emit: "c \<noteq> Setup \<Longrightarrow> c \<noteq> Proceed_give \<Longrightarrow> quiet_start d (emit c d)"
  by (simp add: quiet_start_def)

lemma quiet_ext: "c \<noteq> Setup \<Longrightarrow> c \<noteq> Proceed_give \<Longrightarrow> quiet_start d (snd (ext E c d))"
  by (simp add: quiet_start_def)

lemma quiet_flash: "quiet_start d (flash_init C E d)"
proof -
  let ?d1 = "snd (ext E Flash_area_open d)"
  let ?d2 = "if APP_WIPE_STORAGE C then emit Flash_area_erase ?d1 else ?d1"
  let ?d3 = "snd (ext E Fs_mount (emit Flash_area_close ?d2))"
  have 1: "quiet_start d ?d1" by (rule quiet_ext) simp_all
  have 2: "quiet_start ?d1 ?d2" using quiet_emit [of Flash_area_erase ?d1] by simp
  have 3: "quiet_start ?d2 ?d3" by (intro quiet_start_trans [OF quiet_emit quiet_ext]) simp_all
  have 4: "quiet_start ?d3 (emit Fs_statvfs ?d3)" by (rule quiet_emit) simp_all
  show ?thesis
    using 1 quiet_start_trans [OF quiet_start_trans [OF 1 2] 3] quiet_start_trans [OF quiet_start_trans [OF quiet_start_trans [OF 1 2] 3] 4]
    by (simp add: flash_init_def case_prod_beta Let_def)
qed

lemma quiet_rtc: "quiet_start d (rtc_init B d)"
proof -
  let ?d1 = "snd (ext (main_env B) Rtc_get_binding d)"
  have 1: "quiet_start d ?d1" by (rule quiet_ext) simp_all
  have "calls (x\<lparr>rtc_s := c\<rparr>) = calls x" for x :: "('b, 'c) device" and c by (cases x) simp
  then have "quiet_start ?d1 (?d1\<lparr>rtc_s := c\<rparr>)" for c by (simp add: quiet_start_def)
  then show ?thesis using 1 quiet_start_trans by (fastforce simp: rtc_init_def case_prod_beta Let_def)
qed

text \<open>Start-up with the cloud: the state before \<open>main_cloud_start\<close>, and that the image is marked as good by then.\<close>

lemma quiet_if: "quiet_start d d' \<Longrightarrow> quiet_start d (if b then d' else d)"
  by simp

lemma quiet_modem: "main_modem B cl d = (None, d') \<Longrightarrow> quiet_start d d'"
proof -
  let ?d1 = "snd (ext (main_env B) Bsdlib_init (emit Worker_init (emit K_work_q_start d)))"
  assume "main_modem B cl d = (None, d')"
  then have "d' = ?d1" by (auto simp: main_modem_def case_prod_beta split: bsdlib_result.splits)
  moreover have "quiet_start d ?d1"
    by (intro quiet_start_trans [OF quiet_start_trans [OF quiet_emit quiet_emit] quiet_ext]) simp_all
  ultimately show ?thesis by simp
qed

text \<open>The image is marked as good by the end of \<open>main_board\<close>.\<close>

lemma quiet_board:
  "quiet_start d (main_board B C d) \<and> (IMG_MANAGER C \<longrightarrow> Boot_write_img_confirmed \<in> fst ` set (calls (main_board B C d)))"
proof -
  define d2 where "d2 = (if IMG_MANAGER C then emit Boot_write_img_confirmed d else d)"
  define d3 where "d3 = flash_init C (main_env B) d2"
  define d4 where "d4 = (if MCUMGR_CMD_IMG_MGMT C then emit Img_mgmt_register_group d3 else d3)"
  define d5 where "d5 = (if PCF85063A C then rtc_init B d4 else d4)"
  have eq: "main_board B C d = d5"
    by (simp only: main_board_def Let_def d2_def d3_def d4_def d5_def)
  have 2: "quiet_start d d2" unfolding d2_def by (intro quiet_if quiet_emit) simp_all
  have 3: "quiet_start d2 d3" unfolding d3_def by (rule quiet_flash)
  have 4: "quiet_start d3 d4" unfolding d4_def by (intro quiet_if quiet_emit) simp_all
  have 5: "quiet_start d4 d5" unfolding d5_def by (intro quiet_if quiet_rtc)
  note late = quiet_start_trans [OF quiet_start_trans [OF 3 4] 5]
  have "IMG_MANAGER C \<longrightarrow> Boot_write_img_confirmed \<in> fst ` set (calls d2)" by (simp add: d2_def)
  then have "IMG_MANAGER C \<longrightarrow> Boot_write_img_confirmed \<in> fst ` set (calls d5)"
    using late unfolding quiet_start_def by auto
  then show ?thesis using quiet_start_trans [OF 2 late] by (simp add: eq)
qed

lemma start_reaches_cloud:
  assumes "CLOUD_ENABLED C" and "app_main B C cl lc au ca d0 = (e, d)" and "e \<noteq> Suspended" and "e \<noteq> Returned"
  shows "\<exists>d1. quiet_start d0 d1 \<and> (IMG_MANAGER C \<longrightarrow> Boot_write_img_confirmed \<in> fst ` set (calls d1)) \<and>
    main_cloud_start B C lc au ca d1 = (e, d)"
proof -
  obtain r d1 where m: "main_modem B cl d0 = (r, d1)" by (cases "main_modem B cl d0")
  have "r = None" using m assms by (auto simp: app_main_def main_modem_def case_prod_beta split: bsdlib_result.splits option.splits)
  then show ?thesis
    using m assms quiet_start_trans [OF quiet_modem quiet_board [THEN conjunct1]] quiet_board [of d1 B C]
    by (intro exI [of _ "main_board B C d1"]) (auto simp: app_main_def)
qed


text \<open>
  Where \<open>main_cloud_start\<close> leaves the device when it gets to the semaphore: \<open>s\<close> is the client after its own initialisation.
\<close>

lemma cloud_start_waits:
  assumes "main_cloud_start B C lc au ca d1 = (Waits, d)"
  shows "\<exists>d2 s. cloud_s d2 = pyrinas_cloud_register_state_evt True s \<and> pyrinas_cloud_init (plat B) True True (cloud_s d1) = Some s \<and>
    pc_s d2 = pc_s d1 \<and> reconnect_pending d2 = reconnect_pending d1 \<and> proceed d2 = proceed d1 \<and>
    calls d2 = calls d1 @ [(K_delayed_work_init, 0)] \<and>
    (if ASSERTS C
     then fst (pyrinas_cloud_connect (plat B) (cloud_s d2)) = 0 \<and>
       d = (snd (in_cloud (pyrinas_cloud_connect (plat B)) d2))\<lparr>main_waits := True\<rparr>
     else d = d2\<lparr>main_waits := True\<rparr>)"
proof -
  obtain c0 where "cellular_configure lc au ca (cell_env B) (cell_s d1) = Some c0"
    using assms by (auto simp: main_cloud_start_def split: option.splits)
  moreover define c where "c = snd (cellular_info_init (cell_env B) c0)"
  moreover define d' where "d' = emit K_delayed_work_init (d1\<lparr>cell_s := c\<rparr>)"
  moreover have eq: "cloud_s d' = cloud_s d1" "pc_s d' = pc_s d1" "reconnect_pending d' = reconnect_pending d1"
    "proceed d' = proceed d1" "calls d' = calls d1 @ [(K_delayed_work_init, 0)]"
    by (cases d1; simp add: d'_def)+
  ultimately obtain s where s: "pyrinas_cloud_init (plat B) True True (cloud_s d1) = Some s"
    using assms by (auto simp: main_cloud_start_def case_prod_beta Let_def split: option.splits)
  define d2 where "d2 = d'\<lparr>cloud_s := pyrinas_cloud_register_state_evt True s\<rparr>"
  have "calls d2 = calls d'" by (cases d'; simp add: d2_def)
  moreover have "main_cloud_start B C lc au ca d1 =
    (if ASSERTS C then let (err, d) = in_cloud (pyrinas_cloud_connect (plat B)) d2
                   in if err = 0 then (Waits, d\<lparr>main_waits := True\<rparr>) else (Assertion_failed, d)
     else (Waits, d2\<lparr>main_waits := True\<rparr>))"
    using s \<open>cellular_configure lc au ca (cell_env B) (cell_s d1) = Some c0\<close>
    by (simp add: main_cloud_start_def case_prod_beta Let_def c_def d'_def d2_def)
  moreover have "fst (in_cloud f d2) = fst (f (cloud_s d2))" for f :: "cloud \<Rightarrow> int \<times> cloud"
    by (simp add: in_cloud_def case_prod_beta Let_def)
  ultimately show ?thesis
    using assms s eq by (intro exI [of _ d2] exI [of _ s]) (auto simp: case_prod_beta Let_def d2_def split: if_splits)
qed

lemma waits_frame:
  "calls (d\<lparr>main_waits := b\<rparr>) = calls d" "cloud_s (d\<lparr>main_waits := b\<rparr>) = cloud_s d"
  "proceed (d\<lparr>main_waits := b\<rparr>) = proceed d" "main_waits (d\<lparr>main_waits := b\<rparr>) = b"
  "reconnect_pending (d\<lparr>main_waits := b\<rparr>) = reconnect_pending d" "pc_s (d\<lparr>main_waits := b\<rparr>) = pc_s d"
  by (cases d; simp)+

lemma cloud_start_main_waits: "main_cloud_start B C lc au ca d1 = (Waits, d) \<Longrightarrow> main_waits d"
  by (drule cloud_start_waits) (auto simp: waits_frame split: if_splits)

lemma in_cloud_cloud [simp]: "cloud_s (snd (in_cloud f d)) = snd (f (cloud_s d))" "fst (in_cloud f d) = fst (f (cloud_s d))"
  by (simp_all add: in_cloud_def case_prod_beta Let_def)

lemma start_inv:
  assumes "main_cloud_start B C lc au ca d1 = (Waits, d)" and "ASSERTS C"
  shows "device_inv d"
proof -
  obtain d2 s where d2: "cloud_s d2 = pyrinas_cloud_register_state_evt True s"
    "fst (pyrinas_cloud_connect (plat B) (cloud_s d2)) = 0"
    "d = (snd (in_cloud (pyrinas_cloud_connect (plat B)) d2))\<lparr>main_waits := True\<rparr>"
    using cloud_start_waits [OF assms(1)] assms(2) by auto
  have "state_cb (cloud_s d2)" by (simp add: d2(1) pyrinas_cloud_register_state_evt_def)
  then show ?thesis
    using connect_result [OF d2(2)] follows_connect [of "cloud_s d2" "plat B"]
    by (simp add: d2(3) device_inv_def follows_def)
qed

text \<open>Nothing but \<open>main\<close> registers the callback.\<close>

definition keeps_callback :: "device_event set" where
  "keeps_callback = {e. \<forall>c. e \<noteq> Cloud_event (Register c)}"

lemma device_run_inv:
  assumes "errors_ok (plat B)"
  shows "set es \<subseteq> keeps_callback \<Longrightarrow> device_inv d \<Longrightarrow> exec (device_step B) d es = Some d' \<Longrightarrow> device_inv d'"
  by (rule exec_invariant) (auto simp: keeps_callback_def intro: device_step_inv [OF assms])

text \<open>
  C11. Once a start-up with assertions has come to its end, then at every moment of every run in which the client is not connected the reconnection
  work is waiting, so the device never stays disconnected with nothing to bring it back: neither a
  disconnect, nor a failed attempt, nor any other event of the client loses the work.
\<close>

theorem reconnection_always_scheduled:
  assumes "CLOUD_ENABLED C" and "ASSERTS C" and "errors_ok (plat B)"
    and "app_main B C cl lc au ca d0 = (Waits, d1)" and "exec (device_step B) d1 es = Some d2" and "set es \<subseteq> keeps_callback"
  shows "cloud_state_s (cloud_s d2) = cloud_state_disconnected \<longrightarrow> reconnect_pending d2"
proof -
  obtain d where "main_cloud_start B C lc au ca d = (Waits, d1)" using start_reaches_cloud [OF assms(1,4)] by auto
  then have "device_inv d1" by (rule start_inv [OF _ assms(2)])
  then have "device_inv d2" by (rule device_run_inv [OF assms(3,6) _ assms(5)])
  then show ?thesis by (simp add: device_inv_def)
qed


text \<open>
  The reconnection work that finds the client already connected schedules itself again, every ten seconds and for ever: the client answers
  that it is connected with the negative of \<open>EINPROGRESS\<close>, and the work compares with the positive one.
\<close>

theorem reconnect_work_never_stops:
  assumes "cloud_state_s (cloud_s d) = cloud_state_connected" and "reconnect_pending d"
  shows "\<exists>d'. exec (device_step B) d (replicate n Reconnect) = Some d' \<and> reconnect_pending d' \<and> cloud_s d' = cloud_s d \<and>
    calls d' = calls d @ replicate n (Submit_reconnect 10, 0)"
  using assms
proof (induction n arbitrary: d)
  case (Suc n)
  let ?d1 = "submit_reconnect 10 (d\<lparr>reconnect_pending := False\<rparr>)"
  have d1: "cloud_s ?d1 = cloud_s d" "reconnect_pending ?d1" "calls ?d1 = calls d @ [(Submit_reconnect 10, 0)]"
    by (cases d; simp add: submit_reconnect_def emit_def)+
  have same: "d\<lparr>reconnect_pending := False, cloud_s := cloud_s d\<rparr> = d\<lparr>reconnect_pending := False\<rparr>" by (cases d) simp
  have "reconnect_work_fn B (d\<lparr>reconnect_pending := False\<rparr>) = ?d1"
    using Suc.prems(1) same
    by (simp add: reconnect_work_fn_def in_cloud_def pyrinas_cloud_connect_def case_prod_beta)
  then have "device_step B d Reconnect = Some ?d1" using Suc.prems(2) by (simp add: device_step_def)
  then show ?case using Suc.IH [of ?d1] Suc.prems(1) d1 by auto
qed simp

section \<open>The client inside the device\<close>

text \<open>The client's part of a device, and what a step of the device is for the client.\<close>

definition client_of :: "('m, 'd) device \<Rightarrow> thread_pc \<times> cloud" where
  "client_of d = (pc_s d, cloud_s d)"

definition client_events :: "('m, 'd) device \<Rightarrow> device_event \<Rightarrow> cloud_event list" where
  "client_events d e =
     (case e of Cloud_event c \<Rightarrow> [c] | Reconnect \<Rightarrow> if reconnect_pending d then [Connect] else [] | Main_thread \<Rightarrow> [])"

lemma submit_client [simp]: "client_of (submit_reconnect n d) = client_of d"
  by (cases d) (simp add: client_of_def submit_reconnect_def emit_def)

lemma give_client: "client_of ((emit Proceed_give d)\<lparr>proceed := n\<rparr>) = client_of d"
  by (cases d) (simp add: client_of_def emit_def)

lemma callback_client: "client_of (callback c d) = client_of d"
proof (cases c)
  case (Cloud_state_callback st)
  then show ?thesis by (cases st) (simp_all add: cloud_state_callback_def)
next
  case (Ota_state_callback st)
  then show ?thesis by (cases st) (simp_all add: pyrinas_cloud_ota_evt_handler_def give_client)
qed simp_all

lemma callbacks_client: "client_of (fold callback cs d) = client_of d"
  by (induction cs arbitrary: d) (simp_all add: callback_client)

lemma in_cloud_client: "client_of (snd (in_cloud f d)) = (pc_s d, snd (f (cloud_s d)))"
proof -
  have "client_of (d\<lparr>cloud_s := s\<rparr>) = (pc_s d, s)" for s by (cases d) (simp add: client_of_def)
  then show ?thesis by (simp add: in_cloud_def case_prod_beta Let_def callbacks_client)
qed

lemma device_step_client:
  assumes "device_step B d e = Some d'"
  shows "exec (cloud_step (plat B)) (client_of d) (client_events d e) = Some (client_of d')"
proof (cases e)
  case (Cloud_event c)
  then obtain pc s where s: "cloud_step (plat B) (pc_s d, cloud_s d) c = Some (pc, s)"
    "d' = snd (in_cloud (\<lambda>_. ((), s)) (d\<lparr>pc_s := pc\<rparr>))"
    using assms by (auto simp: device_step_def split: option.splits)
  have "pc_s (d\<lparr>pc_s := pc\<rparr>) = pc" by (cases d) simp
  then show ?thesis using s(1) Cloud_event by (simp add: s(2) in_cloud_client client_events_def) (simp add: client_of_def)
next
  case Reconnect
  let ?d = "d\<lparr>reconnect_pending := False\<rparr>"
  have same: "pc_s ?d = pc_s d" "cloud_s ?d = cloud_s d" by (cases d; simp)+
  have "client_of (reconnect_work_fn B ?d) = (pc_s d, snd (pyrinas_cloud_connect (plat B) (cloud_s d)))"
    using same by (simp add: reconnect_work_fn_def case_prod_beta Let_def in_cloud_client)
  then show ?thesis
    using assms Reconnect by (auto simp: device_step_def client_events_def) (simp add: client_of_def)
next
  case Main_thread
  have "client_of (d\<lparr>proceed := n, main_waits := b\<rparr>) = client_of d" for d :: "('a, 'b) device" and n b
    by (cases d) (simp add: client_of_def)
  moreover have "client_of (emit c d) = client_of d" for c and d :: "('a, 'b) device" by (simp add: client_of_def)
  ultimately have "client_of (main_proceed d) = client_of d" by (simp add: main_proceed_def)
  then show ?thesis using assms Main_thread by (auto simp: device_step_def client_events_def)
qed

interpretation client_in_device: simulation "device_step B" "cloud_step (plat B)" client_of client_events for B
  by unfold_locales (rule device_step_client)


section \<open>When the application is set up\<close>

text \<open>
  \<open>setup\<close> has been called once if \<open>main\<close> no longer waits and not at all if it does, and the semaphore has been
  given only if the client said that it is ready.
\<close>

definition is_setup :: "main_call \<times> int \<Rightarrow> bool" where
  "is_setup c \<longleftrightarrow> fst c = Setup"

definition setup_inv :: "('m, 'd) device \<Rightarrow> bool" where
  "setup_inv d \<longleftrightarrow> length (filter is_setup (calls d)) = (if main_waits d then 0 else 1) \<and>
     (\<not> main_waits d \<or> 0 < proceed d \<longrightarrow> Ota_state_callback ota_state_ready \<in> fst ` set (calls (cloud_s d)))"

lemma submit_setup [simp]:
  "main_waits (submit_reconnect n d) = main_waits d" "proceed (submit_reconnect n d) = proceed d"
  "filter is_setup (calls (submit_reconnect n d)) = filter is_setup (calls d)" "cloud_s (submit_reconnect n d) = cloud_s d"
  by (cases d; simp add: submit_reconnect_def emit_def is_setup_def)+

lemma give_setup [simp]:
  "main_waits ((emit Proceed_give d)\<lparr>proceed := n\<rparr>) = main_waits d"
  "filter is_setup (calls ((emit Proceed_give d)\<lparr>proceed := n\<rparr>)) = filter is_setup (calls d)"
  for d :: "('m, 'd) device"
  by (cases d; simp add: emit_def is_setup_def)+

lemma handler_setup:
  "main_waits (pyrinas_cloud_ota_evt_handler st d) = main_waits d \<and>
   filter is_setup (calls (pyrinas_cloud_ota_evt_handler st d)) = filter is_setup (calls d) \<and>
   proceed (pyrinas_cloud_ota_evt_handler st d) = (if st = ota_state_ready then 1 else proceed d)"
  by (cases st) (simp_all add: pyrinas_cloud_ota_evt_handler_def is_setup_def)

lemma main_proceed_frame:
  "calls (d\<lparr>proceed := n, main_waits := b\<rparr>) = calls d" "cloud_s (d\<lparr>proceed := n, main_waits := b\<rparr>) = cloud_s d"
  "main_waits (d\<lparr>proceed := n, main_waits := b\<rparr>) = b"
  by (cases d; simp)+

lemma setup_proceed: "setup_inv d \<Longrightarrow> setup_inv (main_proceed d)"
  by (auto simp: main_proceed_def setup_inv_def main_proceed_frame is_setup_def)

lemma submit_setup_inv: "setup_inv (submit_reconnect n d) = setup_inv d"
  by (simp add: setup_inv_def)

lemma callback_setup:
  "main_waits (callback c d) = main_waits d \<and> filter is_setup (calls (callback c d)) = filter is_setup (calls d) \<and>
   (0 < proceed (callback c d) \<longrightarrow> 0 < proceed d \<or> c = Ota_state_callback ota_state_ready)"
proof (cases c)
  case (Cloud_state_callback st)
  then show ?thesis by (cases st) (simp_all add: cloud_state_callback_def)
qed (simp_all add: handler_setup)

lemma callbacks_setup:
  "main_waits (fold callback cs d) = main_waits d"
  "filter is_setup (calls (fold callback cs d)) = filter is_setup (calls d)"
  "0 < proceed (fold callback cs d) \<Longrightarrow> 0 < proceed d \<or> Ota_state_callback ota_state_ready \<in> set cs"
proof (induction cs arbitrary: d)
  case (Cons c cs)
  {
    case 1
    show ?case using Cons(1) [of "callback c d"] callback_setup [of c d] by simp
  next
    case 2
    show ?case using Cons(2) [of "callback c d"] callback_setup [of c d] by simp
  next
    case 3
    then have "0 < proceed (fold callback cs (callback c d))" by simp
    from Cons(3) [OF this] show ?case using callback_setup [of c d] by auto
  }
qed simp_all

lemma in_cloud_setup:
  assumes "calls (snd (f (cloud_s d))) = calls (cloud_s d) @ tr" and "setup_inv d"
  shows "setup_inv (snd (in_cloud f d))"
proof -
  let ?d = "d\<lparr>cloud_s := snd (f (cloud_s d))\<rparr>"
  have frame: "main_waits ?d = main_waits d" "calls ?d = calls d" "proceed ?d = proceed d" by (cases d; simp)+
  have "snd (in_cloud f d) = fold callback (map fst tr) ?d"
    using assms(1) by (simp add: in_cloud_def case_prod_beta Let_def)
  then show ?thesis
    using assms callbacks_setup [of "map fst tr" ?d] frame by (auto simp: setup_inv_def)
qed

lemma device_step_setup:
  assumes "setup_inv d" and "device_step B d e = Some d'" and "e \<in> keeps_callback"
  shows "setup_inv d'"
proof (cases e)
  case (Cloud_event ce)
  then obtain pc s where s: "cloud_step (plat B) (pc_s d, cloud_s d) ce = Some (pc, s)"
    "d' = snd (in_cloud (\<lambda>_. ((), s)) (d\<lparr>pc_s := pc\<rparr>))"
    using assms(2) by (auto simp: device_step_def split: option.splits)
  obtain tr where "calls s = calls (cloud_s d) @ tr"
    using follows_step [OF s(1)] assms(3) Cloud_event unfolding keeps_callback_def follows_def by blast
  moreover have "cloud_s (d\<lparr>pc_s := pc\<rparr>) = cloud_s d" "setup_inv (d\<lparr>pc_s := pc\<rparr>) = setup_inv d"
    by (cases d; simp add: setup_inv_def)+
  ultimately show ?thesis unfolding s(2) using assms(1) by (intro in_cloud_setup) auto
next
  case Reconnect
  let ?d = "d\<lparr>reconnect_pending := False\<rparr>"
  let ?e = "snd (in_cloud (pyrinas_cloud_connect (plat B)) ?d)"
  obtain tr where tr: "calls (snd (pyrinas_cloud_connect (plat B) (cloud_s ?d))) = calls (cloud_s ?d) @ tr"
    using follows_connect [of "cloud_s ?d" "plat B"] unfolding follows_def by blast
  have 1: "setup_inv ?d" using assms(1) by (cases d) (simp add: setup_inv_def)
  have 2: "setup_inv ?e" using tr 1 by (rule in_cloud_setup)
  then show ?thesis
    using assms(1,2) Reconnect by (auto simp: submit_setup_inv device_step_def reconnect_work_fn_def case_prod_beta Let_def split: if_splits)
next
  case Main_thread
  then show ?thesis using assms(1,2) setup_proceed by (auto simp: device_step_def)
qed

lemma device_run_setup:
  "set es \<subseteq> keeps_callback \<Longrightarrow> setup_inv d \<Longrightarrow> exec (device_step B) d es = Some d' \<Longrightarrow> setup_inv d'"
  by (rule exec_invariant) (auto intro: device_step_setup)

text \<open>The device when it is switched on, for the parts that \<open>main\<close> looks at.\<close>

definition switched_on :: "('m, 'd) device \<Rightarrow> bool" where
  "switched_on d \<longleftrightarrow> calls d = [] \<and> proceed d = 0 \<and> \<not> reconnect_pending d \<and> pc_s d = Waiting \<and> calls (cloud_s d) = [] \<and>
     cloud_state_s (cloud_s d) = cloud_state_disconnected"

lemma cloud_frame:
  "calls (d\<lparr>cloud_s := s\<rparr>) = calls d" "proceed (d\<lparr>cloud_s := s\<rparr>) = proceed d" "cloud_s (d\<lparr>cloud_s := s\<rparr>) = s"
  by (cases d; simp)+

lemma start_setup:
  assumes "main_cloud_start B C lc au ca d1 = (Waits, d)" and "Setup \<notin> fst ` set (calls d1)" and "proceed d1 = 0"
  shows "setup_inv d"
proof -
  let ?f = "pyrinas_cloud_connect (plat B)"
  obtain d2 where d2: "proceed d2 = 0" "calls d2 = calls d1 @ [(K_delayed_work_init, 0)]"
    "d = (snd (in_cloud ?f d2))\<lparr>main_waits := True\<rparr> \<or> d = d2\<lparr>main_waits := True\<rparr>"
    using cloud_start_waits [OF assms(1)] assms(3) by (auto split: if_splits)
  have none: "filter is_setup (calls d2) = []"
    using assms(2) by (auto simp: d2(2) is_setup_def filter_empty_conv image_iff)
  obtain tr where tr: "calls (snd (?f (cloud_s d2))) = calls (cloud_s d2) @ tr"
    using follows_connect [of "cloud_s d2" "plat B"] unfolding follows_def by blast
  define x where "x = d2\<lparr>cloud_s := snd (?f (cloud_s d2))\<rparr>"
  have x: "proceed x = 0" "filter is_setup (calls x) = []" "calls (cloud_s x) = calls (cloud_s d2) @ tr"
    using d2(1) none tr by (simp_all add: x_def cloud_frame)
  have "snd (in_cloud ?f d2) = fold callback (map fst tr) x"
    using tr by (simp add: x_def in_cloud_def case_prod_beta Let_def)
  then have "setup_inv ((snd (in_cloud ?f d2))\<lparr>main_waits := True\<rparr>)"
    using callbacks_setup [of "map fst tr" x] x by (auto simp: setup_inv_def waits_frame)
  moreover have "setup_inv (d2\<lparr>main_waits := True\<rparr>)"
    using none d2(1) by (simp add: setup_inv_def waits_frame)
  ultimately show ?thesis using d2(3) by auto
qed

text \<open>
  C31. With the cloud client, the application's \<open>setup\<close> is called at most once in the life of the device, and only after
  the client has reported that it is ready.
\<close>

theorem setup_once_and_when_ready:
  assumes "CLOUD_ENABLED C" and "switched_on d0"
    and "app_main B C cl lc au ca d0 = (Waits, d1)" and "exec (device_step B) d1 es = Some d2" and "set es \<subseteq> keeps_callback"
  shows "length (filter is_setup (calls d2)) \<le> 1 \<and>
    (filter is_setup (calls d2) \<noteq> [] \<longrightarrow> Ota_state_callback ota_state_ready \<in> fst ` set (calls (cloud_s d2)))"
proof -
  obtain d where d: "quiet_start d0 d" "main_cloud_start B C lc au ca d = (Waits, d1)"
    using start_reaches_cloud [OF assms(1,3)] by auto
  have "Setup \<notin> fst ` set (calls d)" "proceed d = 0" using d(1) assms(2) by (auto simp: quiet_start_def switched_on_def)
  then have "setup_inv d1" by (rule start_setup [OF d(2)])
  then have "setup_inv d2" by (rule device_run_setup [OF assms(5) _ assms(4)])
  then show ?thesis by (auto simp: setup_inv_def split: if_splits)
qed

section \<open>The image is confirmed early\<close>

lemma handler_calls: "\<exists>tr. calls (callback c d) = calls d @ tr"
proof (cases c)
  case (Cloud_state_callback st)
  have "\<exists>tr. calls (submit_reconnect 2 d) = calls d @ tr" by (cases d) (simp add: submit_reconnect_def emit_def)
  then show ?thesis using Cloud_state_callback by (cases st) (simp_all add: cloud_state_callback_def)
next
  case (Ota_state_callback st)
  have "\<exists>tr. calls ((emit Proceed_give d)\<lparr>proceed := 1\<rparr>) = calls d @ tr" by (cases d) (simp add: emit_def)
  then show ?thesis using Ota_state_callback by (cases st) (simp_all add: pyrinas_cloud_ota_evt_handler_def)
qed simp_all

lemma callbacks_calls: "\<exists>tr. calls (fold callback cs d) = calls d @ tr"
proof (induction cs arbitrary: d)
  case (Cons c cs)
  show ?case using Cons [of "callback c d"] handler_calls [of c d] by (metis append_assoc fold_simps(2))
qed simp

lemma in_cloud_calls: "\<exists>tr. calls (snd (in_cloud f d)) = calls d @ tr"
  using callbacks_calls [of _ "d\<lparr>cloud_s := snd (f (cloud_s d))\<rparr>"] by (simp add: in_cloud_def case_prod_beta Let_def cloud_frame)


lemma cell_frame: "calls (d\<lparr>cell_s := c\<rparr>) = calls d"
  by (cases d; simp)

lemma cloud_start_calls: "\<exists>tr. calls (snd (main_cloud_start B C lc au ca d)) = calls d @ tr"
proof (cases "cellular_configure lc au ca (cell_env B) (cell_s d)")
  case (Some c0)
  define d' where "d' = emit K_delayed_work_init (d\<lparr>cell_s := snd (cellular_info_init (cell_env B) c0)\<rparr>)"
  have d': "calls d' = calls d @ [(K_delayed_work_init, 0)]" "cloud_s d' = cloud_s d" by (cases d; simp add: d'_def cell_frame)+
  show ?thesis
  proof (cases "pyrinas_cloud_init (plat B) True True (cloud_s d')")
    case None
    then show ?thesis using Some d' by (simp add: main_cloud_start_def case_prod_beta Let_def flip: d'_def)
  next
    case s: (Some s)
    define d2 where "d2 = d'\<lparr>cloud_s := pyrinas_cloud_register_state_evt True s\<rparr>"
    have d2: "calls d2 = calls d @ [(K_delayed_work_init, 0)]" using d' by (simp add: d2_def cloud_frame)
    have "\<exists>tr. calls (snd (in_cloud (pyrinas_cloud_connect (plat B)) d2)) = calls d2 @ tr" by (rule in_cloud_calls)
    then show ?thesis
      using Some s d' d2
      by (auto simp: main_cloud_start_def case_prod_beta Let_def waits_frame simp flip: d'_def d2_def)
  qed
qed (simp add: main_cloud_start_def)

text \<open>
  The new image is marked as good whenever the start gets past the modem library, also when an assertion of the cloud part then fails,
  for instance because the modem, the watchdog or the broker cannot be reached: the boot loader does not go back to the old image in these cases.
\<close>

theorem image_confirmed_early:
  assumes "CLOUD_ENABLED C" and "IMG_MANAGER C" and "switched_on d0" and "app_main B C cl lc au ca d0 = (e, d)"
  shows "Boot_write_img_confirmed \<in> fst ` set (calls d) \<longleftrightarrow> e = Assertion_failed \<or> e = Waits"
proof (cases "e = Suspended \<or> e = Returned")
  case True
  obtain r d1 where m: "main_modem B cl d0 = (r, d1)" by (cases "main_modem B cl d0")
  have never: "fst (main_cloud_start B C lc au ca x) \<noteq> Suspended \<and> fst (main_cloud_start B C lc au ca x) \<noteq> Returned" for x
    by (simp add: main_cloud_start_def case_prod_beta Let_def split: option.split)
  have "r \<noteq> None"
  proof
    assume "r = None"
    then have "main_cloud_start B C lc au ca (main_board B C d1) = (e, d)" using m assms(1,4) by (simp add: app_main_def)
    then show False using True never [of "main_board B C d1"] by simp
  qed
  then have "d = d1" using m assms(1,4) by (auto simp: app_main_def split: option.splits)
  then have "Boot_write_img_confirmed \<notin> fst ` set (calls d)"
    using m \<open>r \<noteq> None\<close> assms(3) by (auto simp: main_modem_def switched_on_def case_prod_beta split: bsdlib_result.splits)
  then show ?thesis using True by auto
next
  case False
  then obtain d1 where d1: "Boot_write_img_confirmed \<in> fst ` set (calls d1)" "main_cloud_start B C lc au ca d1 = (e, d)"
    using start_reaches_cloud [OF assms(1,4)] assms(2) by auto
  moreover obtain tr where "calls d = calls d1 @ tr" using cloud_start_calls [of B C lc au ca d1] d1(2) by auto
  moreover have "e = Assertion_failed \<or> e = Waits" using False by (cases e) auto
  ultimately show ?thesis by auto
qed

section \<open>Without assertions\<close>

text \<open>Events that need neither the application nor the network: the threads of the program and the work.\<close>

definition on_its_own :: "device_event set" where
  "on_its_own = {e. e = Reconnect \<or> e = Main_thread \<or> (\<exists>t. e = Cloud_event (Thread t))}"

definition left_alone :: "('m, 'd) device \<Rightarrow> bool" where
  "left_alone d \<longleftrightarrow> pc_s d = Waiting \<and> \<not> reconnect_pending d \<and> proceed d = 0 \<and> main_waits d \<and>
     cloud_state_s (cloud_s d) = cloud_state_disconnected \<and> sem_count (calls (cloud_s d)) = 0 \<and>
     Mqtt_connect \<notin> fst ` set (calls (cloud_s d))"

lemma wait_fails:
  assumes "env P (calls s) (K_sem_take 55) \<noteq> 0"
  shows "\<exists>s' tr. process_wait P s = (Waiting, s') \<and> calls s' = calls s @ tr \<and> cloud_state_s s' = cloud_state_s s \<and>
    sem_count (calls s') = sem_count (calls s) \<and> set (map fst tr) \<subseteq> {K_sem_take 55, Wdt_feed}"
  using assms by (cases "wdt_started_s s") (simp_all add: process_wait_def cloud_defs sem_count_def del: set_map)

lemma quiet_callbacks: "set cs \<subseteq> {K_sem_take 55, Wdt_feed} \<Longrightarrow> fold callback cs d = d"
  by (induction cs) auto

lemma left_alone_step:
  assumes "sem_laws (plat B)" and "left_alone d" and "e \<in> on_its_own"
  shows "\<exists>d'. device_step B d e = Some d' \<and> left_alone d'"
proof (cases "e = Reconnect \<or> e = Main_thread")
  case True
  then show ?thesis using assms(2) by (auto simp: device_step_def left_alone_def main_proceed_def)
next
  case False
  then obtain t where e: "e = Cloud_event (Thread t)" using assms(3) by (auto simp: on_its_own_def)
  let ?s = "cloud_s d"
  have "env (plat B) (calls ?s) (K_sem_take 55) \<noteq> 0" using assms(1,2) by (simp add: sem_laws_def left_alone_def)
  from wait_fails [OF this] obtain s tr where s: "process_wait (plat B) ?s = (Waiting, s)" "calls s = calls ?s @ tr" "cloud_state_s s = cloud_state_s ?s"
    "sem_count (calls s) = sem_count (calls ?s)" "set (map fst tr) \<subseteq> {K_sem_take 55, Wdt_feed}"
    by blast
  define d' where "d' = d\<lparr>pc_s := Waiting, cloud_s := s\<rparr>"
  have d': "pc_s d' = Waiting" "reconnect_pending d' = reconnect_pending d" "proceed d' = proceed d" "main_waits d' = main_waits d"
    "cloud_s d' = s" by (cases d; simp add: d'_def)+
  have "fold callback (map fst tr) d' = d'" by (rule quiet_callbacks [OF s(5)])
  then have "device_step B d e = Some d'"
    using assms(2) s by (simp add: e device_step_def in_cloud_def left_alone_def d'_def del: set_map)
  moreover have "left_alone d'" using assms(2) s d' by (auto simp: left_alone_def)
  ultimately show ?thesis by simp
qed

interpretation idle: event_system "device_step B" "\<lambda>d e. e \<in> on_its_own" "\<lambda>d. sem_laws (plat B) \<and> left_alone d" for B
  by unfold_locales (use left_alone_step in blast)

lemma exec_ok_all: "set es \<subseteq> A \<Longrightarrow> exec_ok step (\<lambda>s e. e \<in> A) s es"
  by (rule exec_ok_always) auto

lemma init_idle:
  assumes "pyrinas_cloud_init P q c s = Some s'"
  shows "\<exists>tr. calls s' = calls s @ tr \<and> map fst tr = [Wdt_get_binding, Wdt_install_timeout, At_cmd_write, Fota_download_init] \<and>
    cloud_state_s s' = cloud_state_s s"
  using assms by (auto simp: pyrinas_cloud_init_def get_imei_def cloud_defs split: if_splits)

lemma start_left_alone:
  assumes "main_cloud_start B C lc au ca d1 = (Waits, d)" and "\<not> ASSERTS C" and "pc_s d1 = Waiting" and "\<not> reconnect_pending d1"
    and "proceed d1 = 0" and "calls (cloud_s d1) = []" and "cloud_state_s (cloud_s d1) = cloud_state_disconnected"
  shows "left_alone d"
proof -
  obtain d2 s where d2: "cloud_s d2 = pyrinas_cloud_register_state_evt True s" "pyrinas_cloud_init (plat B) True True (cloud_s d1) = Some s"
    "pc_s d2 = Waiting" "\<not> reconnect_pending d2" "proceed d2 = 0" "d = d2\<lparr>main_waits := True\<rparr>"
    using cloud_start_waits [OF assms(1)] assms(2-5) by auto
  obtain tr where tr: "calls s = tr" "map fst tr = [Wdt_get_binding, Wdt_install_timeout, At_cmd_write, Fota_download_init]"
    "cloud_state_s s = cloud_state_disconnected"
    using init_idle [OF d2(2)] assms(6,7) by auto
  have "calls (cloud_s d2) = tr" "cloud_state_s (cloud_s d2) = cloud_state_disconnected"
    using d2(1) tr by (simp_all add: pyrinas_cloud_register_state_evt_def)
  moreover have "sem_count tr = 0" using tr(2) by (auto simp: sem_count_def)
  moreover have "Mqtt_connect \<notin> set (map fst tr)" by (simp add: tr(2) del: set_map)
  ultimately show ?thesis using d2(3-6) by (simp add: left_alone_def waits_frame)
qed

text \<open>
  When assertions are compiled out, the device never connects on its own: the first attempt is the argument of an assertion and goes with it, the
  reconnection work is not scheduled because there was no disconnect, \<open>main\<close> waits for ever and \<open>setup\<close> is not called.
\<close>

theorem no_assertions_no_connection:
  assumes "CLOUD_ENABLED C" and "\<not> ASSERTS C" and "sem_laws (plat B)" and "switched_on d0"
    and "app_main B C cl lc au ca d0 = (Waits, d1)" and "set es \<subseteq> on_its_own"
  shows "\<exists>d2. exec (device_step B) d1 es = Some d2 \<and> main_waits d2 \<and> \<not> reconnect_pending d2 \<and> \<not> pyrinas_cloud_is_connected (cloud_s d2) \<and>
    Mqtt_connect \<notin> fst ` set (calls (cloud_s d2))"
proof -
  obtain d where d: "quiet_start d0 d" "main_cloud_start B C lc au ca d = (Waits, d1)"
    using start_reaches_cloud [OF assms(1,5)] by auto
  have "left_alone d1"
    using start_left_alone [OF d(2) assms(2)] d(1) assms(4) by (simp add: quiet_start_def switched_on_def)
  with idle.exec_inv [where B = B, OF _ exec_ok_all [OF assms(6)]] assms(3) obtain d2 where "exec (device_step B) d1 es = Some d2" "left_alone d2"
    by blast
  then show ?thesis by (intro exI [of _ d2]) (simp add: left_alone_def pyrinas_cloud_is_connected_def)
qed

section \<open>The properties at work\<close>

text \<open>
  A hub whose libraries answer as documented, its state when it is switched on, and its configuration. The semaphore is
  the kernel's: it cannot be taken while its count is 0.
\<close>

definition hub_platform :: "(ota_msg \<times> dec_pos) option platform" where
  "hub_platform = offers\<lparr>env := (\<lambda>h c. case c of Wdt_get_binding \<Rightarrow> 1 | K_malloc \<Rightarrow> 1000 | Read_payload n \<Rightarrow> int n
     | K_sem_take t \<Rightarrow> (if sem_count h = 0 then - EAGAIN else 0) | _ \<Rightarrow> 0)\<rparr>"

definition hub_board :: "((ota_msg \<times> dec_pos) option, byte \<Rightarrow> byte) board" where
  "hub_board = \<lparr>plat = hub_platform, cell_env = (\<lambda>h c. 0), main_env = (\<lambda>h c. 1), bus = example_i2c\<rparr>"

definition hub_config :: main_config where
  "hub_config = \<lparr>CLOUD_ENABLED = True, IMG_MANAGER = True, LITTLEFS = True, APP_WIPE_STORAGE = False,
     MCUMGR_CMD_IMG_MGMT = True, PCF85063A = True, ASSERTS = True\<rparr>"

definition hub_off :: "(nat, byte \<Rightarrow> byte) device" where
  "hub_off = \<lparr>calls = [], pc_s = Waiting, cloud_s = example_cloud, cell_s = cellular_example, rtc_s = (\<lambda>r. 0xff),
     reconnect_pending = False, proceed = 0, main_waits = False\<rparr>"

definition bsdlib_ok :: "int \<Rightarrow> bsdlib_result" where
  "bsdlib_ok r = Bsdlib_other"

lemma hub_off_on: "switched_on hub_off"
  by (simp add: switched_on_def hub_off_def example_cloud_def)

lemma hub_sem_laws: "sem_laws hub_platform"
  by (simp add: sem_laws_def hub_platform_def)

lemma hub_errors_ok: "errors_ok hub_platform"
  by (simp add: errors_ok_def hub_platform_def)

lemma start_ends_waiting:
  assumes "cellular_configure lc au ca (cell_env B) (cell_s d) = Some c" and "pyrinas_cloud_init (plat B) True True (cloud_s d) = Some s"
    and "ASSERTS C \<Longrightarrow> fst (pyrinas_cloud_connect (plat B) (pyrinas_cloud_register_state_evt True s)) = 0"
  shows "fst (main_cloud_start B C lc au ca d) = Waits"
proof -
  define d' where "d' = emit K_delayed_work_init (d\<lparr>cell_s := snd (cellular_info_init (cell_env B) c)\<rparr>)"
  have d': "cloud_s d' = cloud_s d" by (cases d) (simp add: d'_def)
  show ?thesis
    using assms d' by (simp add: main_cloud_start_def case_prod_beta Let_def cloud_frame flip: d'_def)
qed

lemma hub_connects:
  "\<exists>s. pyrinas_cloud_init hub_platform True True example_cloud = Some s \<and>
     fst (pyrinas_cloud_connect hub_platform (pyrinas_cloud_register_state_evt True s)) = 0"
  by (simp add: pyrinas_cloud_init_def pyrinas_cloud_connect_def pyrinas_cloud_register_state_evt_def get_imei_def
      client_init_def broker_init_def hub_platform_def offers_def example_platform_def example_cloud_def cloud_defs sizeof_sockaddr_in_def)

lemma hub_starts:
  assumes "CLOUD_ENABLED C"
  shows "fst (app_main hub_board C bsdlib_ok True False False hub_off) = Waits"
proof -
  obtain d1 where m: "main_modem hub_board bsdlib_ok hub_off = (None, d1)"
    by (simp add: main_modem_def bsdlib_ok_def case_prod_beta)
  let ?d = "main_board hub_board C d1"
  have q: "quiet_start hub_off ?d" using quiet_start_trans [OF quiet_modem [OF m]] quiet_board [of d1 hub_board C] by blast
  obtain s where s: "pyrinas_cloud_init hub_platform True True example_cloud = Some s"
    "fst (pyrinas_cloud_connect hub_platform (pyrinas_cloud_register_state_evt True s)) = 0"
    using hub_connects by blast
  have "cellular_configure True False False (cell_env hub_board) (cell_s ?d)
      = Some (emit Lte_register_handler (snd (ext (\<lambda>h c. 0) Lte_init_and_connect cellular_example)))"
    using q by (simp add: quiet_start_def cellular_configure_def hub_board_def hub_off_def ext_def)
  moreover have "pyrinas_cloud_init (plat hub_board) True True (cloud_s ?d) = Some s"
    using q s(1) by (simp add: quiet_start_def hub_board_def hub_off_def)
  ultimately have "fst (main_cloud_start hub_board C True False False ?d) = Waits"
    using s(2) by (intro start_ends_waiting) (simp_all add: hub_board_def)
  then show ?thesis using m assms by (simp add: app_main_def)
qed

lemma hub_main: "CLOUD_ENABLED C \<Longrightarrow> \<exists>d. app_main hub_board C bsdlib_ok True False False hub_off = (Waits, d)"
  using hub_starts by (metis prod.collapse)


text \<open>The client when the hub has started.\<close>

lemma hub_cloud:
  assumes "CLOUD_ENABLED C" and "ASSERTS C" and "app_main hub_board C bsdlib_ok True False False hub_off = (Waits, d)"
  shows "ota_cb (cloud_s d) \<and> ota_state_s (cloud_s d) = ota_state_ready \<and> length (payload_buf (cloud_s d)) = 128 \<and>
    ota_data_s (cloud_s d) = example_ota \<and> cloud_state_s (cloud_s d) = cloud_state_connected"
proof -
  obtain d1 where d1: "quiet_start hub_off d1" "main_cloud_start hub_board C True False False d1 = (Waits, d)"
    using start_reaches_cloud [OF assms(1,3)] by auto
  have "cloud_s d1 = example_cloud" using d1(1) by (simp add: quiet_start_def hub_off_def)
  then obtain s where s: "pyrinas_cloud_init hub_platform True True example_cloud = Some s"
    "cloud_s d = snd (pyrinas_cloud_connect hub_platform (pyrinas_cloud_register_state_evt True s))"
    using cloud_start_waits [OF d1(2)] assms(2) by (auto simp: waits_frame hub_board_def)
  show ?thesis
    unfolding s(2) using s(1)
    by (auto simp: pyrinas_cloud_init_def pyrinas_cloud_connect_def pyrinas_cloud_register_state_evt_def get_imei_def
      client_init_def broker_init_def hub_platform_def offers_def example_platform_def example_cloud_def cloud_defs sizeof_sockaddr_in_def)
qed


lemma strncmp_refl: "strncmp xs xs n = 0"
proof (induction xs arbitrary: n)
  case (Cons x xs)
  then show ?case by (cases n) simp_all
next
  case Nil
  show ?case by (cases n) simp_all
qed

text \<open>An OTA message without an update, read from the network in one go, makes the hub's client report that it is ready.\<close>

definition no_update :: "cloud \<Rightarrow> device_event" where
  "no_update s = Cloud_event (Mqtt (Publish (ota_sub_topic s) (length (ota_sub_topic s)) [2] 1 0 7))"

lemma hub_payload:
  assumes "length (payload_buf s) = 128"
  shows "\<exists>s'. publish_get_payload hub_platform [2] 1 s = Some (0, s') \<and> take 1 (payload_buf s') = [2] \<and>
    ota_sub_topic s' = ota_sub_topic s \<and> ota_data_s s' = ota_data_s s \<and> ota_state_s s' = ota_state_s s \<and> ota_cb s' = ota_cb s \<and>
    (\<exists>tr. calls s' = calls s @ tr)"
  using assms by (cases "payload_buf s") (simp_all add: publish_get_payload_def payload_loop.simps memcpy_at_def hub_platform_def
      offers_def example_platform_def default_config_def ext_def)

lemma hub_message:
  assumes "ota_cb s" and "ota_state_s s = ota_state_ready" and "length (payload_buf s) = 128" and "ota_data_s s = example_ota"
  shows "\<exists>s' tr. mqtt_evt_handler hub_platform (Publish (ota_sub_topic s) (length (ota_sub_topic s)) [2] 1 0 7) s = Some s' \<and>
    calls s' = calls s @ tr \<and> map fst tr = butlast (map fst tr) @ [Ota_state_callback ota_state_ready]"
proof -
  obtain s1 tr1 where s1: "publish_get_payload hub_platform [2] 1 s = Some (0, s1)" "take 1 (payload_buf s1) = [2]"
    "ota_sub_topic s1 = ota_sub_topic s" "ota_data_s s1 = example_ota" "ota_state_s s1 = ota_state_ready" "ota_cb s1" "calls s1 = calls s @ tr1"
    using hub_payload [OF assms(3)] assms by auto
  have hub: "dec hub_platform = dec offers" "stack_temp hub_platform = stack_temp offers" "Decode_Init hub_platform = Decode_Init offers"
    "pyrinas_version hub_platform = pyrinas_version offers"
    by (simp_all add: hub_platform_def)
  have topic: "is_ota_topic (ota_sub_topic s) s1" by (simp add: is_ota_topic_def s1(3) strncmp_refl)
  have wf: "ota_data_wf example_ota" using offers_simps(6) by (simp add: example_cloud_def)
  obtain od where od: "decode_ota_data (dec offers) (stack_temp offers) example_ota (Decode_Init offers [2]) = Some (0, od)"
    "version od = msg_version old_msg"
    using decode_cases [OF offers_simps(1,5,7) wf] msg_fields by simp
  have "ver_comp (pyrinas_version offers) (version od) \<noteq> 1"
    unfolding od(2) using offers_simps(2)
    by (simp add: ver_comp_1_iff ver_wf_def msg_version_def old_msg_def example_msg_def is_update_def numbers_def less_ver_num_def
        offers_def example_platform_def)
  then obtain s' tr where "publish_evt_handler hub_platform (ota_sub_topic s) (length (ota_sub_topic s)) [2] s1 = Some s'"
    "calls s' = calls s1 @ tr" "\<exists>xs. map fst tr = xs @ [Ota_state_callback ota_state_ready]"
    using handler_no_update [OF topic, of hub_platform "[2]" 0 od "length (ota_sub_topic s)"] od(1) s1(4-6) hub by auto
  then show ?thesis
    using s1 by (intro exI [of _ s'] exI [of _ "tr1 @ tr"]) (auto simp: qos1_ack_def butlast_append)
qed

lemma callbacks_ready: "proceed (fold callback (xs @ [Ota_state_callback ota_state_ready]) d) = 1"
  by (simp add: pyrinas_cloud_ota_evt_handler_def)


theorem reconnection_always_scheduled_witness:
  "\<exists>d1 d2. app_main hub_board hub_config bsdlib_ok True False False hub_off = (Waits, d1) \<and>
     exec (device_step hub_board) d1 [Main_thread, Cloud_event (Mqtt (Disconnect 0)), Main_thread] = Some d2 \<and>
     cloud_state_s (cloud_s d2) = cloud_state_disconnected \<and> reconnect_pending d2"
proof -
  let ?es = "[Main_thread, Cloud_event (Mqtt (Disconnect 0)), Main_thread]"
  have cfg: "CLOUD_ENABLED hub_config" "ASSERTS hub_config" by (simp_all add: hub_config_def)
  obtain d1 where d1: "app_main hub_board hub_config bsdlib_ok True False False hub_off = (Waits, d1)"
    using hub_main [OF cfg(1)] by blast
  obtain d2 where d2: "exec (device_step hub_board) d1 ?es = Some d2"
    by (simp add: device_step_def)
  have "cloud_s (main_proceed d) = cloud_s d" for d :: "(nat, byte \<Rightarrow> byte) device"
    by (simp add: main_proceed_def main_proceed_frame)
  then have "cloud_state_s (cloud_s d2) = cloud_state_disconnected"
    using d2 by (auto simp: device_step_def on_disconnect_def cloud_defs)
  moreover have "errors_ok (plat hub_board)" "set ?es \<subseteq> keeps_callback"
    using hub_errors_ok by (simp_all add: hub_board_def keeps_callback_def)
  ultimately show ?thesis using reconnection_always_scheduled [OF cfg _ d1 d2] d1 d2 by blast
qed

theorem reconnect_work_never_stops_witness:
  "\<exists>d. exec (device_step hub_board) (hub_off\<lparr>cloud_s := example_cloud\<lparr>cloud_state_s := cloud_state_connected\<rparr>, reconnect_pending := True\<rparr>)
     (replicate 3 Reconnect) = Some d \<and> reconnect_pending d \<and> length (calls d) = 3"
proof -
  let ?d = "hub_off\<lparr>cloud_s := example_cloud\<lparr>cloud_state_s := cloud_state_connected\<rparr>, reconnect_pending := True\<rparr>"
  have "cloud_state_s (cloud_s ?d) = cloud_state_connected" "reconnect_pending ?d" "calls ?d = []" by (simp_all add: hub_off_def)
  then show ?thesis using reconnect_work_never_stops [of ?d hub_board 3] by auto
qed

theorem image_confirmed_early_witness:
  "\<exists>d. app_main (hub_board\<lparr>cell_env := (\<lambda>h c. - 1)\<rparr>) hub_config bsdlib_ok True False False hub_off = (Assertion_failed, d) \<and>
     Boot_write_img_confirmed \<in> fst ` set (calls d)"
proof -
  let ?B = "hub_board\<lparr>cell_env := (\<lambda>h c. - 1)\<rparr>"
  have cfg: "CLOUD_ENABLED hub_config" "IMG_MANAGER hub_config" by (simp_all add: hub_config_def)
  obtain e d where d: "app_main ?B hub_config bsdlib_ok True False False hub_off = (e, d)" by force
  obtain d1 where "main_modem ?B bsdlib_ok hub_off = (None, d1)" by (simp add: main_modem_def bsdlib_ok_def case_prod_beta)
  then have "e = Assertion_failed"
    using d cfg(1) by (auto simp: app_main_def main_cloud_start_def cellular_configure_def ext_def)
  then show ?thesis using image_confirmed_early [OF cfg hub_off_on d] d by blast
qed

theorem no_assertions_no_connection_witness:
  "\<exists>d1 d2. app_main hub_board (hub_config\<lparr>ASSERTS := False\<rparr>) bsdlib_ok True False False hub_off = (Waits, d1) \<and>
     exec (device_step hub_board) d1 [Cloud_event (Thread quiet_turn), Main_thread, Reconnect] = Some d2 \<and>
     \<not> pyrinas_cloud_is_connected (cloud_s d2)"
proof -
  let ?es = "[Cloud_event (Thread quiet_turn), Main_thread, Reconnect]"
  have cfg: "CLOUD_ENABLED (hub_config\<lparr>ASSERTS := False\<rparr>)" "\<not> ASSERTS (hub_config\<lparr>ASSERTS := False\<rparr>)"
    by (simp_all add: hub_config_def)
  obtain d1 where d1: "app_main hub_board (hub_config\<lparr>ASSERTS := False\<rparr>) bsdlib_ok True False False hub_off = (Waits, d1)"
    using hub_main [OF cfg(1)] by blast
  have "sem_laws (plat hub_board)" "set ?es \<subseteq> on_its_own" using hub_sem_laws by (simp_all add: hub_board_def on_its_own_def)
  from no_assertions_no_connection [OF cfg this(1) hub_off_on d1 this(2)] show ?thesis using d1 by blast
qed

theorem setup_once_and_when_ready_witness:
  "\<exists>d1 d2. app_main hub_board hub_config bsdlib_ok True False False hub_off = (Waits, d1) \<and>
     exec (device_step hub_board) d1 [no_update (cloud_s d1), Main_thread, Main_thread] = Some d2 \<and>
     length (filter is_setup (calls d2)) = 1 \<and> Ota_state_callback ota_state_ready \<in> fst ` set (calls (cloud_s d2))"
proof -
  have cfg: "CLOUD_ENABLED hub_config" "ASSERTS hub_config" by (simp_all add: hub_config_def)
  obtain d1 where d1: "app_main hub_board hub_config bsdlib_ok True False False hub_off = (Waits, d1)"
    using hub_main [OF cfg(1)] by blast
  let ?e = "no_update (cloud_s d1)" and ?s = "cloud_s d1"
  obtain s' tr where s': "mqtt_evt_handler hub_platform (Publish (ota_sub_topic ?s) (length (ota_sub_topic ?s)) [2] 1 0 7) ?s = Some s'"
    "calls s' = calls ?s @ tr" "map fst tr = butlast (map fst tr) @ [Ota_state_callback ota_state_ready]"
    using hub_message hub_cloud [OF cfg d1] by blast
  define x where "x = fold callback (map fst tr) (d1\<lparr>pc_s := pc_s d1, cloud_s := s'\<rparr>)"
  have step: "device_step hub_board d1 ?e = Some x"
    using s'(1,2) by (simp add: no_update_def device_step_def hub_board_def in_cloud_def x_def)
  have "proceed x = 1" unfolding x_def by (subst s'(3)) (rule callbacks_ready)
  obtain d0 where "main_cloud_start hub_board hub_config True False False d0 = (Waits, d1)"
    using start_reaches_cloud [OF cfg(1) d1] by auto
  then have "main_waits d1" by (rule cloud_start_main_waits)
  then have "main_waits x" unfolding x_def by (cases d1) (simp add: callbacks_setup)
  obtain d2 where d2: "exec (device_step hub_board) d1 [?e, Main_thread, Main_thread] = Some d2"
    and set_up: "filter is_setup (calls d2) \<noteq> []"
    using step \<open>proceed x = 1\<close> \<open>main_waits x\<close> by (simp add: device_step_def main_proceed_def main_proceed_frame is_setup_def)
  have "set [?e, Main_thread, Main_thread] \<subseteq> keeps_callback" by (simp add: keeps_callback_def no_update_def)
  note result = setup_once_and_when_ready [OF cfg(1) hub_off_on d1 d2 this]
  have "length (filter is_setup (calls d2)) = 1"
    using result [THEN conjunct1] set_up by (cases "filter is_setup (calls d2)") simp_all
  then show ?thesis using d1 d2 result set_up by blast
qed



end
