(* ===== verification/Cloud_Ota.thy ===== *)
theory Cloud_Ota
  imports Cloud_Relation
begin

text \<open>
  The life of a firmware update. The client of \<open>Pyrinas_Cloud\<close> runs under a scheduler here: a work item runs only if it
  has been submitted and has not run since, and the download library reports the end of a download only
  while one is under way. An abstract machine says how an update proceeds; the client refines it.
\<close>

section \<open>The abstract machine\<close>

text \<open>
  The phase as \<open>ota_state_s\<close> has it, and what the device still has to do or has done: the download is scheduled, the
  library is downloading, the reboot is scheduled, the reboot has been asked for.
\<close>

record ota_life =
  phase :: ota_state
  download_due :: bool
  downloading :: bool
  reboot_due :: bool
  rebooted :: bool

inductive ota_move :: "ota_life \<Rightarrow> ota_life \<Rightarrow> bool" where
  offer_accepted: "ota_move l (l\<lparr>phase := ota_state_started, download_due := True\<rparr>)"
| download_started: "download_due l \<Longrightarrow>
    ota_move l (l\<lparr>phase := ota_state_downloading, download_due := False, downloading := True\<rparr>)"
| download_refused: "download_due l \<Longrightarrow>
    ota_move l (l\<lparr>phase := ota_state_error, download_due := False, rebooted := True\<rparr>)"
| download_failed: "downloading l \<Longrightarrow>
    ota_move l (l\<lparr>phase := ota_state_error, downloading := False, reboot_due := True\<rparr>)"
| download_finished: "downloading l \<Longrightarrow>
    ota_move l (l\<lparr>phase := ota_state_done, downloading := False, reboot_due := True\<rparr>)"
| reboots: "reboot_due l \<Longrightarrow>
    ota_move l (l\<lparr>phase := ota_state_rebooting, reboot_due := False, rebooted := True\<rparr>)"

inductive_cases ota_moveE: "ota_move l l'"

text \<open>What the phase says about the rest.\<close>

definition phase_tells :: "ota_life \<Rightarrow> bool" where
  "phase_tells l \<longleftrightarrow>
     (case phase l of
        ota_state_ready \<Rightarrow> \<not> download_due l \<and> \<not> downloading l \<and> \<not> reboot_due l \<and> \<not> rebooted l
      | ota_state_started \<Rightarrow> download_due l
      | ota_state_downloading \<Rightarrow> downloading l
      | ota_state_done \<Rightarrow> reboot_due l
      | ota_state_error \<Rightarrow> reboot_due l \<or> rebooted l
      | ota_state_reboot \<Rightarrow> False
      | ota_state_rebooting \<Rightarrow> rebooted l)"

lemma phase_tells_move: "ota_move l l' \<Longrightarrow> phase_tells l \<Longrightarrow> phase_tells l'"
  by (erule ota_moveE) (simp_all add: phase_tells_def)

lemma phase_tells_moves: "ota_move\<^sup>*\<^sup>* l l' \<Longrightarrow> phase_tells l \<Longrightarrow> phase_tells l'"
  by (induction rule: rtranclp_induct) (auto intro: phase_tells_move)

lemma never_ready_again: "ota_move\<^sup>*\<^sup>* l l' \<Longrightarrow> phase l' = ota_state_ready \<Longrightarrow> l' = l"
proof (induction rule: rtranclp_induct)
  case (step y z)
  from step.hyps(2) step.prems show ?case by (cases rule: ota_move.cases) auto
qed simp

section \<open>The client under a scheduler\<close>

text \<open>
  The work that a stretch of the trace submits, and whether a download is under way after it: one is from the call that starts it
  successfully until its end is reported, upon which the reboot is submitted.
\<close>

fun submitted1 :: "cloud_call \<Rightarrow> work list" where
  "submitted1 (Submit w) = [w]"
| "submitted1 (Submit_system w) = [w]"
| "submitted1 (Submit_delayed w n) = [w]"
| "submitted1 c = []"

definition submitted :: "(cloud_call \<times> int) list \<Rightarrow> work set" where
  "submitted tr = set (concat (map (submitted1 \<circ> fst) tr))"

fun fetch1 :: "cloud_call \<times> int \<Rightarrow> bool \<Rightarrow> bool" where
  "fetch1 (Fota_download_start h f t, r) b = (b \<or> r = 0)"
| "fetch1 (Submit_system w, r) b = (b \<and> w \<noteq> ota_reboot_work)"
| "fetch1 c b = b"

definition fetching :: "(cloud_call \<times> int) list \<Rightarrow> bool" where
  "fetching tr = fold fetch1 tr False"

text \<open>\<open>due\<close> is the work that has been submitted and has not run: the kernel holds an item at most once.\<close>

record scheduled =
  client_pc :: thread_pc
  client :: cloud
  due :: "work set"

definition take_step :: "'dc platform \<Rightarrow> cloud_event \<Rightarrow> work set \<Rightarrow> scheduled \<Rightarrow> scheduled option" where
  "take_step P e D c =
     (case cloud_step P (client_pc c, client c) e of
        None \<Rightarrow> None
      | Some (pc, s) \<Rightarrow>
          Some \<lparr>client_pc = pc, client = s, due = D \<union> submitted (drop (length (calls (client c))) (calls s))\<rparr>)"

definition scheduled_step :: "'dc platform \<Rightarrow> scheduled \<Rightarrow> cloud_event \<Rightarrow> scheduled option" where
  "scheduled_step P c e =
     (case e of
        Run w \<Rightarrow> if w \<in> due c then take_step P e (due c - {w}) c else Some c
      | Fota f \<Rightarrow> if fetching (calls (client c)) then take_step P e (due c) c else Some c
      | _ \<Rightarrow> take_step P e (due c) c)"

text \<open>The abstraction.\<close>

definition life :: "work set \<Rightarrow> cloud \<Rightarrow> ota_life" where
  "life D s = \<lparr>phase = ota_state_s s, download_due = (fota_work \<in> D), downloading = fetching (calls s),
     reboot_due = (ota_reboot_work \<in> D), rebooted = (Sys_reboot \<in> fst ` set (calls s))\<rparr>"

definition life_of :: "scheduled \<Rightarrow> ota_life" where
  "life_of c = life (due c) (client c)"

section \<open>Refinement\<close>

lemma submitted_simps [simp]:
  "submitted [] = {}" "submitted (tr @ tr') = submitted tr \<union> submitted tr'"
  "submitted (c # tr) = set (submitted1 (fst c)) \<union> submitted tr"
  by (simp_all add: submitted_def)

lemma fetching_append [simp]: "fetching (tr @ [c]) = fetch1 c (fetching tr)"
  by (simp add: fetching_def)

lemma ordinary_life: "ordinary c \<Longrightarrow> fetch1 (c, r) b = b \<and> c \<noteq> Sys_reboot \<and> fota_work \<notin> set (submitted1 c) \<and> ota_reboot_work \<notin> set (submitted1 c)"
  by (cases c) auto

text \<open>What a function does to the life of an update: a sequence of moves, with what it submits being due afterwards.\<close>

definition lives :: "cloud \<Rightarrow> cloud \<Rightarrow> bool" where
  "lives s s' \<longleftrightarrow> (\<exists>tr. calls s' = calls s @ tr \<and> (\<forall>D. ota_move\<^sup>*\<^sup>* (life D s) (life (D \<union> submitted tr) s')))"

lemma lives_trans: "lives s1 s2 \<Longrightarrow> lives s2 s3 \<Longrightarrow> lives s1 s3"
  unfolding lives_def by (metis (no_types, lifting) append_assoc rtranclp_trans submitted_simps(2) sup_assoc)

lemma lives_same: "calls s' = calls s @ tr \<Longrightarrow> (\<And>D. life (D \<union> submitted tr) s' = life D s) \<Longrightarrow> lives s s'"
  unfolding lives_def by auto

lemma lives_accepts: "lives s (emit (Submit_delayed fota_work 5) (notify_ota (s\<lparr>ota_state_s := ota_state_started\<rparr>)))"
proof -
  let ?s' = "emit (Submit_delayed fota_work 5) (notify_ota (s\<lparr>ota_state_s := ota_state_started\<rparr>))"
  let ?tr = "(if ota_cb s then [(Ota_state_callback ota_state_started, 0)] else []) @ [(Submit_delayed fota_work 5, 0)]"
  have "life (D \<union> submitted ?tr) ?s' = (life D s)\<lparr>phase := ota_state_started, download_due := True\<rparr>" for D
    by (simp add: life_def cloud_defs flip: append_assoc)
  then have "ota_move (life D s) (life (D \<union> submitted ?tr) ?s')" for D by (simp add: offer_accepted)
  moreover have "calls ?s' = calls s @ ?tr" by (simp add: cloud_defs)
  ultimately show ?thesis unfolding lives_def by blast
qed

interpretation living: client_relation lives
proof unfold_locales
  show "lives s s'" if "same_members s s'" for s s'
    using that by (intro lives_same [of _ _ "[]"]) (simp_all add: same_members_def life_def)
  show "lives s (s\<lparr>initial_ota_check := True, ota_data_s := od\<rparr>)" for s od
    by (rule lives_same [of _ _ "[]"]) (simp_all add: life_def)
  show "lives s (s\<lparr>calls := calls s @ [(c, r)]\<rparr>)" if "ordinary c" for s c r
    using ordinary_life [OF that] by (intro lives_same) (auto simp: life_def)
  show "lives s (s\<lparr>calls := calls s @ [(Mqtt_publish t d i, r)]\<rparr>)" for s t d i r
    by (intro lives_same) (auto simp: life_def)
  show "lives s (notify_cloud (s\<lparr>cloud_state_s := st\<rparr>))" for s st
    by (intro lives_same [of _ _ "if state_cb s then [(Cloud_state_callback st, 0)] else []"]) (auto simp: life_def cloud_defs)
  show "lives s (notify_ota s)" for s
    by (intro lives_same [of _ _ "if ota_cb s then [(Ota_state_callback (ota_state_s s), 0)] else []"]) (auto simp: life_def cloud_defs)
qed (auto intro: lives_trans lives_accepts)

text \<open>The three functions of an update, each when the scheduler lets it run.\<close>

lemma life_append [simp]: "fetching (tr @ c # tr') = fold fetch1 tr' (fetch1 c (fetching tr))"
  by (simp add: fetching_def)

lemma start_life:
  "\<exists>tr. calls (fota_start_fn P s) = calls s @ tr \<and>
    ota_move (life (insert fota_work D) s) (life (D - {fota_work} \<union> submitted tr) (fota_start_fn P s))"
proof -
  let ?f = "Fota_download_start (host_string (ota_data_s s)) (file_string (ota_data_s s)) (HTTPS_SEC_TAG (cfg P))"
  let ?l = "life (insert fota_work D) s"
  define r where "r = env P (calls s) ?f"
  define st where "st = (if r = 0 then ota_state_downloading else ota_state_error)"
  define tr where "tr = (?f, r) # (if ota_cb s then [(Ota_state_callback st, 0)] else []) @ (if r = 0 then [] else [(Sys_reboot, 0)])"
  have "calls (fota_start_fn P s) = calls s @ tr"
    by (simp add: fota_start_fn_def cloud_defs r_def tr_def st_def)
  moreover have "life (D - {fota_work} \<union> submitted tr) (fota_start_fn P s) =
    (if r = 0 then ?l\<lparr>phase := ota_state_downloading, download_due := False, downloading := True\<rparr>
     else ?l\<lparr>phase := ota_state_error, download_due := False, rebooted := True\<rparr>)"
    by (simp add: life_def fota_start_fn_def cloud_defs r_def tr_def st_def)
  moreover have "download_due ?l" by (simp add: life_def)
  ultimately show ?thesis using download_started download_refused by (intro exI [of _ tr]) simp
qed

lemma reboot_life:
  "\<exists>tr. calls (reboot_work_fn s) = calls s @ tr \<and>
    ota_move (life (insert ota_reboot_work D) s) (life (D - {ota_reboot_work} \<union> submitted tr) (reboot_work_fn s))"
proof -
  let ?l = "life (insert ota_reboot_work D) s"
  define tr where "tr = (Sys_reboot, 0 :: int) # (if ota_cb s then [(Ota_state_callback ota_state_rebooting, 0)] else [])"
  have "calls (reboot_work_fn s) = calls s @ tr" by (simp add: reboot_work_fn_def cloud_defs tr_def)
  moreover have "life (D - {ota_reboot_work} \<union> submitted tr) (reboot_work_fn s) =
    ?l\<lparr>phase := ota_state_rebooting, reboot_due := False, rebooted := True\<rparr>"
    by (simp add: life_def reboot_work_fn_def cloud_defs tr_def)
  moreover have "reboot_due ?l" by (simp add: life_def)
  ultimately show ?thesis using reboots by (intro exI [of _ tr]) simp
qed

lemma fota_life:
  assumes "fetching (calls s)"
  shows "\<exists>tr. calls (fota_evt e s) = calls s @ tr \<and> ota_move\<^sup>*\<^sup>* (life D s) (life (D \<union> submitted tr) (fota_evt e s))"
proof (cases "e = FOTA_DOWNLOAD_EVT_OTHER")
  case False
  let ?l = "life D s"
  define st where "st = (if e = FOTA_DOWNLOAD_EVT_ERROR then ota_state_error else ota_state_done)"
  define tr where "tr = (if ota_cb s then [(Ota_state_callback st, 0)] else []) @ [(Submit_system ota_reboot_work, 0 :: int)]"
  have "calls (fota_evt e s) = calls s @ tr" using False by (cases e) (simp_all add: cloud_defs tr_def st_def)
  moreover have "life (D \<union> submitted tr) (fota_evt e s) = ?l\<lparr>phase := st, downloading := False, reboot_due := True\<rparr>"
    using False by (cases e) (simp_all add: life_def cloud_defs tr_def st_def)
  moreover have "downloading ?l" using assms by (simp add: life_def)
  ultimately show ?thesis
    using download_failed [of ?l] download_finished [of ?l] by (intro exI [of _ tr]) (auto simp: st_def)
qed auto

text \<open>A step of the scheduled client.\<close>

lemma take_step_life:
  assumes "take_step P e D c = Some c'"
    and "\<And>pc s. cloud_step P (client_pc c, client c) e = Some (pc, s) \<Longrightarrow>
      \<exists>tr. calls s = calls (client c) @ tr \<and> ota_move\<^sup>*\<^sup>* (life_of c) (life (D \<union> submitted tr) s)"
  shows "ota_move\<^sup>*\<^sup>* (life_of c) (life_of c')"
proof -
  obtain pc s where s: "cloud_step P (client_pc c, client c) e = Some (pc, s)"
    "c' = \<lparr>client_pc = pc, client = s, due = D \<union> submitted (drop (length (calls (client c))) (calls s))\<rparr>"
    using assms(1) by (auto simp: take_step_def split: option.splits)
  then obtain tr where "calls s = calls (client c) @ tr" "ota_move\<^sup>*\<^sup>* (life_of c) (life (D \<union> submitted tr) s)"
    using assms(2) by blast
  then show ?thesis by (simp add: s(2) life_of_def)
qed

lemma routine_life:
  assumes "take_step P e D c = Some c'" and "routine e \<or> (\<exists>b. e = Register b)"
    and "life D (client c) = life_of c"
  shows "ota_move\<^sup>*\<^sup>* (life_of c) (life_of c')"
proof (rule take_step_life [OF assms(1)])
  fix pc s
  assume s: "cloud_step P (client_pc c, client c) e = Some (pc, s)"
  have "lives (client c) s"
  proof (cases "routine e")
    case True
    then show ?thesis by (rule living.step [OF s])
  next
    case False
    then have "calls s = calls (client c) @ []" "ota_state_s s = ota_state_s (client c)"
      using assms(2) s by (auto simp: pyrinas_cloud_register_state_evt_def)
    then show ?thesis by (intro lives_same [of _ _ "[]"]) (simp_all add: life_def)
  qed
  then show "\<exists>tr. calls s = calls (client c) @ tr \<and> ota_move\<^sup>*\<^sup>* (life_of c) (life (D \<union> submitted tr) s)"
    using assms(3) unfolding lives_def by metis
qed

lemma run_life:
  assumes "take_step P (Run w) (due c - {w}) c = Some c'" and "w \<in> due c"
  shows "ota_move\<^sup>*\<^sup>* (life_of c) (life_of c')"
proof (cases "ota_work w")
  case False
  then have "life (due c - {w}) (client c) = life_of c" by (auto simp: life_def life_of_def)
  then show ?thesis using routine_life [OF assms(1)] False by simp
next
  case True
  show ?thesis
  proof (rule take_step_life [OF assms(1)])
    fix pc s
    assume s: "cloud_step P (client_pc c, client c) (Run w) = Some (pc, s)"
    have "insert w (due c) = due c" using assms(2) by auto
    then have "\<exists>tr. calls s = calls (client c) @ tr \<and> ota_move (life_of c) (life (due c - {w} \<union> submitted tr) s)"
      using s True start_life [of P "client c" "due c"] reboot_life [of "client c" "due c"]
      by (auto simp: ota_work_iff life_of_def)
    then show "\<exists>tr. calls s = calls (client c) @ tr \<and> ota_move\<^sup>*\<^sup>* (life_of c) (life (due c - {w} \<union> submitted tr) s)"
      by blast
  qed
qed

lemma scheduled_step_life:
  assumes "scheduled_step P c e = Some c'"
  shows "ota_move\<^sup>*\<^sup>* (life_of c) (life_of c')"
proof (cases e)
  case (Run w)
  then show ?thesis using assms run_life [of P w c c'] by (auto simp: scheduled_step_def split: if_splits)
next
  case (Fota f)
  show ?thesis
  proof (cases "fetching (calls (client c))")
    case True
    then have t: "take_step P e (due c) c = Some c'" using assms Fota by (simp add: scheduled_step_def)
    show ?thesis
      by (rule take_step_life [OF t]) (use Fota fota_life [OF True, of f] in \<open>auto simp: life_of_def\<close>)
  qed (use assms Fota in \<open>simp add: scheduled_step_def\<close>)
qed (use assms routine_life [of P e "due c" c c'] in \<open>auto simp: scheduled_step_def life_of_def\<close>)

lemma scheduled_life: "exec (scheduled_step P) c es = Some c' \<Longrightarrow> ota_move\<^sup>*\<^sup>* (life_of c) (life_of c')"
  by (rule exec_lift [where A = UNIV and R = "\<lambda>x y. ota_move\<^sup>*\<^sup>* (life_of x) (life_of y)"])
    (auto intro: scheduled_step_life)

section \<open>Properties\<close>

text \<open>A client that has just been started.\<close>

definition fresh_client :: "scheduled \<Rightarrow> bool" where
  "fresh_client c \<longleftrightarrow> ota_state_s (client c) = ota_state_ready \<and> fota_work \<notin> due c \<and> ota_reboot_work \<notin> due c \<and>
     \<not> fetching (calls (client c)) \<and> Sys_reboot \<notin> fst ` set (calls (client c))"

lemma fresh_phase: "fresh_client c \<Longrightarrow> phase_tells (life_of c)"
  by (simp add: fresh_client_def phase_tells_def life_of_def life_def)

lemma run_phase: "fresh_client c \<Longrightarrow> exec (scheduled_step P) c es = Some c' \<Longrightarrow> phase_tells (life_of c')"
  using phase_tells_moves [OF scheduled_life fresh_phase] .

text \<open>
  C4. Every run of the client, whatever messages, failures, reports and timers it is made of, is a run of the abstract
  machine of an update: the phase moves only along its arrows, a download starts only after an
  accepted offer, and the device reboots only after a download has ended or was refused.
\<close>

theorem update_life_cycle:
  assumes "exec (scheduled_step P) c es = Some c'"
  shows "ota_move\<^sup>*\<^sup>* (life_of c) (life_of c')"
  by (rule scheduled_life [OF assms])

text \<open>
  C14. The phase of an update always tells the truth, so an update never gets stuck: in every reachable state
  of a device that is not ready the download is scheduled, or under way, or the reboot is
  scheduled, or has been asked for; and while it is ready none of this is the case.
\<close>

theorem update_never_stuck:
  assumes "fresh_client c" and "exec (scheduled_step P) c es = Some c'"
  shows "case ota_state_s (client c') of
     ota_state_ready \<Rightarrow> fota_work \<notin> due c' \<and> \<not> fetching (calls (client c')) \<and> ota_reboot_work \<notin> due c' \<and>
       Sys_reboot \<notin> fst ` set (calls (client c'))
   | ota_state_started \<Rightarrow> fota_work \<in> due c'
   | ota_state_downloading \<Rightarrow> fetching (calls (client c'))
   | ota_state_done \<Rightarrow> ota_reboot_work \<in> due c'
   | ota_state_error \<Rightarrow> ota_reboot_work \<in> due c' \<or> Sys_reboot \<in> fst ` set (calls (client c'))
   | ota_state_reboot \<Rightarrow> False
   | ota_state_rebooting \<Rightarrow> Sys_reboot \<in> fst ` set (calls (client c'))"
  using run_phase [OF assms] by (simp add: phase_tells_def life_of_def life_def split: ota_state.splits)

text \<open>What can happen next: work that is due, the end of a download that is under way.\<close>

definition enabled :: "scheduled \<Rightarrow> cloud_event \<Rightarrow> bool" where
  "enabled c e = (case e of Run w \<Rightarrow> w \<in> due c | Fota f \<Rightarrow> fetching (calls (client c)) | _ \<Rightarrow> True)"

definition update_events :: "cloud_event set" where
  "update_events = {Run fota_work, Fota FOTA_DOWNLOAD_EVT_FINISHED, Run ota_reboot_work}"

definition reboots_within :: "'dc platform \<Rightarrow> nat \<Rightarrow> scheduled \<Rightarrow> bool" where
  "reboots_within P n c \<longleftrightarrow> (\<exists>es c'. length es \<le> n \<and> set es \<subseteq> update_events \<and> exec_ok (scheduled_step P) enabled c es \<and>
     exec (scheduled_step P) c es = Some c' \<and> Sys_reboot \<in> fst ` set (calls (client c')))"

lemma reboots_within_step:
  assumes "scheduled_step P c e = Some c1" and "reboots_within P n c1" and "enabled c e" and "e \<in> update_events"
  shows "reboots_within P (Suc n) c"
proof -
  obtain es c' where "length es \<le> n" "set es \<subseteq> update_events" "exec_ok (scheduled_step P) enabled c1 es"
    "exec (scheduled_step P) c1 es = Some c'" "Sys_reboot \<in> fst ` set (calls (client c'))"
    using assms(2) by (auto simp: reboots_within_def)
  then show ?thesis
    using assms by (auto simp: reboots_within_def intro!: exI [of _ "e # es"])
qed

lemma reboots_now: "Sys_reboot \<in> fst ` set (calls (client c)) \<Longrightarrow> reboots_within P n c"
  by (auto simp: reboots_within_def intro!: exI [of _ "[]"])

lemma reboots_when_due:
  assumes "ota_reboot_work \<in> due c"
  shows "reboots_within P 1 c"
proof -
  obtain c1 where c1: "scheduled_step P c (Run ota_reboot_work) = Some c1" "client c1 = reboot_work_fn (client c)"
    using assms by (auto simp: scheduled_step_def take_step_def)
  have "reboots_within P 0 c1" by (rule reboots_now) (simp add: c1(2) reboot_work_fn_def cloud_defs)
  then show ?thesis
    using reboots_within_step [OF c1(1)] assms by (simp add: enabled_def update_events_def)
qed

lemma reboots_when_fetching:
  assumes "fetching (calls (client c))"
  shows "reboots_within P 2 c"
proof -
  obtain c1 where c1: "scheduled_step P c (Fota FOTA_DOWNLOAD_EVT_FINISHED) = Some c1"
    using assms by (auto simp: scheduled_step_def take_step_def)
  have "ota_reboot_work \<in> due c1"
    using c1 assms by (auto simp: scheduled_step_def take_step_def cloud_defs)
  then have "reboots_within P (Suc 1) c"
    by (intro reboots_within_step [OF c1 reboots_when_due]) (simp_all add: enabled_def update_events_def assms)
  then show ?thesis by (simp add: numeral_2_eq_2)
qed

lemma reboots_when_started:
  assumes "fota_work \<in> due c"
  shows "reboots_within P 3 c"
proof -
  obtain c1 where c1: "scheduled_step P c (Run fota_work) = Some c1" "client c1 = fota_start_fn P (client c)"
    using assms by (auto simp: scheduled_step_def take_step_def)
  have "fetching (calls (client c1)) \<or> Sys_reboot \<in> fst ` set (calls (client c1))"
    by (auto simp: c1(2) fota_start_fn_def cloud_defs)
  then have "reboots_within P 2 c1" using reboots_when_fetching reboots_now by blast
  then have "reboots_within P (Suc 2) c"
    by (rule reboots_within_step [OF c1(1)]) (simp_all add: enabled_def update_events_def assms)
  then show ?thesis by (simp add: numeral_3_eq_3 numeral_2_eq_2)
qed


section \<open>An offer during a download\<close>

text \<open>
  A library that downloads one file at a time: it refuses to start while a download is under way. A message does not change whether one is.
\<close>

definition one_download :: "'dc platform \<Rightarrow> bool" where
  "one_download P \<longleftrightarrow> (\<forall>h p_host p_file tag. fetching h \<longrightarrow> env P h (Fota_download_start p_host p_file tag) \<noteq> 0)"

interpretation unfetching: client_relation "\<lambda>s s'. fetching (calls s') = fetching (calls s)"
proof unfold_locales
  show "fetching (calls (s\<lparr>calls := calls s @ [(c, r)]\<rparr>)) = fetching (calls s)" if "ordinary c" for s :: cloud and c r
    using ordinary_life [OF that] by simp
qed (auto simp: same_members_def cloud_defs)

lemma refused_start:
  assumes "one_download P" and "fetching (calls s)"
  shows "fetching (calls (fota_start_fn P s)) \<and> ota_state_s (fota_start_fn P s) = ota_state_error \<and>
    Sys_reboot \<in> fst ` set (calls (fota_start_fn P s))"
proof -
  have "env P (calls s) (Fota_download_start h n t) \<noteq> 0" for h n t
    using assms by (simp add: one_download_def)
  then show ?thesis using assms(2) by (simp add: fota_start_fn_def cloud_defs)
qed

text \<open>
  C21. An update that is being downloaded is broken off by its own offer: when the offer comes again, as it does when the server repeats it or the
  device asks again, the client accepts it again and schedules a second download; the library refuses that one because
  the first is still running, and the client takes this for a failure and reboots the device, in the
  middle of the first download.
\<close>

theorem second_offer_aborts_download:
  assumes "one_download P" and "fresh_client c0" and "exec (scheduled_step P) c0 es = Some c"
    and "ota_state_s (client c) = ota_state_downloading"
    and "scheduled_step P c (Mqtt e) = Some c1" and "ota_state_s (client c1) = ota_state_started"
  shows "\<exists>c2. scheduled_step P c1 (Run fota_work) = Some c2 \<and> fetching (calls (client c2)) \<and>
    ota_state_s (client c2) = ota_state_error \<and> Sys_reboot \<in> fst ` set (calls (client c2))"
proof -
  have f: "fetching (calls (client c))"
    using run_phase [OF assms(2,3)] assms(4) by (simp add: phase_tells_def life_of_def life_def)
  have "take_step P (Mqtt e) (due c) c = Some c1" using assms(5) by (simp add: scheduled_step_def)
  then obtain pc s where "cloud_step P (client_pc c, client c) (Mqtt e) = Some (pc, s)" "client c1 = s"
    by (auto simp: take_step_def split: option.splits)
  then have f1: "fetching (calls (client c1))" using unfetching.step [of P _ _ "Mqtt e"] f by auto
  have "exec (scheduled_step P) c0 (es @ [Mqtt e]) = Some c1" using assms(3,5) by (simp add: exec_append)
  then have d: "fota_work \<in> due c1"
    using run_phase [OF assms(2)] assms(6) by (fastforce simp: phase_tells_def life_of_def life_def)
  show ?thesis using d refused_start [OF assms(1) f1] by (simp add: scheduled_step_def take_step_def)
qed

section \<open>At work\<close>

text \<open>The example device with a library that downloads one file at a time; every OTA message is the offer of 1.2.3.4.\<close>

definition busy_library :: "(ota_msg \<times> dec_pos) option platform" where
  "busy_library = example_platform\<lparr>env := (\<lambda>h c. case c of
     Fota_download_start p_host p_file tag \<Rightarrow> if fetching h then - EALREADY else 0 | _ \<Rightarrow> 0)\<rparr>"

definition example_client :: scheduled where
  "example_client = \<lparr>client_pc = Waiting, client = example_cloud, due = {}\<rparr>"

definition an_offer :: mqtt_evt where
  "an_offer = Publish (replicate 15 49 @ [47, 115]) 17 [] 0 1 5"

lemma busy_simps:
  "decoder_laws (dec busy_library) (\<lambda>dc. dc)" "stack_temp busy_library = 0" "cfg busy_library = default_config"
  "Decode_Init busy_library d = Some (example_msg, At_start)" "env busy_library h (Mqtt_publish_qos1_ack i) = 0"
  "ver_wf (pyrinas_version busy_library)" "numbers (pyrinas_version busy_library) = Ver_Num 1 0 0 0"
  using example_decoder_laws by (simp_all add: busy_library_def example_platform_def ver_wf_def numbers_def)

lemma busy_one_download: "one_download busy_library"
  by (simp add: one_download_def busy_library_def)

text \<open>What the steps below need to know about a client, and what the offer and the start of the download do to it.\<close>

definition offered :: "scheduled \<Rightarrow> bool" where
  "offered c \<longleftrightarrow> ota_sub_topic (client c) = replicate 15 49 @ [47, 115] \<and> ota_data_wf (ota_data_s (client c))"

lemma decode_complete:
  assumes "decoder_laws D view" and "view dc = Some (m, At_start)" and "msg_wf m" and "ota_data_wf od"
    and "msg_host m = Some h" and "msg_file m = Some f" and "msg_force m = Some b" and "length h \<le> 128" and "length f \<le> 128"
  shows "\<exists>od'. decode_ota_data D temp od dc = Some (0, od') \<and> version od' = msg_version m \<and> ota_data_wf od'"
  using decode_cases [OF assms(1-4), of temp] assms(3-)
  by (auto simp: Let_def ota_data_wf_def msg_wf_def msg_version_def ver_wf_def)

lemma example_offer:
  assumes "offered c"
  shows "\<exists>c'. scheduled_step busy_library c (Mqtt an_offer) = Some c' \<and> offered c' \<and>
    ota_state_s (client c') = ota_state_started \<and> fota_work \<in> due c' \<and>
    fetching (calls (client c')) = fetching (calls (client c))"
proof -
  let ?s = "client c" and ?T = "replicate 15 49 @ [47, 115] :: byte list"
  have t: "ota_sub_topic ?s = ?T" "ota_data_wf (ota_data_s ?s)" using assms by (simp_all add: offered_def)
  have topic: "is_ota_topic ?T ?s" using is_ota_topic_append [of ?s "[]"] t(1) by simp
  obtain od where od: "decode_ota_data (dec busy_library) (stack_temp busy_library) (ota_data_s ?s) (Decode_Init busy_library []) = Some (0, od)"
    "version od = msg_version example_msg" "ota_data_wf od"
    using decode_complete [OF busy_simps(1,4) example_wf(1) t(2) msg_fields(1-3)] by auto
  have v: "ver_comp (pyrinas_version busy_library) (version od) = 1"
    using busy_simps(6,7) by (simp add: od(2) ver_comp_1_iff ver_wf_def msg_version_def example_msg_def is_update_def
        numbers_def less_ver_num_def)
  have "publish_get_payload busy_library [] 0 ?s = Some (0, ?s)"
    by (simp add: publish_get_payload_def payload_loop.simps)
  then have "mqtt_evt_handler busy_library an_offer ?s = Some (qos1_ack busy_library 1 5
      (emit (Submit_delayed fota_work 5) (notify_ota (?s\<lparr>initial_ota_check := True, ota_data_s := od, ota_state_s := ota_state_started\<rparr>))))"
    using handler_update [OF topic od(1) v, of 17] by (simp add: an_offer_def)
  then show ?thesis
    using t(1) od(3) by (simp add: scheduled_step_def take_step_def qos1_ack_def offered_def cloud_defs)
qed

lemma example_start:
  assumes "offered c" and "fota_work \<in> due c" and "\<not> fetching (calls (client c))"
  shows "\<exists>c'. scheduled_step busy_library c (Run fota_work) = Some c' \<and> offered c' \<and>
    ota_state_s (client c') = ota_state_downloading"
  using assms by (simp add: scheduled_step_def take_step_def fota_start_fn_def busy_library_def offered_def cloud_defs)

lemma example_download:
  "fresh_client example_client \<and> (\<exists>c. exec (scheduled_step busy_library) example_client [Mqtt an_offer, Run fota_work] = Some c \<and>
     offered c \<and> ota_state_s (client c) = ota_state_downloading)"
proof -
  have 0: "offered example_client" "\<not> fetching (calls (client example_client))"
    using example_wf(2) by (simp_all add: offered_def example_client_def example_cloud_def fetching_def)
  obtain c1 where c1: "scheduled_step busy_library example_client (Mqtt an_offer) = Some c1" "offered c1" "fota_work \<in> due c1"
    "\<not> fetching (calls (client c1))"
    using example_offer [OF 0(1)] 0(2) by auto
  then show ?thesis
    using example_start [OF c1(2-4)] by (auto simp: fresh_client_def example_client_def example_cloud_def fetching_def)
qed

theorem update_life_cycle_witness:
  "\<exists>c. exec (scheduled_step busy_library) example_client [Mqtt an_offer, Run fota_work] = Some c \<and>
     ota_move\<^sup>*\<^sup>* (life_of example_client) (life_of c) \<and> phase (life_of c) = ota_state_downloading"
  using example_download update_life_cycle [of busy_library example_client "[Mqtt an_offer, Run fota_work]"]
  by (auto simp: life_of_def life_def)

theorem update_never_stuck_witness:
  "\<exists>c. exec (scheduled_step busy_library) example_client [Mqtt an_offer, Run fota_work] = Some c \<and> fetching (calls (client c))"
  using example_download update_never_stuck [of example_client busy_library "[Mqtt an_offer, Run fota_work]"] by fastforce


theorem second_offer_aborts_download_witness:
  "\<exists>c. exec (scheduled_step busy_library) example_client [Mqtt an_offer, Run fota_work, Mqtt an_offer, Run fota_work] = Some c \<and>
     fetching (calls (client c)) \<and> Sys_reboot \<in> fst ` set (calls (client c))"
proof -
  obtain c where c: "exec (scheduled_step busy_library) example_client [Mqtt an_offer, Run fota_work] = Some c" "offered c"
    "ota_state_s (client c) = ota_state_downloading" using example_download by blast
  obtain c1 where c1: "scheduled_step busy_library c (Mqtt an_offer) = Some c1" "ota_state_s (client c1) = ota_state_started"
    using example_offer [OF c(2)] by blast
  obtain c2 where c2: "scheduled_step busy_library c1 (Run fota_work) = Some c2" "fetching (calls (client c2))"
    "Sys_reboot \<in> fst ` set (calls (client c2))"
    using second_offer_aborts_download [OF busy_one_download _ c(1,3) c1] example_download by blast
  have "exec (scheduled_step busy_library) example_client ([Mqtt an_offer, Run fota_work] @ [Mqtt an_offer, Run fota_work]) = Some c2"
    unfolding exec_append c(1) using c1(1) c2(1) by simp
  then show ?thesis using c2(2,3) by auto
qed

end
