(* ===== verification/App_Update.thy ===== *)
theory App_Update
  imports App_Main Cloud_Ota
begin

text \<open>
  The framework of \<open>App_Main\<close> and the life of an update: once the client has left the state ready it does
  not report it again, so an update that comes first keeps the application from being set up.
\<close>

section \<open>The client never becomes ready again\<close>

definition stays_updating :: "cloud \<Rightarrow> cloud \<Rightarrow> bool" where
  "stays_updating s s' \<longleftrightarrow> (ota_state_s s \<noteq> ota_state_ready \<longrightarrow> ota_state_s s' \<noteq> ota_state_ready \<and>
     (\<exists>tr. calls s' = calls s @ tr \<and> Ota_state_callback ota_state_ready \<notin> fst ` set tr))"

lemma stays_updating_same:
  "ota_state_s s' = ota_state_s s \<Longrightarrow> calls s' = calls s @ tr \<Longrightarrow>
   (ota_state_s s \<noteq> ota_state_ready \<Longrightarrow> Ota_state_callback ota_state_ready \<notin> fst ` set tr) \<Longrightarrow> stays_updating s s'"
  by (auto simp: stays_updating_def)

lemma stays_updating_trans: "stays_updating s1 s2 \<Longrightarrow> stays_updating s2 s3 \<Longrightarrow> stays_updating s1 s3"
  by (fastforce simp: stays_updating_def)

interpretation unready: client_relation stays_updating
proof unfold_locales
  show "stays_updating s (s\<lparr>calls := calls s @ [(c, r)]\<rparr>)" if "ordinary c" for s c r
    using that by (auto simp: stays_updating_def)
  show "stays_updating s (notify_cloud (s\<lparr>cloud_state_s := st\<rparr>))" for s st
    by (auto simp: stays_updating_def notify_cloud_def emit_def)
  show "stays_updating s (notify_ota s)" for s
    by (auto simp: stays_updating_def notify_ota_def emit_def)
  show "stays_updating s (emit (Submit_delayed fota_work 5) (notify_ota (s\<lparr>ota_state_s := ota_state_started\<rparr>)))" for s
    by (auto simp: stays_updating_def notify_ota_def emit_def)
qed (auto simp: stays_updating_def same_members_def intro: stays_updating_trans)

text \<open>The steps that are not routine set another state, or none.\<close>

lemma unready_step:
  assumes "cloud_step P (pc, s) e = Some (pc', s')"
  shows "stays_updating s s'"
proof (cases "routine e")
  case True
  then show ?thesis using unready.step assms by blast
next
  case False
  then consider f where "e = Fota f" | w where "e = Run w" "ota_work w" | c where "e = Register c" by (cases e) auto
  then show ?thesis
  proof cases
    case (1 f)
    then show ?thesis using assms by (cases f) (auto simp: stays_updating_def cloud_defs split: if_splits)
  next
    case (2 w)
    then show ?thesis using assms
      by (auto simp: ota_work_iff stays_updating_def fota_start_fn_def reboot_work_fn_def cloud_defs split: if_splits)
  next
    case (3 c)
    then show ?thesis using assms by (auto simp: stays_updating_def pyrinas_cloud_register_state_evt_def)
  qed
qed

section \<open>The application waits\<close>

text \<open>\<open>main\<close> waits at the semaphore, nobody has given it, and the client is updating.\<close>

definition kept_waiting :: "('m, 'd) device \<Rightarrow> bool" where
  "kept_waiting d \<longleftrightarrow> main_waits d \<and> proceed d = 0 \<and> ota_state_s (cloud_s d) \<noteq> ota_state_ready"

lemma submit_kept [simp]: "kept_waiting (submit_reconnect n d) = kept_waiting d"
  by (simp add: kept_waiting_def)

lemma in_cloud_kept:
  assumes "stays_updating (cloud_s d) (snd (f (cloud_s d)))" and "kept_waiting d"
  shows "kept_waiting (snd (in_cloud f d)) \<and> filter is_setup (calls (snd (in_cloud f d))) = filter is_setup (calls d)"
proof -
  let ?s = "snd (f (cloud_s d))" and ?d = "d\<lparr>cloud_s := snd (f (cloud_s d))\<rparr>"
  obtain tr where tr: "calls ?s = calls (cloud_s d) @ tr" "Ota_state_callback ota_state_ready \<notin> fst ` set tr" "ota_state_s ?s \<noteq> ota_state_ready"
    using assms by (auto simp: stays_updating_def kept_waiting_def)
  have frame: "main_waits ?d = main_waits d" by (cases d) simp
  have "snd (in_cloud f d) = fold callback (map fst tr) ?d"
    using tr(1) by (simp add: in_cloud_def case_prod_beta Let_def)
  then show ?thesis
    using assms(2) tr(2,3) callbacks_setup [of "map fst tr" ?d] by (auto simp: kept_waiting_def frame cloud_frame)
qed

lemma kept_waiting_step:
  assumes "kept_waiting d" and "device_step B d e = Some d'"
  shows "kept_waiting d' \<and> filter is_setup (calls d') = filter is_setup (calls d)"
proof (cases e)
  case (Cloud_event ce)
  then obtain pc s where s: "cloud_step (plat B) (pc_s d, cloud_s d) ce = Some (pc, s)"
    "d' = snd (in_cloud (\<lambda>_. ((), s)) (d\<lparr>pc_s := pc\<rparr>))"
    using assms(2) by (auto simp: device_step_def split: option.splits)
  have same: "cloud_s (d\<lparr>pc_s := pc\<rparr>) = cloud_s d" "calls (d\<lparr>pc_s := pc\<rparr>) = calls d" "kept_waiting (d\<lparr>pc_s := pc\<rparr>) = kept_waiting d"
    by (cases d; simp add: kept_waiting_def)+
  show ?thesis
    using in_cloud_kept [of "d\<lparr>pc_s := pc\<rparr>" "\<lambda>_. ((), s)"] unready_step [OF s(1)] assms(1) by (simp add: s(2) same)
next
  case Reconnect
  let ?d = "d\<lparr>reconnect_pending := False\<rparr>"
  have same: "cloud_s ?d = cloud_s d" "calls ?d = calls d" "kept_waiting ?d = kept_waiting d"
    by (cases d; simp add: kept_waiting_def)+
  then show ?thesis
    using in_cloud_kept [of ?d "pyrinas_cloud_connect (plat B)"] unready.connect [of "cloud_s d" "plat B"] assms Reconnect
    by (auto simp: same device_step_def reconnect_work_fn_def case_prod_beta Let_def split: if_splits)
next
  case Main_thread
  then show ?thesis using assms by (auto simp: device_step_def main_proceed_def kept_waiting_def)
qed

lemma kept_waiting_run:
  "exec (device_step B) d es = Some d' \<Longrightarrow> kept_waiting d \<Longrightarrow>
   kept_waiting d' \<and> filter is_setup (calls d') = filter is_setup (calls d)"
proof (induction es arbitrary: d)
  case (Cons e es)
  then show ?case using kept_waiting_step [of d B e] by (auto split: option.splits)
qed simp

text \<open>
  C20. A device that accepts an update before its client has reported that it is ready does not set up its application any more, whatever
  happens: it stays in \<open>main\<close> until it reboots, also when the download fails.
\<close>

theorem application_waits_for_update:
  assumes "CLOUD_ENABLED C" and "switched_on d0"
    and "app_main B C cl lc au ca d0 = (Waits, d1)" and "exec (device_step B) d1 es = Some d2" and "set es \<subseteq> keeps_callback"
    and "Ota_state_callback ota_state_ready \<notin> fst ` set (calls (cloud_s d2))"
    and "ota_state_s (cloud_s d2) \<noteq> ota_state_ready" and "exec (device_step B) d2 fs = Some d3"
  shows "main_waits d3 \<and> filter is_setup (calls d3) = []"
proof -
  obtain d where d: "quiet_start d0 d" "main_cloud_start B C lc au ca d = (Waits, d1)"
    using start_reaches_cloud [OF assms(1,3)] by auto
  have "Setup \<notin> fst ` set (calls d)" "proceed d = 0" using d(1) assms(2) by (auto simp: quiet_start_def switched_on_def)
  then have "setup_inv d1" by (rule start_setup [OF d(2)])
  then have "setup_inv d2" by (rule device_run_setup [OF assms(5) _ assms(4)])
  then have "kept_waiting d2" "filter is_setup (calls d2) = []"
    using assms(6,7) by (auto simp: setup_inv_def kept_waiting_def split: if_splits)
  then show ?thesis using kept_waiting_run [OF assms(8)] by (simp add: kept_waiting_def)
qed

section \<open>At work\<close>

text \<open>The hub of \<open>App_Main\<close> is offered the update 1.2.3.4 (its payload is \<open>[1]\<close>) as the first thing.\<close>

definition an_update :: "cloud \<Rightarrow> device_event" where
  "an_update s = Cloud_event (Mqtt (Publish (ota_sub_topic s) (length (ota_sub_topic s)) [1] 1 0 7))"

lemma hub_reads_offer:
  assumes "length (payload_buf s) = 128"
  shows "\<exists>s' tr. publish_get_payload hub_platform [1] 1 s = Some (0, s') \<and> take 1 (payload_buf s') = [1] \<and>
    ota_sub_topic s' = ota_sub_topic s \<and> ota_data_s s' = ota_data_s s \<and>
    calls s' = calls s @ tr \<and> (\<forall>st. Ota_state_callback st \<notin> fst ` set tr)"
  using assms by (cases "payload_buf s") (simp_all add: publish_get_payload_def payload_loop.simps memcpy_at_def hub_platform_def
      offers_def example_platform_def default_config_def ext_def)

lemma hub_accepts:
  assumes "length (payload_buf s) = 128" and "ota_data_s s = example_ota"
    and "Ota_state_callback ota_state_ready \<notin> fst ` set (calls s)"
  shows "\<exists>s'. mqtt_evt_handler hub_platform (Publish (ota_sub_topic s) (length (ota_sub_topic s)) [1] 1 0 7) s = Some s' \<and>
    ota_state_s s' = ota_state_started \<and> Ota_state_callback ota_state_ready \<notin> fst ` set (calls s')"
proof -
  obtain s1 tr where s1: "publish_get_payload hub_platform [1] 1 s = Some (0, s1)" "take 1 (payload_buf s1) = [1]"
    "ota_sub_topic s1 = ota_sub_topic s" "ota_data_s s1 = example_ota" "calls s1 = calls s @ tr" "\<forall>st. Ota_state_callback st \<notin> fst ` set tr"
    using hub_reads_offer [OF assms(1)] assms(2) by auto
  have hub: "dec hub_platform = dec offers" "stack_temp hub_platform = stack_temp offers" "Decode_Init hub_platform = Decode_Init offers"
    "pyrinas_version hub_platform = pyrinas_version offers"
    by (simp_all add: hub_platform_def)
  have topic: "is_ota_topic (ota_sub_topic s) s1" by (simp add: is_ota_topic_def s1(3) strncmp_refl)
  have wf: "ota_data_wf example_ota" using offers_simps(6) by (simp add: example_cloud_def)
  obtain od where od: "decode_ota_data (dec offers) (stack_temp offers) example_ota (Decode_Init offers [1]) = Some (0, od)"
    "version od = msg_version example_msg"
    using decode_complete [OF offers_simps(1,4) example_wf(1) wf msg_fields(1-3)] by auto
  have v: "ver_comp (pyrinas_version offers) (version od) = 1"
    unfolding od(2) using offers_simps(2)
    by (simp add: ver_comp_1_iff ver_wf_def msg_version_def example_msg_def is_update_def numbers_def less_ver_num_def
        offers_def example_platform_def)
  have "publish_evt_handler hub_platform (ota_sub_topic s) (length (ota_sub_topic s)) [1] s1 =
    Some (emit (Submit_delayed fota_work 5) (notify_ota (s1\<lparr>initial_ota_check := True, ota_data_s := od, ota_state_s := ota_state_started\<rparr>)))"
    by (rule handler_update [OF topic]) (use od(1) v s1(4) hub in simp_all)
  then show ?thesis
    using s1 assms(3) by (auto simp: qos1_ack_def notify_ota_def emit_def)
qed

lemma hub_not_ready_yet:
  assumes "CLOUD_ENABLED C" and "ASSERTS C" and "app_main hub_board C bsdlib_ok True False False hub_off = (Waits, d)"
  shows "Ota_state_callback ota_state_ready \<notin> fst ` set (calls (cloud_s d))"
proof -
  obtain d1 where d1: "quiet_start hub_off d1" "main_cloud_start hub_board C True False False d1 = (Waits, d)"
    using start_reaches_cloud [OF assms(1,3)] by auto
  have "cloud_s d1 = example_cloud" using d1(1) by (simp add: quiet_start_def hub_off_def)
  then obtain s where s: "pyrinas_cloud_init hub_platform True True example_cloud = Some s"
    "cloud_s d = snd (pyrinas_cloud_connect hub_platform (pyrinas_cloud_register_state_evt True s))"
    using cloud_start_waits [OF d1(2)] assms(2) by (auto simp: waits_frame hub_board_def)
  show ?thesis
    unfolding s(2) using s(1)
    by (auto simp: pyrinas_cloud_init_def pyrinas_cloud_connect_def pyrinas_cloud_register_state_evt_def get_imei_def
      client_init_def broker_init_def hub_platform_def offers_def example_platform_def example_cloud_def cloud_defs sizeof_sockaddr_in_def)
qed

theorem application_waits_for_update_witness:
  "\<exists>d1 d3. app_main hub_board hub_config bsdlib_ok True False False hub_off = (Waits, d1) \<and>
     exec (device_step hub_board) d1 [an_update (cloud_s d1), Cloud_event (Fota FOTA_DOWNLOAD_EVT_ERROR), Main_thread] = Some d3 \<and>
     main_waits d3 \<and> filter is_setup (calls d3) = []"
proof -
  have cfg: "CLOUD_ENABLED hub_config" "ASSERTS hub_config" by (simp_all add: hub_config_def)
  obtain d1 where d1: "app_main hub_board hub_config bsdlib_ok True False False hub_off = (Waits, d1)"
    using hub_main [OF cfg(1)] by blast
  let ?s = "cloud_s d1"
  obtain s' where s': "mqtt_evt_handler hub_platform (Publish (ota_sub_topic ?s) (length (ota_sub_topic ?s)) [1] 1 0 7) ?s = Some s'"
    "ota_state_s s' = ota_state_started" "Ota_state_callback ota_state_ready \<notin> fst ` set (calls s')"
    using hub_accepts hub_cloud [OF cfg d1] hub_not_ready_yet [OF cfg d1] by blast
  obtain d2 where d2: "exec (device_step hub_board) d1 [an_update ?s] = Some d2" "cloud_s d2 = s'"
    using s'(1) by (simp add: device_step_def an_update_def hub_board_def)
  obtain d3 where d3: "exec (device_step hub_board) d2 [Cloud_event (Fota FOTA_DOWNLOAD_EVT_ERROR), Main_thread] = Some d3"
    by (simp add: device_step_def)
  have "set [an_update ?s] \<subseteq> keeps_callback" by (simp add: keeps_callback_def an_update_def)
  from application_waits_for_update [OF cfg(1) hub_off_on d1 d2(1) this _ _ d3] s'(2,3) d2
  have "main_waits d3 \<and> filter is_setup (calls d3) = []" by simp
  then show ?thesis using d1 d2(1) d3 by (auto split: option.splits)
qed

end
