(* ===== verification/Cloud_Boots.thy ===== *)
theory Cloud_Boots
  imports App_Update
begin

text \<open>
  Updates across reboots. A device lives from one reset to the next: the boot loader picks an image, \<open>main\<close> starts it and confirms
  it, the cloud client of \<open>Cloud_Ota\<close> runs, and what the download library has fetched is installed at the next reset. The boot loader and the
  images on the server are parameters. The theory says when the firmware can go back to an older version, and when it cannot.
\<close>

section \<open>The boot loader and the server\<close>

text \<open>
  What the program relies on in MCUboot: of the flash one sees the image that runs, the last one that was confirmed, and the one that an
  upgrade has been requested to. At a reset a requested image is started on trial; without a request
  the confirmed image is started, which ends a trial that was not confirmed. A request is made only while the running image is confirmed.
\<close>

record 'f mcuboot =
  boot_swap :: "'f \<Rightarrow> 'f"
  write_img_confirmed :: "'f \<Rightarrow> 'f"
  request_upgrade :: "ota_version \<Rightarrow> 'f \<Rightarrow> 'f"
  active_image :: "'f \<Rightarrow> ota_version"
  confirmed_image :: "'f \<Rightarrow> ota_version"
  requested :: "'f \<Rightarrow> ota_version option"

definition mcuboot_laws :: "'f mcuboot \<Rightarrow> bool" where
  "mcuboot_laws M \<longleftrightarrow>
     (\<forall>f. requested M (boot_swap M f) = None \<and> confirmed_image M (boot_swap M f) = confirmed_image M f \<and>
        active_image M (boot_swap M f) = (case requested M f of None \<Rightarrow> confirmed_image M f | Some v \<Rightarrow> v)) \<and>
     (\<forall>f. requested M (write_img_confirmed M f) = requested M f \<and>
        confirmed_image M (write_img_confirmed M f) = active_image M f \<and>
        active_image M (write_img_confirmed M f) = active_image M f) \<and>
     (\<forall>f v. confirmed_image M f = active_image M f \<longrightarrow>
        requested M (request_upgrade M v f) = Some v \<and>
        confirmed_image M (request_upgrade M v f) = confirmed_image M f \<and>
        active_image M (request_upgrade M v f) = active_image M f)"

text \<open>
  The surroundings of a device: its board and configuration with the arguments of \<open>app_main\<close>, the boot loader, and
  the version of the image that the server has under a host and a file. Every image is a build of this program: they differ in the version.
\<close>

record ('dc, 'd, 'f) site =
  site_board :: "('dc, 'd) board"
  site_config :: main_config
  site_classify :: "int \<Rightarrow> bsdlib_result"
  site_link_control :: bool
  site_auto :: bool
  site_carrier :: bool
  bootloader :: "'f mcuboot"
  image_at :: "byte list \<Rightarrow> byte list \<Rightarrow> ota_version"

definition running_board :: "('dc, 'd, 'f) site \<Rightarrow> 'f \<Rightarrow> ('dc, 'd) board" where
  "running_board S f = (site_board S)\<lparr>plat := (plat (site_board S))\<lparr>pyrinas_version := active_image (bootloader S) f\<rparr>\<rparr>"

section \<open>The life of a device\<close>

text \<open>What the library downloads: the arguments of the last start that it has accepted.\<close>

fun fetched1 :: "cloud_call \<times> int \<Rightarrow> (byte list \<times> byte list) option \<Rightarrow> (byte list \<times> byte list) option" where
  "fetched1 (Fota_download_start h f t, r) x = (if r = 0 then Some (h, f) else x)"
| "fetched1 c x = x"

definition fetched :: "(cloud_call \<times> int) list \<Rightarrow> (byte list \<times> byte list) option" where
  "fetched tr = fold fetched1 tr None"

text \<open>
  \<open>at_work\<close> is the client with its scheduler, \<open>None\<close> when the start of the image has not got to it. \<open>Boot d\<close> is a reset, for whatever
  reason, after which \<open>d\<close> is the memory of the device. The library requests the upgrade before it reports the end of a download.
\<close>

record 'f life_time =
  flash :: 'f
  at_work :: "scheduled option"

datatype ('m, 'd) life_event = In_client cloud_event | Boot "('m, 'd) device"

definition client_step :: "('dc, 'd, 'f) site \<Rightarrow> 'f \<Rightarrow> scheduled \<Rightarrow> cloud_event \<Rightarrow> 'f life_time option" where
  "client_step S fl c e =
     map_option (\<lambda>c'.
         \<lparr>flash = (case (e, fetched (calls (client c))) of
             (Fota FOTA_DOWNLOAD_EVT_FINISHED, Some (h, f)) \<Rightarrow>
               if fetching (calls (client c)) then request_upgrade (bootloader S) (image_at S h f) fl else fl
           | _ \<Rightarrow> fl), at_work = Some c'\<rparr>)
       (scheduled_step (plat (running_board S fl)) c e)"

definition boot_step :: "('dc, 'd, 'f) site \<Rightarrow> 'f \<Rightarrow> ('m, 'd) device \<Rightarrow> 'f life_time" where
  "boot_step S fl d0 =
     (let fl = boot_swap (bootloader S) fl;
          (e, d) = app_main (running_board S fl) (site_config S) (site_classify S) (site_link_control S) (site_auto S) (site_carrier S) d0
      in \<lparr>flash = (if Boot_write_img_confirmed \<in> fst ` set (calls d) then write_img_confirmed (bootloader S) fl else fl),
          at_work = (if e = Waits
            then Some \<lparr>client_pc = pc_s d, client = cloud_s d, due = submitted (calls (cloud_s d))\<rparr> else None)\<rparr>)"

fun life_step :: "('dc, 'd, 'f) site \<Rightarrow> 'f life_time \<Rightarrow> ('m, 'd) life_event \<Rightarrow> 'f life_time option" where
  "life_step S l (In_client e) = (case at_work l of None \<Rightarrow> Some l | Some c \<Rightarrow> client_step S (flash l) c e)"
| "life_step S l (Boot d) = Some (boot_step S (flash l) d)"

section \<open>One boot\<close>

text \<open>Whatever is scheduled for download or has been fetched is good.\<close>

definition only_good :: "(byte list \<Rightarrow> byte list \<Rightarrow> bool) \<Rightarrow> scheduled \<Rightarrow> bool" where
  "only_good G c \<longleftrightarrow>
     (fota_work \<in> due c \<longrightarrow> G (host_string (ota_data_s (client c))) (file_string (ota_data_s (client c)))) \<and>
     (\<forall>h f. fetched (calls (client c)) = Some (h, f) \<longrightarrow> G h f)"

text \<open>Steps that leave the stored offer, the download and its schedule alone.\<close>

definition steady :: "cloud \<Rightarrow> cloud \<Rightarrow> bool" where
  "steady s s' \<longleftrightarrow> ota_data_s s' = ota_data_s s \<and> fetched (calls s') = fetched (calls s) \<and>
     (\<exists>tr. calls s' = calls s @ tr \<and> fota_work \<notin> submitted tr)"

lemma fetched_append [simp]: "fetched (tr @ [c]) = fetched1 c (fetched tr)" "fetched (tr @ c # tr') = fold fetched1 tr' (fetched1 c (fetched tr))"
  by (simp_all add: fetched_def)

lemma ordinary_fetched: "ordinary c \<Longrightarrow> fetched1 (c, r) x = x"
  by (cases c) auto

lemma steady_trans: "steady s1 s2 \<Longrightarrow> steady s2 s3 \<Longrightarrow> steady s1 s3"
  by (fastforce simp: steady_def)

interpretation steadily: quiet_relation steady
proof unfold_locales
  show "steady s (s\<lparr>calls := calls s @ [(c, r)]\<rparr>)" if "ordinary c" for s c r
    using ordinary_life [OF that] ordinary_fetched [OF that] by (simp add: steady_def)
qed (auto simp: steady_def same_members_def cloud_defs intro: steady_trans)

interpretation unfetched: client_relation "\<lambda>s s'. fetched (calls s') = fetched (calls s)"
proof unfold_locales
  show "fetched (calls (s\<lparr>calls := calls s @ [(c, r)]\<rparr>)) = fetched (calls s)" if "ordinary c" for s :: cloud and c r
    using ordinary_fetched [OF that] by simp
qed (auto simp: same_members_def cloud_defs)

lemma take_step_good:
  assumes "take_step P e D c = Some c'" and "D \<subseteq> due c" and "only_good G c"
    and "\<And>pc s. cloud_step P (client_pc c, client c) e = Some (pc, s) \<Longrightarrow> steady (client c) s"
  shows "only_good G c'"
proof -
  obtain pc s where s: "cloud_step P (client_pc c, client c) e = Some (pc, s)"
    "c' = \<lparr>client_pc = pc, client = s, due = D \<union> submitted (drop (length (calls (client c))) (calls s))\<rparr>"
    using assms(1) by (auto simp: take_step_def split: option.splits)
  then show ?thesis using assms(2,3) assms(4) [OF s(1)] by (auto simp: steady_def only_good_def)
qed

text \<open>An accepted version is not older.\<close>

lemma accepted_numbers: "ver_comp a b = 1 \<Longrightarrow> numbers a \<le> numbers b"
  by (auto simp: ver_comp_def ver_comp_loop_numbers split: if_splits)

lemma offer_handled:
  assumes "publish_evt_handler P t n d s = Some s'" and "is_ota_topic t s"
  shows "\<exists>tr. calls s' = calls s @ tr \<and> (fota_work \<in> submitted tr \<longrightarrow> ver_comp (pyrinas_version P) (version (ota_data_s s')) = 1)"
  using assms by (auto simp: publish_evt_handler_def is_ota_topic_def cloud_defs split: option.splits if_splits)

lemma message_handled:
  assumes "mqtt_evt_handler P (Publish t n d k q i) s = Some s'" and "is_ota_topic t s"
  shows "\<exists>tr. calls s' = calls s @ tr \<and> (fota_work \<in> submitted tr \<longrightarrow> ver_comp (pyrinas_version P) (version (ota_data_s s')) = 1)"
proof -
  obtain r s1 s2 where 1: "publish_get_payload P d k s = Some (r, s1)" "s' = qos1_ack P q i s2"
    "publish_evt_handler P t n (take k (payload_buf s1)) s1 = Some s2 \<or> s2 = snd (ext (env P) Mqtt_disconnect s1)"
    using assms(1) by (auto split: option.splits if_splits)
  obtain tr1 where tr1: "s1 = s\<lparr>payload_buf := payload_buf s1, calls := calls s @ tr1\<rparr>" "\<forall>c \<in> set tr1. \<exists>n. fst c = Read_payload n"
    using publish_get_payload_frame [OF 1(1)] by blast
  have "calls s1 = calls (s\<lparr>payload_buf := payload_buf s1, calls := calls s @ tr1\<rparr>)" using tr1(1) by (rule arg_cong)
  then have c1: "calls s1 = calls s @ tr1" by simp
  have quiet: "fota_work \<notin> submitted tr1" using tr1(2) by (fastforce simp: submitted_def)
  have "is_ota_topic t s1" using assms(2) payload_topic [OF 1(1)] by (simp add: is_ota_topic_def)
  then obtain tr2 where tr2: "calls s2 = calls s1 @ tr2"
    "fota_work \<in> submitted tr2 \<longrightarrow> ver_comp (pyrinas_version P) (version (ota_data_s s2)) = 1"
    using 1(3) offer_handled [of P t n "take k (payload_buf s1)" s1 s2] by (auto simp: cloud_defs)
  show ?thesis
    using 1(2) tr2 quiet by (auto simp: c1 qos1_ack_def ext_def)
qed

text \<open>
  The discipline of a step: no offer comes while a download is scheduled, an offer comes on its own and not in a round of the thread, and one
  that is accepted names an image that has the version it states.
\<close>

definition honest :: "(byte list \<Rightarrow> byte list \<Rightarrow> ota_version) \<Rightarrow> scheduled \<Rightarrow> bool" where
  "honest img c \<longleftrightarrow>
     (let od = ota_data_s (client c) in fota_work \<in> due c \<longrightarrow> img (host_string od) (file_string od) = version od)"

definition disciplined :: "'dc platform \<Rightarrow> (byte list \<Rightarrow> byte list \<Rightarrow> ota_version) \<Rightarrow> scheduled \<Rightarrow> cloud_event \<Rightarrow> bool" where
  "disciplined P img c e \<longleftrightarrow> without_offer (client c) e \<or>
     (\<exists>m. e = Mqtt m) \<and> fota_work \<notin> due c \<and> (\<forall>c'. scheduled_step P c e = Some c' \<longrightarrow> honest img c')"

lemma offer_good:
  assumes "scheduled_step P c (Mqtt m) = Some c'" and "\<not> no_offer (client c) m" and "fota_work \<notin> due c" and "honest img c'"
    and "only_good (\<lambda>h f. numbers (pyrinas_version P) \<le> numbers (img h f)) c"
  shows "only_good (\<lambda>h f. numbers (pyrinas_version P) \<le> numbers (img h f)) c'"
proof -
  obtain t n d k q i where m: "m = Publish t n d k q i" "is_ota_topic t (client c)" using assms(2) by (cases m) auto
  obtain pc s where s: "cloud_step P (client_pc c, client c) (Mqtt m) = Some (pc, s)"
    "c' = \<lparr>client_pc = pc, client = s, due = due c \<union> submitted (drop (length (calls (client c))) (calls s))\<rparr>"
    using assms(1) by (auto simp: scheduled_step_def take_step_def split: option.splits)
  have "mqtt_evt_handler P (Publish t n d k q i) (client c) = Some s" using s(1) m(1) by simp
  then obtain tr where tr: "calls s = calls (client c) @ tr"
    "fota_work \<in> submitted tr \<longrightarrow> ver_comp (pyrinas_version P) (version (ota_data_s s)) = 1"
    using message_handled m(2) by blast
  have "fetched (calls s) = fetched (calls (client c))" by (rule unfetched.step [OF s(1)]) simp
  then show ?thesis
    using assms(3-5) tr accepted_numbers by (auto simp: s(2) only_good_def honest_def Let_def)
qed

lemma start_good:
  assumes "only_good G c" and "fota_work \<in> due c" and "scheduled_step P c (Run fota_work) = Some c'"
  shows "only_good G c'"
  using assms by (auto simp: scheduled_step_def take_step_def fota_start_fn_def cloud_defs only_good_def split: if_splits)

lemma unsteady_good:
  assumes "only_good G c" and "\<not> routine e" and "scheduled_step P c e = Some c'"
  shows "only_good G c'"
proof -
  consider f where "e = Fota f" | "e = Run fota_work" | "e = Run ota_reboot_work" | b where "e = Register b"
    using assms(2) by (cases e) (auto simp: ota_work_iff)
  then show ?thesis
  proof cases
    case (1 f)
    have "steady s (fota_evt f s)" for s by (cases f) (simp_all add: steady_def cloud_defs)
    then show ?thesis using assms 1 take_step_good [of P e "due c" c c' G] by (auto simp: scheduled_step_def split: if_splits)
  next
    case 2
    then show ?thesis using assms start_good [of G c P c'] by (cases "fota_work \<in> due c") (auto simp: scheduled_step_def)
  next
    case 3
    have "steady s (reboot_work_fn s)" for s by (simp add: steady_def reboot_work_fn_def cloud_defs)
    then show ?thesis
      using assms 3 take_step_good [of P e "due c - {ota_reboot_work}" c c' G] by (auto simp: scheduled_step_def split: if_splits)
  next
    case (4 b)
    have "steady s (pyrinas_cloud_register_state_evt b s)" for s by (simp add: steady_def pyrinas_cloud_register_state_evt_def)
    then show ?thesis using assms 4 take_step_good [of P e "due c" c c' G] by (auto simp: scheduled_step_def)
  qed
qed

lemma client_good:
  assumes "only_good (\<lambda>h f. numbers (pyrinas_version P) \<le> numbers (img h f)) c" and "disciplined P img c e"
    and "scheduled_step P c e = Some c'"
  shows "only_good (\<lambda>h f. numbers (pyrinas_version P) \<le> numbers (img h f)) c'"
proof (cases "routine e")
  case True
  show ?thesis
  proof (cases "without_offer (client c) e")
    case without: True
    have "steady (client c) s" if "cloud_step P (client_pc c, client c) e = Some (pc, s)" for pc s
      using steadily.quiet_step that True without by blast
    moreover have "\<exists>D \<subseteq> due c. take_step P e D c = Some c' \<or> c' = c"
      using assms(3) True by (cases e) (auto simp: scheduled_step_def split: if_splits)
    ultimately show ?thesis using take_step_good assms(1) by blast
  next
    case False
    then obtain m where "e = Mqtt m" "fota_work \<notin> due c" "honest img c'" "\<not> no_offer (client c) m"
      using assms(2,3) by (auto simp: disciplined_def)
    then show ?thesis using offer_good assms(1,3) by blast
  qed
qed (rule unsteady_good [OF assms(1) _ assms(3)])

section \<open>A boot\<close>

lemma running_version [simp]: "pyrinas_version (plat (running_board S f)) = active_image (bootloader S) f"
  by (simp add: running_board_def)

lemma init_steady: "pyrinas_cloud_init P q c s = Some s' \<Longrightarrow> steady s s'"
  by (auto simp: pyrinas_cloud_init_def get_imei_def cloud_defs steady_def split: if_splits)

lemma register_steady: "steady s (pyrinas_cloud_register_state_evt b s)"
  by (simp add: steady_def pyrinas_cloud_register_state_evt_def)

lemma start_steady:
  assumes "CLOUD_ENABLED C" and "app_main B C cl lc au ca d0 = (Waits, d)"
  shows "steady (cloud_s d0) (cloud_s d)"
proof -
  obtain d1 where d1: "quiet_start d0 d1" "main_cloud_start B C lc au ca d1 = (Waits, d)"
    using start_reaches_cloud [OF assms] by auto
  obtain d2 s where d2: "cloud_s d2 = pyrinas_cloud_register_state_evt True s" "pyrinas_cloud_init (plat B) True True (cloud_s d1) = Some s"
    and d: "if ASSERTS C then d = (snd (in_cloud (pyrinas_cloud_connect (plat B)) d2))\<lparr>main_waits := True\<rparr>
      else d = d2\<lparr>main_waits := True\<rparr>"
    using cloud_start_waits [OF d1(2)] by metis
  have 2: "steady (cloud_s d0) (cloud_s d2)"
    using steady_trans [OF init_steady [OF d2(2)] register_steady] d1(1) by (simp add: d2(1) quiet_start_def)
  have "cloud_s d = (if ASSERTS C then snd (pyrinas_cloud_connect (plat B) (cloud_s d2)) else cloud_s d2)"
    using d by (simp add: waits_frame in_cloud_def case_prod_beta Let_def)
  moreover have "steady (cloud_s d0) (snd (pyrinas_cloud_connect (plat B) (cloud_s d2)))"
    by (rule steady_trans [OF 2 steadily.connect])
  ultimately show ?thesis using 2 by simp
qed

text \<open>What holds of a device over all its lives.\<close>

definition life_inv :: "('dc, 'd, 'f) site \<Rightarrow> 'f life_time \<Rightarrow> bool" where
  "life_inv S l \<longleftrightarrow>
     (let M = bootloader S; fl = flash l in
      numbers (confirmed_image M fl) \<le> numbers (active_image M fl) \<and>
      (\<forall>v. requested M fl = Some v \<longrightarrow> numbers (confirmed_image M fl) \<le> numbers v) \<and>
      (\<forall>c. at_work l = Some c \<longrightarrow> confirmed_image M fl = active_image M fl \<and>
         only_good (\<lambda>h f. numbers (active_image M fl) \<le> numbers (image_at S h f)) c))"

text \<open>The configuration of the hub: the cloud client is built in, and so is the confirmation of the image.\<close>

definition updates_built_in :: "('dc, 'd, 'f) site \<Rightarrow> bool" where
  "updates_built_in S \<longleftrightarrow> CLOUD_ENABLED (site_config S) \<and> IMG_MANAGER (site_config S) \<and> mcuboot_laws (bootloader S)"

lemma boot_result:
  assumes "updates_built_in S" and "switched_on d0"
  shows "\<exists>fl e d. fl = boot_swap (bootloader S) fl0 \<and>
    app_main (running_board S fl) (site_config S) (site_classify S) (site_link_control S) (site_auto S) (site_carrier S) d0 = (e, d) \<and>
    flash (boot_step S fl0 d0) = (if e = Assertion_failed \<or> e = Waits then write_img_confirmed (bootloader S) fl else fl) \<and>
    at_work (boot_step S fl0 d0) =
      (if e = Waits then Some \<lparr>client_pc = pc_s d, client = cloud_s d, due = submitted (calls (cloud_s d))\<rparr> else None)"
proof -
  let ?fl = "boot_swap (bootloader S) fl0"
  obtain e d where d: "app_main (running_board S ?fl) (site_config S) (site_classify S) (site_link_control S)
      (site_auto S) (site_carrier S) d0 = (e, d)" by fastforce
  have "Boot_write_img_confirmed \<in> fst ` set (calls d) \<longleftrightarrow> e = Assertion_failed \<or> e = Waits"
    using assms(1) by (intro image_confirmed_early [OF _ _ assms(2) d]) (simp_all add: updates_built_in_def)
  then show ?thesis using d by (intro exI [of _ ?fl] exI [of _ e] exI [of _ d]) (simp add: boot_step_def)
qed

lemma boot_good:
  assumes "updates_built_in S" and "switched_on d0" and "life_inv S l"
  shows "life_inv S (boot_step S (flash l) d0) \<and>
    numbers (confirmed_image (bootloader S) (flash l)) \<le> numbers (confirmed_image (bootloader S) (flash (boot_step S (flash l) d0)))"
proof -
  obtain fl e d where fl: "fl = boot_swap (bootloader S) (flash l)"
    "app_main (running_board S fl) (site_config S) (site_classify S) (site_link_control S) (site_auto S) (site_carrier S) d0 = (e, d)"
    "flash (boot_step S (flash l) d0) = (if e = Assertion_failed \<or> e = Waits then write_img_confirmed (bootloader S) fl else fl)"
    "at_work (boot_step S (flash l) d0) =
      (if e = Waits then Some \<lparr>client_pc = pc_s d, client = cloud_s d, due = submitted (calls (cloud_s d))\<rparr> else None)"
    using boot_result [OF assms(1,2)] by metis
  have laws: "mcuboot_laws (bootloader S)" using assms(1) by (simp add: updates_built_in_def)
  have "only_good G \<lparr>client_pc = pc_s d, client = cloud_s d, due = submitted (calls (cloud_s d))\<rparr>" if "e = Waits" for G
  proof -
    have "steady (cloud_s d0) (cloud_s d)" using start_steady fl(2) that assms(1) by (auto simp: updates_built_in_def)
    then show ?thesis using assms(2) by (auto simp: only_good_def steady_def switched_on_def fetched_def)
  qed
  then show ?thesis
    using laws assms(3) by (auto simp: life_inv_def Let_def fl mcuboot_laws_def split: option.splits)
qed

section \<open>Firmware does not go back\<close>

text \<open>The discipline of a life: that of the client's steps, and a reset starts with the memory of a device that has been switched on.\<close>

definition orderly :: "('dc, 'd, 'f) site \<Rightarrow> 'f life_time \<Rightarrow> ('m, 'd) life_event \<Rightarrow> bool" where
  "orderly S l e =
     (case e of
        In_client ce \<Rightarrow> (case at_work l of None \<Rightarrow> True | Some c \<Rightarrow> disciplined (plat (running_board S (flash l))) (image_at S) c ce)
      | Boot d \<Rightarrow> switched_on d)"

lemma client_flash:
  assumes "mcuboot_laws (bootloader S)" and "life_inv S l" and "at_work l = Some c" and "client_step S (flash l) c e = Some l'"
  shows "active_image (bootloader S) (flash l') = active_image (bootloader S) (flash l) \<and>
    confirmed_image (bootloader S) (flash l') = confirmed_image (bootloader S) (flash l) \<and>
    (\<forall>v. requested (bootloader S) (flash l') = Some v \<longrightarrow> requested (bootloader S) (flash l) = Some v \<or>
       numbers (active_image (bootloader S) (flash l)) \<le> numbers v)"
proof -
  have "confirmed_image (bootloader S) (flash l) = active_image (bootloader S) (flash l)"
    "\<And>h f. fetched (calls (client c)) = Some (h, f) \<Longrightarrow> numbers (active_image (bootloader S) (flash l)) \<le> numbers (image_at S h f)"
    using assms(2,3) by (auto simp: life_inv_def Let_def only_good_def)
  then show ?thesis
    using assms(1,4) by (auto simp: client_step_def mcuboot_laws_def
        split: prod.splits option.splits cloud_event.splits fota_download_evt_id.splits if_splits)
qed

lemma life_step_good:
  assumes "updates_built_in S" and "life_inv S l" and "orderly S l e" and "life_step S l e = Some l'"
  shows "life_inv S l' \<and> numbers (confirmed_image (bootloader S) (flash l)) \<le> numbers (confirmed_image (bootloader S) (flash l'))"
proof (cases e)
  case (Boot d0)
  then show ?thesis using assms boot_good by (auto simp: orderly_def)
next
  case (In_client ce)
  show ?thesis
  proof (cases "at_work l")
    case (Some c)
    let ?P = "plat (running_board S (flash l))" and ?a = "active_image (bootloader S)"
    have step: "client_step S (flash l) c ce = Some l'" using assms(4) In_client Some by simp
    then obtain c' where c': "scheduled_step ?P c ce = Some c'" "at_work l' = Some c'" by (auto simp: client_step_def)
    have "only_good (\<lambda>h f. numbers (?a (flash l)) \<le> numbers (image_at S h f)) c'"
      using client_good [OF _ _ c'(1), of "image_at S"] assms(2,3) Some In_client by (simp add: life_inv_def Let_def orderly_def)
    then show ?thesis
      using client_flash [OF _ assms(2) Some step] assms(1,2) Some c'(2) by (auto simp: updates_built_in_def life_inv_def Let_def)
  qed (use assms In_client in simp)
qed

lemma life_run_good:
  assumes "updates_built_in S"
  shows "life_inv S l \<Longrightarrow> exec_ok (life_step S) (orderly S) l es \<Longrightarrow> exec (life_step S) l es = Some l' \<Longrightarrow>
    life_inv S l' \<and> numbers (confirmed_image (bootloader S) (flash l)) \<le> numbers (confirmed_image (bootloader S) (flash l'))"
proof (induction es arbitrary: l)
  case (Cons e es)
  obtain l1 where l1: "life_step S l e = Some l1" "exec (life_step S) l1 es = Some l'"
    using Cons.prems(3) by (auto split: option.splits)
  then show ?case
    using life_step_good [OF assms Cons.prems(1) _ l1(1)] Cons.IH [of l1] Cons.prems(2) order_trans by auto
qed simp

text \<open>A device as it is delivered: switched off, its image confirmed and no upgrade requested.\<close>

definition delivered :: "('dc, 'd, 'f) site \<Rightarrow> 'f life_time \<Rightarrow> bool" where
  "delivered S l \<longleftrightarrow> at_work l = None \<and> requested (bootloader S) (flash l) = None \<and>
     confirmed_image (bootloader S) (flash l) = active_image (bootloader S) (flash l)"


section \<open>What is installed\<close>

text \<open>A download library that accepts every start, and a network that delivers a payload in one piece.\<close>

definition library_starts :: "'dc platform \<Rightarrow> bool" where
  "library_starts P \<longleftrightarrow> (\<forall>h a b t. env P h (Fota_download_start a b t) = 0)"

definition reads_whole :: "'dc platform \<Rightarrow> bool" where
  "reads_whole P \<longleftrightarrow> (\<forall>h n. env P h (Read_payload n) = int n)"

lemma running_platform [simp]:
  "env (plat (running_board S f)) = env (plat (site_board S))" "cfg (plat (running_board S f)) = cfg (plat (site_board S))"
  "dec (plat (running_board S f)) = dec (plat (site_board S))" "stack_temp (plat (running_board S f)) = stack_temp (plat (site_board S))"
  "Decode_Init (plat (running_board S f)) = Decode_Init (plat (site_board S))"
  by (simp_all add: running_board_def)

text \<open>The rest of an update once it is scheduled: the download, its end, the reboot, the start.\<close>

definition update_runs :: "('m, 'd) device \<Rightarrow> ('m, 'd) life_event list" where
  "update_runs d0 = [In_client (Run fota_work), In_client (Fota FOTA_DOWNLOAD_EVT_FINISHED), In_client (Run ota_reboot_work), Boot d0]"

definition runs_image :: "('dc, 'd, 'f) site \<Rightarrow> 'f life_time \<Rightarrow> ota_version \<Rightarrow> bool" where
  "runs_image S l v \<longleftrightarrow> active_image (bootloader S) (flash l) = v \<and> (at_work l \<noteq> None \<longrightarrow> confirmed_image (bootloader S) (flash l) = v)"

lemma boot_installs:
  assumes "updates_built_in S" and "switched_on d0" and "requested (bootloader S) fl = Some v"
  shows "runs_image S (boot_step S fl d0) v"
proof -
  have laws: "mcuboot_laws (bootloader S)" using assms(1) by (simp add: updates_built_in_def)
  obtain fl1 e d where b: "fl1 = boot_swap (bootloader S) fl"
    "app_main (running_board S fl1) (site_config S) (site_classify S) (site_link_control S) (site_auto S) (site_carrier S) d0 = (e, d)"
    "flash (boot_step S fl d0) = (if e = Assertion_failed \<or> e = Waits then write_img_confirmed (bootloader S) fl1 else fl1)"
    "at_work (boot_step S fl d0) =
      (if e = Waits then Some \<lparr>client_pc = pc_s d, client = cloud_s d, due = submitted (calls (cloud_s d))\<rparr> else None)"
    using boot_result [OF assms(1,2)] by metis
  have "active_image (bootloader S) fl1 = v" using laws assms(3) by (simp add: b(1) mcuboot_laws_def)
  then show ?thesis using laws b(3,4) by (auto simp: runs_image_def mcuboot_laws_def)
qed

lemma start_fetches:
  assumes "library_starts P" and "fota_work \<in> due c"
  shows "\<exists>c'. scheduled_step P c (Run fota_work) = Some c' \<and> fetching (calls (client c')) \<and>
    fetched (calls (client c')) = Some (host_string (ota_data_s (client c)), file_string (ota_data_s (client c)))"
  using assms by (simp add: library_starts_def scheduled_step_def take_step_def fota_start_fn_def cloud_defs)

lemma end_schedules_reboot:
  assumes "fetching (calls (client c))"
  shows "\<exists>c'. scheduled_step P c (Fota FOTA_DOWNLOAD_EVT_FINISHED) = Some c' \<and> ota_reboot_work \<in> due c'"
  using assms by (auto simp: scheduled_step_def take_step_def cloud_defs)

lemma stored_is_installed:
  assumes "updates_built_in S" and "switched_on d0" and "library_starts (plat (site_board S))"
    and "at_work l = Some c" and "confirmed_image (bootloader S) (flash l) = active_image (bootloader S) (flash l)" and "fota_work \<in> due c"
  shows "\<exists>l'. exec (life_step S) l (update_runs d0) = Some l' \<and>
    runs_image S l' (image_at S (host_string (ota_data_s (client c))) (file_string (ota_data_s (client c))))"
proof -
  let ?P = "\<lambda>fl. plat (running_board S fl)" and ?M = "bootloader S" and ?fl = "flash l"
  let ?h = "host_string (ota_data_s (client c))" and ?f = "file_string (ota_data_s (client c))"
  have "library_starts (?P ?fl)" using assms(3) by (simp add: library_starts_def)
  then obtain c1 where c1: "scheduled_step (?P ?fl) c (Run fota_work) = Some c1" "fetching (calls (client c1))"
    "fetched (calls (client c1)) = Some (?h, ?f)"
    using start_fetches assms(6) by blast
  obtain c2 where c2: "scheduled_step (?P ?fl) c1 (Fota FOTA_DOWNLOAD_EVT_FINISHED) = Some c2" "ota_reboot_work \<in> due c2"
    using end_schedules_reboot [OF c1(2)] by blast
  define fl2 where "fl2 = request_upgrade ?M (image_at S ?h ?f) ?fl"
  have fl2: "requested ?M fl2 = Some (image_at S ?h ?f)"
    using assms(1,5) by (simp add: fl2_def updates_built_in_def mcuboot_laws_def)
  obtain c3 where c3: "scheduled_step (?P fl2) c2 (Run ota_reboot_work) = Some c3"
    using c2(2) by (simp add: scheduled_step_def take_step_def)
  have "exec (life_step S) l (update_runs d0) = Some (boot_step S fl2 d0)"
    using assms(4) c1 c2(1) c3 by (simp add: update_runs_def client_step_def fl2_def)
  then show ?thesis using boot_installs [OF assms(1,2) fl2] by blast
qed

text \<open>What an OTA message does to the client.\<close>

lemma payload_whole:
  assumes "reads_whole P" and "length (payload_buf s) = PAYLOAD_BUFFER_SIZE (cfg P)" and "length d \<le> PAYLOAD_BUFFER_SIZE (cfg P)"
  shows "\<exists>b tr. publish_get_payload P d (length d) s = Some (0, s\<lparr>payload_buf := b, calls := calls s @ tr\<rparr>) \<and>
    length b = length (payload_buf s) \<and> take (length d) b = d \<and> submitted tr = {}"
proof (cases "d = []")
  case True
  then show ?thesis
    by (intro exI [of _ "payload_buf s"] exI [of _ "[]"]) (simp add: publish_get_payload_def payload_loop.simps)
next
  case False
  let ?b = "d @ drop (length d) (payload_buf s)"
  have "memcpy_at (payload_buf s) 0 d = Some ?b" using assms(2,3) by (simp add: memcpy_at_def)
  then have "publish_get_payload P d (length d) s = Some (0, s\<lparr>payload_buf := ?b, calls := calls s @ [(Read_payload (length d), int (length d))]\<rparr>)"
    using assms(1,3) False
    by (simp add: publish_get_payload_def payload_loop.simps [of P d "length d"] ext_def reads_whole_def)
  then show ?thesis using assms(2,3) by (intro exI [of _ ?b]) auto
qed

definition ota_message :: "cloud \<Rightarrow> byte list \<Rightarrow> cloud_event" where
  "ota_message s d = Mqtt (Publish (ota_sub_topic s) (length (ota_sub_topic s)) d (length d) 0 0)"

text \<open>A client that can take a message of these bytes.\<close>

definition takes_message :: "'dc platform \<Rightarrow> byte list \<Rightarrow> cloud \<Rightarrow> bool" where
  "takes_message P d s \<longleftrightarrow> reads_whole P \<and> length (payload_buf s) = PAYLOAD_BUFFER_SIZE (cfg P) \<and> length d \<le> PAYLOAD_BUFFER_SIZE (cfg P)"

lemma offer_stored:
  assumes "takes_message P d (client c)"
    and "decode_ota_data (dec P) (stack_temp P) (ota_data_s (client c)) (Decode_Init P d) = Some (err, od)"
  shows "\<exists>c'. scheduled_step P c (ota_message (client c) d) = Some c' \<and> ota_data_s (client c') = od \<and>
    ota_sub_topic (client c') = ota_sub_topic (client c) \<and> length (payload_buf (client c')) = length (payload_buf (client c)) \<and>
    (fota_work \<in> due c' \<longleftrightarrow> fota_work \<in> due c \<or> err = 0 \<and> ver_comp (pyrinas_version P) (version od) = 1)"
proof -
  let ?s = "client c" and ?t = "ota_sub_topic (client c)"
  obtain b tr where p: "publish_get_payload P d (length d) ?s = Some (0, ?s\<lparr>payload_buf := b, calls := calls ?s @ tr\<rparr>)"
    "length b = length (payload_buf ?s)" "take (length d) b = d" "submitted tr = {}"
    using payload_whole assms(1) unfolding takes_message_def by metis
  let ?s1 = "?s\<lparr>payload_buf := b, calls := calls ?s @ tr\<rparr>"
  have topic: "is_ota_topic ?t ?s1" by (simp add: is_ota_topic_def strncmp_refl)
  have d: "decode_ota_data (dec P) (stack_temp P) (ota_data_s ?s1) (Decode_Init P d) = Some (err, od)" using assms(2) by simp
  obtain s2 tr2 where s2: "publish_evt_handler P ?t (length ?t) d ?s1 = Some s2" "ota_data_s s2 = od" "ota_sub_topic s2 = ?t"
    "payload_buf s2 = b" "calls s2 = calls ?s1 @ tr2"
    "fota_work \<in> submitted tr2 \<longleftrightarrow> err = 0 \<and> ver_comp (pyrinas_version P) (version od) = 1"
  proof (cases "err = 0 \<and> ver_comp (pyrinas_version P) (version od) = 1")
    case True
    let ?s2 = "emit (Submit_delayed fota_work 5) (notify_ota (?s1\<lparr>initial_ota_check := True, ota_data_s := od,
      ota_state_s := ota_state_started\<rparr>))"
    let ?tr2 = "(if ota_cb ?s then [(Ota_state_callback ota_state_started, 0)] else []) @ [(Submit_delayed fota_work 5, 0)]"
    have h: "publish_evt_handler P ?t (length ?t) d ?s1 = Some ?s2" 
      by (rule handler_update [OF topic]) (use d True in simp_all)
    show ?thesis by (rule that [of ?s2 ?tr2, OF h]) (simp_all add: True cloud_defs)
  next
    case False
    then obtain s2 tr2 where h: "publish_evt_handler P ?t (length ?t) d ?s1 = Some s2"
      "s2 = ?s1\<lparr>initial_ota_check := True, ota_data_s := od, calls := calls ?s1 @ tr2\<rparr>"
      "fota_work \<notin> set (concat (map submitted1 (map fst tr2)))"
      using handler_no_update [OF topic d] by fastforce
    then show ?thesis using that False by (simp add: submitted_def)
  qed
  show ?thesis
    using p s2 by (auto simp: scheduled_step_def take_step_def ota_message_def qos1_ack_def)
qed

lemma message_step:
  assumes "takes_message (plat (site_board S)) d (client c)" and "at_work l = Some c"
    and "decode_ota_data (dec (plat (site_board S))) (stack_temp (plat (site_board S))) (ota_data_s (client c)) (Decode_Init (plat (site_board S)) d) = Some (err, od)"
  shows "\<exists>c'. life_step S l (In_client (ota_message (client c) d)) = Some \<lparr>flash = flash l, at_work = Some c'\<rparr> \<and>
    scheduled_step (plat (running_board S (flash l))) c (ota_message (client c) d) = Some c' \<and> ota_data_s (client c') = od \<and>
    ota_sub_topic (client c') = ota_sub_topic (client c) \<and> length (payload_buf (client c')) = length (payload_buf (client c)) \<and>
    (fota_work \<in> due c' \<longleftrightarrow> fota_work \<in> due c \<or> err = 0 \<and> ver_comp (active_image (bootloader S) (flash l)) (version od) = 1)"
proof -
  have "takes_message (plat (running_board S (flash l))) d (client c)" using assms(1) by (simp add: takes_message_def reads_whole_def)
  from offer_stored [OF this, of err od] assms(3) obtain c' where
    "scheduled_step (plat (running_board S (flash l))) c (ota_message (client c) d) = Some c'" "ota_data_s (client c') = od"
    "ota_sub_topic (client c') = ota_sub_topic (client c)" "length (payload_buf (client c')) = length (payload_buf (client c))"
    "fota_work \<in> due c' \<longleftrightarrow> fota_work \<in> due c \<or> err = 0 \<and> ver_comp (active_image (bootloader S) (flash l)) (version od) = 1"
    by auto
  then show ?thesis using assms(2) by (intro exI [of _ c']) (simp add: client_step_def ota_message_def)
qed

text \<open>A decoded text followed by what memory that has been cleared holds after it.\<close>

lemma cleared_text: "0 \<notin> set h \<Longrightarrow> length h < n \<Longrightarrow> c_string (h @ drop (length h) (replicate n 0) @ x) = h"
proof -
  assume h: "0 \<notin> set h" "length h < n"
  then obtain k where "n - length h = Suc k" by (metis Suc_diff_Suc)
  then show ?thesis using h by (simp add: c_string_append)
qed


text \<open>
  C24. The offer that has been accepted is not the one that is installed: an OTA message that arrives before the download starts replaces the
  stored offer, although it is refused, be it an older version or one that does not decode. The device downloads what
  the refused message names, installs it without another look at the version, and confirms it, so firmware can go back.
\<close>

theorem refused_offer_is_installed:
  assumes "updates_built_in S" and "switched_on d0" and "library_starts (plat (site_board S))"
    and "at_work l = Some c" and "confirmed_image (bootloader S) (flash l) = active_image (bootloader S) (flash l)"
    and "takes_message (plat (site_board S)) d1 (client c)" and "takes_message (plat (site_board S)) d2 (client c)"
    and "decode_ota_data (dec (plat (site_board S))) (stack_temp (plat (site_board S))) (ota_data_s (client c))
      (Decode_Init (plat (site_board S)) d1) = Some (0, od1)"
    and "ver_comp (active_image (bootloader S) (flash l)) (version od1) = 1"
    and "decode_ota_data (dec (plat (site_board S))) (stack_temp (plat (site_board S))) od1
      (Decode_Init (plat (site_board S)) d2) = Some (err, od2)"
    and "err \<noteq> 0 \<or> ver_comp (active_image (bootloader S) (flash l)) (version od2) \<noteq> 1"
  shows "\<exists>l'. exec (life_step S) l
      (In_client (ota_message (client c) d1) # In_client (ota_message (client c) d2) # update_runs d0) = Some l' \<and>
    runs_image S l' (image_at S (host_string od2) (file_string od2))"
proof -
  obtain c1 where c1: "life_step S l (In_client (ota_message (client c) d1)) = Some \<lparr>flash = flash l, at_work = Some c1\<rparr>"
    "ota_data_s (client c1) = od1" "fota_work \<in> due c1" "ota_sub_topic (client c1) = ota_sub_topic (client c)"
    "length (payload_buf (client c1)) = length (payload_buf (client c))"
    using message_step [OF assms(6,4,8)] assms(9) by blast
  let ?l1 = "\<lparr>flash = flash l, at_work = Some c1\<rparr>"
  have "takes_message (plat (site_board S)) d2 (client c1)" using assms(7) c1(5) by (simp add: takes_message_def)
  from message_step [OF this, of ?l1 err od2] assms(10) c1(2) obtain c2 where
    c2: "life_step S ?l1 (In_client (ota_message (client c1) d2)) = Some \<lparr>flash = flash l, at_work = Some c2\<rparr>"
    "ota_data_s (client c2) = od2" "fota_work \<in> due c2"
    using c1(3) by auto
  have "ota_message (client c1) d2 = ota_message (client c) d2" using c1(4) by (simp add: ota_message_def)
  then show ?thesis
    using stored_is_installed [OF assms(1-3), of "\<lparr>flash = flash l, at_work = Some c2\<rparr>" c2] assms(5) c1(1) c2 by simp
qed

section \<open>At work\<close>

text \<open>
  The hub of \<open>App_Main\<close>, running 1.0.0.0, with a flash that holds the running, the confirmed and the requested image. The server has 1.2.3.4 at the
  host \<open>ab\<close> and 0.2.3.4 elsewhere.
\<close>

definition example_mcuboot :: "(ota_version \<times> ota_version \<times> ota_version option) mcuboot" where
  "example_mcuboot = \<lparr>
     boot_swap = (\<lambda>(a, g, r). (case r of None \<Rightarrow> g | Some v \<Rightarrow> v, g, None)),
     write_img_confirmed = (\<lambda>(a, g, r). (a, a, r)), request_upgrade = (\<lambda>v (a, g, r). (a, g, Some v)),
     active_image = (\<lambda>(a, g, r). a), confirmed_image = (\<lambda>(a, g, r). g), requested = (\<lambda>(a, g, r). r)\<rparr>"

definition hub_site :: "((ota_msg \<times> dec_pos) option, byte \<Rightarrow> byte, ota_version \<times> ota_version \<times> ota_version option) site" where
  "hub_site = \<lparr>site_board = hub_board, site_config = hub_config, site_classify = bsdlib_ok, site_link_control = True, site_auto = False,
     site_carrier = False, bootloader = example_mcuboot,
     image_at = (\<lambda>h f. if h = [97, 98] then msg_version example_msg else msg_version old_msg)\<rparr>"

definition new_hub :: "(ota_version \<times> ota_version \<times> ota_version option) life_time" where
  "new_hub = \<lparr>flash = (pyrinas_version hub_platform, pyrinas_version hub_platform, None), at_work = None\<rparr>"

lemma hub_site_simps [simp]:
  "site_board hub_site = hub_board" "bootloader hub_site = example_mcuboot" "plat hub_board = hub_platform"
  "active_image example_mcuboot (a, g, r) = a" "confirmed_image example_mcuboot (a, g, r) = g" "requested example_mcuboot (a, g, r) = r"
  "image_at hub_site h f = (if h = [97, 98] then msg_version example_msg else msg_version old_msg)"
  "flash new_hub = (pyrinas_version hub_platform, pyrinas_version hub_platform, None)" "at_work new_hub = None"
  by (simp_all add: hub_site_def hub_board_def example_mcuboot_def new_hub_def)

lemma hub_site_ok:
  "updates_built_in hub_site" "delivered hub_site new_hub" "library_starts hub_platform" "reads_whole hub_platform" "switched_on hub_off"
  using hub_off_on by (simp_all add: updates_built_in_def mcuboot_laws_def delivered_def library_starts_def reads_whole_def
      hub_site_def hub_config_def example_mcuboot_def hub_platform_def split: option.split)

lemma hub_codec:
  "dec hub_platform = dec offers" "stack_temp hub_platform = stack_temp offers" "Decode_Init hub_platform = Decode_Init offers"
  "pyrinas_version hub_platform = pyrinas_version offers" "PAYLOAD_BUFFER_SIZE (cfg hub_platform) = 128"
  by (simp_all add: hub_platform_def offers_def example_platform_def default_config_def)

text \<open>The hub after its start.\<close>

lemma hub_boots:
  "\<exists>c. life_step hub_site new_hub (Boot hub_off) = Some \<lparr>flash = flash new_hub, at_work = Some c\<rparr> \<and>
     length (payload_buf (client c)) = 128 \<and> ota_data_s (client c) = example_ota \<and> fota_work \<notin> due c"
proof -
  let ?v = "pyrinas_version hub_platform"
  have cfg: "CLOUD_ENABLED hub_config" "ASSERTS hub_config" "IMG_MANAGER hub_config" by (simp_all add: hub_config_def)
  have "plat hub_board\<lparr>pyrinas_version := ?v\<rparr> = hub_platform" by simp
  then have same: "running_board hub_site (?v, ?v, None) = hub_board" by (simp add: running_board_def hub_board_def)
  obtain d where d: "app_main hub_board hub_config bsdlib_ok True False False hub_off = (Waits, d)"
    using hub_main [OF cfg(1)] by blast
  have conf: "Boot_write_img_confirmed \<in> fst ` set (calls d)"
    using image_confirmed_early [OF cfg(1,3) hub_off_on d] by blast
  let ?c = "\<lparr>client_pc = pc_s d, client = cloud_s d, due = submitted (calls (cloud_s d))\<rparr>"
  have "calls (cloud_s hub_off) = []" using hub_off_on by (simp add: switched_on_def)
  then have "fota_work \<notin> due ?c" using start_steady [OF cfg(1) d] by (auto simp: steady_def)
  moreover have "life_step hub_site new_hub (Boot hub_off) = Some \<lparr>flash = flash new_hub, at_work = Some ?c\<rparr>"
    using d conf same by (simp add: boot_step_def example_mcuboot_def hub_site_def)
  ultimately show ?thesis using hub_cloud [OF cfg(1,2) d] by (intro exI [of _ ?c]) simp
qed

lemma hub_takes: "length (payload_buf s) = 128 \<Longrightarrow> length d \<le> 128 \<Longrightarrow> takes_message (plat (site_board hub_site)) d s"
  using hub_site_ok(4) hub_codec(5) by (simp add: takes_message_def)

text \<open>What the two messages of \<open>offers\<close> leave in the offer that is stored.\<close>

definition new_offer :: ota_data where
  "new_offer = \<lparr>version = msg_version example_msg, host = 97 # 98 # replicate 126 0, file = 99 # replicate 127 0, force = True\<rparr>"

definition old_offer :: ota_data where
  "old_offer = \<lparr>version = msg_version old_msg, host = 101 # 102 # replicate 126 0, file = 99 # replicate 127 0, force = True\<rparr>"

lemma hub_decodes:
  "decode_ota_data (dec hub_platform) (stack_temp hub_platform) example_ota (Decode_Init hub_platform [1]) = Some (0, new_offer)"
  "decode_ota_data (dec hub_platform) (stack_temp hub_platform) new_offer (Decode_Init hub_platform [2]) = Some (0, old_offer)"
proof -
  have d: "drop (Suc 0) (replicate 128 (0 :: byte)) = replicate 127 0" "drop 2 (replicate 128 (0 :: byte)) = replicate 126 0"
    by simp_all
  show "decode_ota_data (dec hub_platform) (stack_temp hub_platform) example_ota (Decode_Init hub_platform [1]) = Some (0, new_offer)"
    using decode_cases [OF offers_simps(1,4) example_wf] msg_fields d by (simp add: hub_codec example_ota_def new_offer_def)
  have "ota_data_wf new_offer" by (simp add: new_offer_def ota_data_wf_def ver_wf_def msg_version_def example_msg_def)
  from decode_cases [OF offers_simps(1,5,7) this]
  show "decode_ota_data (dec hub_platform) (stack_temp hub_platform) new_offer (Decode_Init hub_platform [2]) = Some (0, old_offer)"
    using msg_fields d by (simp add: hub_codec new_offer_def old_offer_def)
qed

lemma hub_versions:
  "ver_comp (pyrinas_version hub_platform) (version new_offer) = 1" "ver_comp (pyrinas_version hub_platform) (version old_offer) \<noteq> 1"
  "ver_wf (pyrinas_version hub_platform)" "is_update (pyrinas_version hub_platform) (msg_version example_msg)"
proof -
  have u: "is_update (pyrinas_version hub_platform) (msg_version example_msg)" "\<not> is_update (pyrinas_version hub_platform) (msg_version old_msg)"
    by (simp_all add: hub_codec is_update_def msg_versions offers_simps(8) less_ver_num_def)
  have w: "ver_wf (pyrinas_version hub_platform)" using offers_simps(2) by (simp add: hub_codec)
  have m: "ver_wf (msg_version example_msg)" "ver_wf (msg_version old_msg)"
    by (simp_all add: ver_wf_def msg_version_def example_msg_def old_msg_def)
  show "ver_wf (pyrinas_version hub_platform)" "is_update (pyrinas_version hub_platform) (msg_version example_msg)" by (rule w, rule u)
  show "ver_comp (pyrinas_version hub_platform) (version new_offer) = 1" "ver_comp (pyrinas_version hub_platform) (version old_offer) \<noteq> 1"
    using u ver_comp_1_iff [OF w] m by (simp_all add: new_offer_def old_offer_def)
qed

lemma offer_hosts: "host_string new_offer = [97, 98]" "host_string old_offer \<noteq> [97, 98]"
proof -
  have "replicate 126 (0 :: byte) = 0 # replicate 125 0" by (simp add: eval_nat_numeral)
  then show "host_string new_offer = [97, 98]" "host_string old_offer \<noteq> [97, 98]"
    by (simp_all add: host_string_def c_string_def new_offer_def old_offer_def)
qed


theorem refused_offer_is_installed_witness:
  "\<exists>s l. exec (life_step hub_site) new_hub
       (Boot hub_off # In_client (ota_message s [1]) # In_client (ota_message s [2]) # update_runs hub_off) = Some l \<and>
     runs_image hub_site l (msg_version old_msg) \<and> numbers (msg_version old_msg) < numbers (active_image (bootloader hub_site) (flash new_hub))"
proof -
  obtain c where c: "life_step hub_site new_hub (Boot hub_off) = Some \<lparr>flash = flash new_hub, at_work = Some c\<rparr>"
    "length (payload_buf (client c)) = 128" "ota_data_s (client c) = example_ota" using hub_boots by blast
  let ?l = "\<lparr>flash = flash new_hub, at_work = Some c\<rparr>"
  have "\<exists>l. exec (life_step hub_site) ?l (In_client (ota_message (client c) [1]) # In_client (ota_message (client c) [2]) # update_runs hub_off) =
      Some l \<and> runs_image hub_site l (image_at hub_site (host_string old_offer) (file_string old_offer))"
    using hub_site_ok hub_takes [OF c(2)] hub_decodes hub_versions c(3)
    by (intro refused_offer_is_installed [where c = c and ?od1.0 = new_offer and err = 0]) simp_all
  moreover have "numbers (msg_version old_msg) < numbers (pyrinas_version hub_platform)"
    by (simp add: hub_codec offers_simps(8) msg_versions less_ver_num_def)
  ultimately show ?thesis using c(1) offer_hosts(2) by auto
qed


end
