(* ===== verification/Ble_Common.thy ===== *)
theory Ble_Common
  imports Prelude "HOL-Library.Sublist"
begin

text \<open>
  What the Bluetooth components share: the sizes of \<open>include/ble/ble_settings.h\<close>, the kernel's
  message queues, through which every payload passes, and the contract that the manager
  (\<open>lib/ble/ble_m.c\<close>) relies on and that both the central and the peripheral fulfil.
\<close>

section \<open>Sizes\<close>

definition BLE_QUEUE_ALIGN :: nat where
  "BLE_QUEUE_ALIGN = 4"

definition BLE_SETTINGS_MAX_SUBSCRIPTIONS :: nat where
  "BLE_SETTINGS_MAX_SUBSCRIPTIONS = 12"

text \<open>
  The size of an item: \<open>pyrinas_event_t_size\<close>, which the codec package defines and which is the
  argument here, rounded up to the alignment.
\<close>

definition BLE_QUEUE_ITEM_SIZE :: "nat \<Rightarrow> nat" where
  "BLE_QUEUE_ITEM_SIZE event_size =
     (if event_size mod BLE_QUEUE_ALIGN = 0 then event_size
      else (BLE_QUEUE_ALIGN - event_size mod BLE_QUEUE_ALIGN) + event_size)"

lemma item_size_bounds:
  "event_size \<le> BLE_QUEUE_ITEM_SIZE event_size \<and>
   BLE_QUEUE_ITEM_SIZE event_size < event_size + BLE_QUEUE_ALIGN \<and>
   BLE_QUEUE_ITEM_SIZE event_size mod BLE_QUEUE_ALIGN = 0"
  unfolding BLE_QUEUE_ITEM_SIZE_def BLE_QUEUE_ALIGN_def by presburger

text \<open>An item of the payload queues: the first \<open>len\<close> bytes of \<open>ble_fifo_data_t.data\<close>.\<close>

type_synonym item = "byte list"

section \<open>The kernel's message queues\<close>

text \<open>
  Zephyr's \<open>k_msgq\<close> is a parameter: \<open>put\<close> and \<open>get\<close> are called with \<open>K_NO_WAIT\<close>, \<open>put\<close> returns the
  error number and \<open>get\<close> the item, \<open>None\<close> when it fails.
\<close>

record ('a, 'q) msgq =
  k_msgq_put :: "'a \<Rightarrow> 'q \<Rightarrow> int \<times> 'q"
  k_msgq_get :: "'q \<Rightarrow> 'a option \<times> 'q"
  k_msgq_purge :: "'q \<Rightarrow> 'q"
  k_msgq_num_used_get :: "'q \<Rightarrow> nat"

text \<open>
  Its documented behaviour, over the list \<open>view q\<close> of the items in the queue: at most \<open>cap\<close> of
  them, first in, first out; putting into a full queue fails and changes nothing.
\<close>

definition msgq_laws :: "('a, 'q) msgq \<Rightarrow> nat \<Rightarrow> ('q \<Rightarrow> 'a list) \<Rightarrow> bool" where
  "msgq_laws Q cap view \<longleftrightarrow>
     (\<forall>q. length (view q) \<le> cap \<and> k_msgq_num_used_get Q q = length (view q) \<and>
        view (k_msgq_purge Q q) = []) \<and>
     (\<forall>q x. if length (view q) < cap
        then fst (k_msgq_put Q x q) = 0 \<and> view (snd (k_msgq_put Q x q)) = view q @ [x]
        else fst (k_msgq_put Q x q) \<noteq> 0 \<and> view (snd (k_msgq_put Q x q)) = view q) \<and>
     (\<forall>q. fst (k_msgq_get Q q) = (case view q of [] \<Rightarrow> None | x # _ \<Rightarrow> Some x) \<and>
        view (snd (k_msgq_get Q q)) = tl (view q))"

lemma msgq_used [simp]: "msgq_laws Q cap view \<Longrightarrow> k_msgq_num_used_get Q q = length (view q)"
  unfolding msgq_laws_def by blast

lemma msgq_purge [simp]: "msgq_laws Q cap view \<Longrightarrow> view (k_msgq_purge Q q) = []"
  unfolding msgq_laws_def by blast

lemma msgq_put_view:
  "msgq_laws Q cap view \<Longrightarrow>
   view (snd (k_msgq_put Q x q)) = (if length (view q) < cap then view q @ [x] else view q)"
  unfolding msgq_laws_def by metis

lemma msgq_put_ok_iff:
  "msgq_laws Q cap view \<Longrightarrow> fst (k_msgq_put Q x q) = 0 \<longleftrightarrow> length (view q) < cap"
  unfolding msgq_laws_def by metis

lemma msgq_get_item:
  "msgq_laws Q cap view \<Longrightarrow> fst (k_msgq_get Q q) = (case view q of [] \<Rightarrow> None | x # _ \<Rightarrow> Some x)"
  unfolding msgq_laws_def by blast

lemma msgq_get_view [simp]: "msgq_laws Q cap view \<Longrightarrow> view (snd (k_msgq_get Q q)) = tl (view q)"
  unfolding msgq_laws_def by blast

lemmas msgq_simps = msgq_put_view msgq_put_ok_iff msgq_get_item

text \<open>The laws can hold: a list that refuses to grow beyond \<open>cap\<close>.\<close>

definition fifo :: "nat \<Rightarrow> ('a, 'a list) msgq" where
  "fifo cap = \<lparr>
     k_msgq_put = (\<lambda>x q. if length (take cap q) < cap then (0, q @ [x]) else (- 35, q)),
     k_msgq_get = (\<lambda>q. case take cap q of [] \<Rightarrow> (None, []) | x # xs \<Rightarrow> (Some x, xs)),
     k_msgq_purge = (\<lambda>q. []),
     k_msgq_num_used_get = (\<lambda>q. length (take cap q))\<rparr>"

lemma fifo_laws: "msgq_laws (fifo cap) cap (take cap)"
  by (auto simp: msgq_laws_def fifo_def split: list.splits dest!: arg_cong [where f = length])

section \<open>The contract of a link\<close>

text \<open>
  What \<open>ble_m.c\<close> relies on, whether it is built for the central or the peripheral role:
  writing a payload leaves the connection alone, sends nothing by itself, and adds the
  payload to the end of the backlog or, when it is too long or there is no room or no
  connection, changes the backlog not at all.
\<close>

locale ble_link =
  fixes "write" :: "item \<Rightarrow> 's \<Rightarrow> 's" and is_up :: "'s \<Rightarrow> bool"
    and backlog :: "'s \<Rightarrow> item list" and sent :: "'s \<Rightarrow> item list"
    and item_size :: nat and inv :: "'s \<Rightarrow> bool"
  assumes write_inv: "inv s \<Longrightarrow> inv (write d s)"
    and write_is_up: "inv s \<Longrightarrow> is_up (write d s) = is_up s"
    and write_sent: "inv s \<Longrightarrow> sent (write d s) = sent s"
    and write_backlog: "inv s \<Longrightarrow> backlog (write d s) = backlog s @ [d] \<or> backlog (write d s) = backlog s"
    and write_too_long: "inv s \<Longrightarrow> item_size < length d \<Longrightarrow> backlog (write d s) = backlog s"
begin

lemma writes_inv: "inv s \<Longrightarrow> inv (fold write ds s)"
  by (induction ds arbitrary: s) (auto simp: write_inv)

lemma writes_is_up: "inv s \<Longrightarrow> is_up (fold write ds s) = is_up s"
  by (induction ds arbitrary: s) (auto simp: write_inv write_is_up)

lemma writes_sent: "inv s \<Longrightarrow> sent (fold write ds s) = sent s"
  by (induction ds arbitrary: s) (auto simp: write_inv write_sent)

lemma writes_backlog:
  "inv s \<Longrightarrow> \<exists>es. backlog (fold write ds s) = backlog s @ es \<and> subseq es ds \<and>
     list_all (\<lambda>e. length e \<le> item_size) es"
proof (induction ds arbitrary: s)
  case (Cons d ds)
  obtain es where es: "backlog (fold write ds (write d s)) = backlog (write d s) @ es"
      "subseq es ds" "list_all (\<lambda>e. length e \<le> item_size) es"
    using Cons.IH [of "write d s"] Cons.prems write_inv by blast
  consider "backlog (write d s) = backlog s" | "backlog (write d s) = backlog s @ [d]" "length d \<le> item_size"
    using write_backlog write_too_long Cons.prems not_le_imp_less by blast
  then show ?case
  proof cases
    case 1
    then show ?thesis using es by (intro exI [of _ es]) auto
  next
    case 2
    then show ?thesis using es by (intro exI [of _ "d # es"]) simp
  qed
qed simp

end

text \<open>
  How both roles empty a queue: the send work hands over the head of the backlog, and when the
  radio confirms it, the confirmation submits the work again if something is left.
\<close>

locale link_worker =
  fixes work :: "'s \<Rightarrow> 's" and confirm :: "'s \<Rightarrow> 's" and backlog :: "'s \<Rightarrow> item list"
    and sent :: "'s \<Rightarrow> item list" and submits :: "'s \<Rightarrow> nat" and inv :: "'s \<Rightarrow> bool"
  assumes work_inv: "inv s \<Longrightarrow> inv (work s)"
    and work_step: "inv s \<Longrightarrow> backlog (work s) = tl (backlog s) \<and>
          sent (work s) = sent s @ take 1 (backlog s) \<and> submits (work s) = submits s"
    and confirm_inv: "inv s \<Longrightarrow> inv (confirm s)"
    and confirm_step: "inv s \<Longrightarrow> backlog (confirm s) = backlog s \<and> sent (confirm s) = sent s \<and>
          submits (confirm s) = submits s + of_bool (backlog s \<noteq> [])"
begin

lemma drain:
  "inv s \<Longrightarrow> n = length (backlog s) \<Longrightarrow>
   inv (((\<lambda>s. confirm (work s)) ^^ n) s) \<and> backlog (((\<lambda>s. confirm (work s)) ^^ n) s) = [] \<and>
   sent (((\<lambda>s. confirm (work s)) ^^ n) s) = sent s @ backlog s \<and>
   submits (((\<lambda>s. confirm (work s)) ^^ n) s) = submits s + (n - 1)"
proof (induction n arbitrary: s)
  case (Suc n)
  let ?s = "confirm (work s)"
  have s: "inv ?s" "backlog ?s = tl (backlog s)" "sent ?s = sent s @ take 1 (backlog s)"
      "submits ?s = submits s + of_bool (tl (backlog s) \<noteq> [])"
    using Suc.prems(1) by (simp_all add: work_inv work_step confirm_inv confirm_step)
  obtain d ds where "backlog s = d # ds" "length ds = n" using Suc.prems(2) by (cases "backlog s") auto
  moreover have "((\<lambda>s. confirm (work s)) ^^ Suc n) s = ((\<lambda>s. confirm (work s)) ^^ n) ?s"
    by (simp only: funpow_Suc_right comp_apply)
  ultimately show ?case using Suc.IH [OF s(1)] s by (simp only:) (cases ds; simp)
qed simp

end

text \<open>
  The payloads of a link with one peer as a stream: what was handed to the radio and what is pending. A step only adds to what was handed over, and
  the stream gets longer by at most what the step writes.
\<close>

locale link_stream =
  fixes step :: "'s \<Rightarrow> 'e \<Rightarrow> 's option" and ok :: "'s \<Rightarrow> 'e \<Rightarrow> bool" and inv :: "'s \<Rightarrow> bool"
    and sent :: "'s \<Rightarrow> item list" and pending :: "'s \<Rightarrow> item list" and writes :: "'e \<Rightarrow> item list"
  assumes step_inv: "inv s \<Longrightarrow> ok s e \<Longrightarrow> step s e = Some s' \<Longrightarrow> inv s'"
    and step_sent: "step s e = Some s' \<Longrightarrow> prefix (sent s) (sent s')"
    and step_stream: "inv s \<Longrightarrow> ok s e \<Longrightarrow> step s e = Some s' \<Longrightarrow>
          subseq (sent s' @ pending s') (sent s @ pending s @ writes e)"
begin

lemma step_flow:
  assumes "inv s" and "ok s e" and "step s e = Some s'"
  shows "subseq (drop (length (sent s)) (sent s') @ pending s') (pending s @ writes e)"
  using step_sent [OF assms(3)] step_stream [OF assms] by (auto simp: prefix_def subseq_append')

lemma exec_stream:
  "inv s \<Longrightarrow> exec_ok step ok s es \<Longrightarrow> exec step s es = Some s' \<Longrightarrow>
   subseq (sent s' @ pending s') (sent s @ pending s @ concat (map writes es))"
proof (induction es arbitrary: s)
  case (Cons e es)
  obtain s1 where s1: "step s e = Some s1" "exec step s1 es = Some s'" using Cons.prems(3) by (auto split: option.splits)
  have e: "ok s e" "exec_ok step ok s1 es" using Cons.prems(2) s1(1) by simp_all
  have "subseq (sent s' @ pending s') ((sent s1 @ pending s1) @ concat (map writes es))"
    using Cons.IH [OF step_inv [OF Cons.prems(1) e(1) s1(1)] e(2) s1(2)] by simp
  moreover have "subseq ((sent s1 @ pending s1) @ concat (map writes es)) ((sent s @ pending s @ writes e) @ concat (map writes es))"
    using step_stream [OF Cons.prems(1) e(1) s1(1)] by (simp only: subseq_append)
  ultimately show ?case using subseq_order.order_trans by fastforce
qed simp

end

end
