(* ===== verification/Ble_Central.thy ===== *)
theory Ble_Central
  imports Ble_Common
begin

text \<open>
  The central role, \<open>lib/ble/ble_central.c\<close>: one slot per connection with its queue of payloads,
  connecting, securing and discovering a peripheral, and the work that sends. The Bluetooth
  stack, the scanner and the NUS client are outside the repository: calls into them are
  recorded, their results come from the environment. A connection object is a number.
\<close>

section \<open>State\<close>

definition BLE_CENTRAL_QUEUE_SIZE :: nat where
  "BLE_CENTRAL_QUEUE_SIZE = 10"

text \<open>
  \<open>Nus_c_send i c d\<close> is \<open>bt_gatt_nus_c_send\<close> on the client of slot \<open>i\<close>, which sends to the
  connection \<open>c\<close> that the client holds.
\<close>

datatype central_call =
  Scan_start | Scan_stop | Conn_le_create | Bt_start_scan
| Conn_ref nat | Conn_unref nat | Conn_set_security nat | Conn_disconnect "nat option"
| Dm_start nat nat | Dm_data_release | Handles_assign nat | Tx_notif_enable nat
| Nus_c_init nat | Nus_c_send nat "nat option" item
| Submit_send_work | Submit_scan_work | Evt_cb item
| Auth_cb_register | Conn_cb_register | Settings_load | Pairing_confirm nat
| Scan_init | Scan_cb_register | Scan_filter_add | Scan_filter_enable

text \<open>
  \<open>struct ble_nus_c_connection\<close>: \<open>conn\<close> is \<open>None\<close> for NULL, \<open>nus_c\<close> is the connection stored in the
  NUS client of the slot (its handles are opaque).
\<close>

record 'q slot =
  ready :: bool
  conn :: "nat option"
  q :: 'q
  nus_c :: "nat option"

record 'q central = "central_call world" +
  conns :: "'q slot list"
  num_connected :: int
  scan_failure :: bool
  evt_cb :: bool

abbreviation set_slot :: "nat \<Rightarrow> ('q slot \<Rightarrow> 'q slot) \<Rightarrow> 'q central \<Rightarrow> 'q central" where
  "set_slot i f s \<equiv> s\<lparr>conns := (conns s)[i := f (conns s ! i)]\<rparr>"

text \<open>The loops that look for the first, or without a \<open>break\<close> the last, slot with a property.\<close>

fun first_slot :: "('q slot \<Rightarrow> bool) \<Rightarrow> 'q slot list \<Rightarrow> nat option" where
  "first_slot P [] = None"
| "first_slot P (x # xs) = (if P x then Some 0 else map_option Suc (first_slot P xs))"

fun last_slot :: "('q slot \<Rightarrow> bool) \<Rightarrow> 'q slot list \<Rightarrow> nat option" where
  "last_slot P [] = None"
| "last_slot P (x # xs) =
     (case last_slot P xs of Some i \<Rightarrow> Some (Suc i) | None \<Rightarrow> if P x then Some 0 else None)"

section \<open>Sending\<close>

definition ble_central_is_connected :: "'q central \<Rightarrow> bool" where
  "ble_central_is_connected s \<longleftrightarrow> first_slot ready (conns s) \<noteq> None"

definition ble_central_write ::
    "(item, 'q) msgq \<Rightarrow> nat \<Rightarrow> item \<Rightarrow> 'q central \<Rightarrow> 'q central" where
  "ble_central_write Q item_size d s =
     (if first_slot ready (conns s) = None then s
      else if item_size < length d then s
      else emit Submit_send_work
        (s\<lparr>conns := map (\<lambda>c. if ready c then c\<lparr>q := snd (k_msgq_put Q d (q c))\<rparr> else c) (conns s)\<rparr>))"

definition send_slot ::
    "(item, 'q) msgq \<Rightarrow> central_call env \<Rightarrow> nat \<Rightarrow> 'q central \<Rightarrow> 'q central" where
  "send_slot Q E i s =
     (if \<not> ready (conns s ! i) \<or> conn (conns s ! i) = None \<or>
         k_msgq_num_used_get Q (q (conns s ! i)) = 0 then s
      else
        let (payload, q') = k_msgq_get Q (q (conns s ! i));
            s = set_slot i (q_update (\<lambda>_. q')) s
        in case payload of
             None \<Rightarrow> s
           | Some d \<Rightarrow> snd (ext E (Nus_c_send i (nus_c (conns s ! i)) d) s))"

text \<open>\<open>schedule_work\<close> is never set, so the work does not submit itself again.\<close>

definition bt_send_work_handler ::
    "(item, 'q) msgq \<Rightarrow> central_call env \<Rightarrow> 'q central \<Rightarrow> 'q central" where
  "bt_send_work_handler Q E s = fold (send_slot Q E) [0..<length (conns s)] s"

text \<open>\<open>ctx\<close> is the number of the slot whose client is the context.\<close>

definition ble_data_sent :: "(item, 'q) msgq \<Rightarrow> nat \<Rightarrow> 'q central \<Rightarrow> 'q central" where
  "ble_data_sent Q ctx s =
     (if ctx < length (conns s) \<and> k_msgq_num_used_get Q (q (conns s ! ctx)) \<noteq> 0
      then emit Submit_send_work s else s)"

definition ble_data_received :: "item \<Rightarrow> 'q central \<Rightarrow> 'q central" where
  "ble_data_received d s = (if evt_cb s then emit (Evt_cb d) s else s)"

section \<open>Scanning and connecting\<close>

definition ble_central_scan_start :: "central_call env \<Rightarrow> 'q central \<Rightarrow> 'q central" where
  "ble_central_scan_start E s =
     (let (err, s) = ext E Scan_start s in
      if err = - EALREADY then s\<lparr>scan_failure := False\<rparr>
      else if err \<noteq> 0 then emit Submit_scan_work (s\<lparr>scan_failure := True\<rparr>)
      else s\<lparr>scan_failure := False\<rparr>)"

text \<open>The function that the delayed work calls is declared nowhere in the repository.\<close>

definition bt_start_scan_work_handler :: "'q central \<Rightarrow> 'q central" where
  "bt_start_scan_work_handler s = emit Bt_start_scan s"

text \<open>
  \<open>c\<close> is the connection object that \<open>bt_conn_le_create\<close> stores when it succeeds; when it fails,
  the pointer that is then released was never written: \<open>None\<close>.
\<close>

definition scan_filter_match :: "central_call env \<Rightarrow> nat \<Rightarrow> 'q central \<Rightarrow> 'q central option" where
  "scan_filter_match E c s =
     (let (err, s) = ext E Scan_stop s;
          (err, s) = ext E Conn_le_create s
      in if err \<noteq> 0 then None else Some (emit (Conn_unref c) s))"

definition force_disconnect :: "central_call env \<Rightarrow> nat option \<Rightarrow> 'q central \<Rightarrow> 'q central" where
  "force_disconnect E c s = snd (ext E (Conn_disconnect c) s)"

definition gatt_discover :: "central_call env \<Rightarrow> nat \<Rightarrow> 'q central \<Rightarrow> 'q central" where
  "gatt_discover E c s =
     (case last_slot (\<lambda>x. conn x = Some c) (conns s) of
        None \<Rightarrow> s
      | Some i \<Rightarrow> snd (ext E (Dm_start c i) s))"

definition disconnected :: "(item, 'q) msgq \<Rightarrow> central_call env \<Rightarrow> nat \<Rightarrow> 'q central \<Rightarrow> 'q central" where
  "disconnected Q E c s =
     (case first_slot (\<lambda>x. conn x = Some c) (conns s) of
        None \<Rightarrow> s
      | Some i \<Rightarrow>
          let s = emit (Conn_unref c) s;
              s = set_slot i (\<lambda>x. x\<lparr>conn := None, q := k_msgq_purge Q (q x), ready := False\<rparr>) s;
              s = s\<lparr>num_connected := num_connected s - 1\<rparr>
          in ble_central_scan_start E s)"

definition connected ::
    "(item, 'q) msgq \<Rightarrow> central_call env \<Rightarrow> nat \<Rightarrow> int \<Rightarrow> 'q central \<Rightarrow> 'q central" where
  "connected Q E c conn_err s =
     (if conn_err \<noteq> 0 then ble_central_scan_start E (disconnected Q E c s)
      else
        let s = (case first_slot (\<lambda>x. conn x = None) (conns s) of
                   None \<Rightarrow> s
                 | Some i \<Rightarrow> set_slot i (conn_update (\<lambda>_. Some c)) (emit (Conn_ref c) s));
            (err, s) = ext E (Conn_set_security c) s;
            s = (if err \<noteq> 0 then gatt_discover E c s else s)
        in snd (ext E Scan_stop s))"

definition security_changed :: "central_call env \<Rightarrow> nat \<Rightarrow> int \<Rightarrow> 'q central \<Rightarrow> 'q central" where
  "security_changed E c err s =
     (if err = 0 then
        case first_slot (\<lambda>x. conn x = Some c) (conns s) of
          None \<Rightarrow> s | Some _ \<Rightarrow> gatt_discover E c s
      else force_disconnect E (Some c) s)"

text \<open>
  The discovery was started with the client of slot \<open>k\<close> as its context; \<open>nc\<close> is the connection in
  that client when \<open>bt_gatt_nus_c_handles_assign\<close>, which stores it there, has returned.
\<close>

definition discovery_completed ::
    "central_call env \<Rightarrow> nat \<Rightarrow> nat option \<Rightarrow> 'q central \<Rightarrow> 'q central" where
  "discovery_completed E k nc s =
     (let (err, s) = ext E (Handles_assign k) s;
          s = set_slot k (nus_c_update (\<lambda>_. nc)) s
      in if err \<noteq> 0 then force_disconnect E nc s
      else
        let (err, s) = ext E (Tx_notif_enable k) s in
        if err \<noteq> 0 then force_disconnect E nc s
        else
          let s = emit Dm_data_release s in
          case first_slot (\<lambda>x. conn x = nc) (conns s) of
            None \<Rightarrow> s
          | Some i \<Rightarrow>
              let s = set_slot i (\<lambda>x. x\<lparr>nus_c := nc, ready := True\<rparr>) s;
                  s = s\<lparr>num_connected := num_connected s + 1\<rparr>
              in if num_connected s < int (length (conns s)) then ble_central_scan_start E s else s)"

definition discovery_service_not_found :: "nat \<Rightarrow> 'q central \<Rightarrow> 'q central" where
  "discovery_service_not_found c s = s"

definition discovery_error_found :: "central_call env \<Rightarrow> nat \<Rightarrow> 'q central \<Rightarrow> 'q central" where
  "discovery_error_found E c s = force_disconnect E (Some c) s"

definition pairing_confirm :: "nat \<Rightarrow> 'q central \<Rightarrow> 'q central" where
  "pairing_confirm c s = emit (Pairing_confirm c) s"

section \<open>Initialisation\<close>

definition ble_central_scan_init :: "central_call env \<Rightarrow> 'q central \<Rightarrow> 'q central" where
  "ble_central_scan_init E s =
     (let s = emit Scan_cb_register (emit Scan_init s);
          (err, s) = ext E Scan_filter_add s
      in if err \<noteq> 0 then s else snd (ext E Scan_filter_enable s))"

fun nus_init_loop :: "central_call env \<Rightarrow> nat list \<Rightarrow> 'q central \<Rightarrow> 'q central" where
  "nus_init_loop E [] s = ble_central_scan_start E s"
| "nus_init_loop E (i # is) s =
     (let (err, s) = ext E (Nus_c_init i) s in if err \<noteq> 0 then s else nus_init_loop E is s)"

definition ble_central_ready :: "central_call env \<Rightarrow> 'q central \<Rightarrow> 'q central" where
  "ble_central_ready E s = nus_init_loop E [0..<length (conns s)] s"

definition ble_central_attach_handler :: "bool \<Rightarrow> 'q central \<Rightarrow> 'q central" where
  "ble_central_attach_handler cb s = s\<lparr>evt_cb := cb\<rparr>"

text \<open>
  \<open>q0\<close> is a queue as \<open>k_msgq_init\<close> leaves it, \<open>p_init\<close> whether the argument is not NULL. The
  assertion is the wrong way round, so a NULL argument gets as far as the copy of the
  configuration at the end: \<open>None\<close>. The copy itself is never read.
\<close>

definition ble_central_init ::
    "'q \<Rightarrow> bool \<Rightarrow> central_call env \<Rightarrow> bool \<Rightarrow> 'q central \<Rightarrow> (int \<times> 'q central) option" where
  "ble_central_init q0 settings E p_init s =
     (let (err, s) = ext E Auth_cb_register s in
      if err \<noteq> 0 then Some (err, s)
      else
        let s = (if settings then snd (ext E Settings_load s) else s);
            s = s\<lparr>num_connected := 0, scan_failure := False,
                  conns := map (\<lambda>x. x\<lparr>ready := False, q := q0\<rparr>) (conns s)\<rparr>;
            s = ble_central_scan_init E (emit Conn_cb_register s)
        in if p_init then Some (0, s) else None)"

section \<open>The central as a system of events\<close>

datatype central_event =
  Scan_match nat | Connected nat int | Disconnected nat | Security_changed nat int
| Discovery_completed nat "nat option" | Discovery_not_found nat | Discovery_error nat
| Pairing nat | Write item | Send_work | Scan_work | Data_sent nat | Data_received item

fun central_step ::
    "(item, 'q) msgq \<Rightarrow> nat \<Rightarrow> central_call env \<Rightarrow> 'q central \<Rightarrow> central_event \<Rightarrow> 'q central option"
  where
  "central_step Q is E s (Scan_match c) = scan_filter_match E c s"
| "central_step Q is E s (Connected c err) = Some (connected Q E c err s)"
| "central_step Q is E s (Disconnected c) = Some (disconnected Q E c s)"
| "central_step Q is E s (Security_changed c err) = Some (security_changed E c err s)"
| "central_step Q is E s (Discovery_completed k nc) = Some (discovery_completed E k nc s)"
| "central_step Q is E s (Discovery_not_found c) = Some (discovery_service_not_found c s)"
| "central_step Q is E s (Discovery_error c) = Some (discovery_error_found E c s)"
| "central_step Q is E s (Pairing c) = Some (pairing_confirm c s)"
| "central_step Q is E s (Write d) = Some (ble_central_write Q is d s)"
| "central_step Q is E s Send_work = Some (bt_send_work_handler Q E s)"
| "central_step Q is E s Scan_work = Some (bt_start_scan_work_handler s)"
| "central_step Q is E s (Data_sent ctx) = Some (ble_data_sent Q ctx s)"
| "central_step Q is E s (Data_received d) = Some (ble_data_received d s)"

text \<open>
  What the Bluetooth stack guarantees: a connection that is reported as new is not one that is
  still up; a discovery completes for a connection that is still up, and the client then holds
  that connection, or, when the handles could not be assigned, what it held before; and
  creating a connection succeeds.
\<close>

fun central_ok :: "central_call env \<Rightarrow> 'q central \<Rightarrow> central_event \<Rightarrow> bool" where
  "central_ok E s (Connected c err) =
     (err = 0 \<longrightarrow> list_all (\<lambda>x. conn x \<noteq> Some c) (conns s))"
| "central_ok E s (Discovery_completed k nc) =
     (k < length (conns s) \<and> conn (conns s ! k) \<noteq> None \<and>
      nc = (if E (calls s) (Handles_assign k) = 0 then conn (conns s ! k) else nus_c (conns s ! k)))"
| "central_ok E s (Scan_match c) =
     (E (calls s @ [(Scan_stop, E (calls s) Scan_stop)]) Conn_le_create = 0)"
| "central_ok E s _ = True"

text \<open>
  The invariant: a ready slot has a connection and its client holds that connection; a slot
  that is not ready has an empty queue; no connection is in two slots.
\<close>

definition slot_inv :: "('q \<Rightarrow> item list) \<Rightarrow> 'q slot \<Rightarrow> bool" where
  "slot_inv view x \<longleftrightarrow>
     (if ready x then conn x \<noteq> None \<and> nus_c x = conn x else view (q x) = [])"

definition conns_distinct :: "'q slot list \<Rightarrow> bool" where
  "conns_distinct xs \<longleftrightarrow>
     (\<forall>i < length xs. \<forall>j < length xs. conn (xs ! i) \<noteq> None \<longrightarrow> conn (xs ! i) = conn (xs ! j) \<longrightarrow> i = j)"

definition conns_inv :: "('q \<Rightarrow> item list) \<Rightarrow> 'q slot list \<Rightarrow> bool" where
  "conns_inv view xs \<longleftrightarrow> (\<forall>i < length xs. slot_inv view (xs ! i)) \<and> conns_distinct xs"

abbreviation central_inv :: "('q \<Rightarrow> item list) \<Rightarrow> 'q central \<Rightarrow> bool" where
  "central_inv view s \<equiv> conns_inv view (conns s)"

lemma first_slot_Some: "first_slot P xs = Some i \<Longrightarrow> i < length xs \<and> P (xs ! i)"
  by (induction xs arbitrary: i) (auto split: if_splits)

lemma first_slot_None: "first_slot P xs = None \<longleftrightarrow> list_all (\<lambda>x. \<not> P x) xs"
  by (induction xs) auto

lemma last_slot_Some: "last_slot P xs = Some i \<Longrightarrow> i < length xs \<and> P (xs ! i)"
  by (induction xs arbitrary: i) (auto split: if_splits option.splits)

lemma last_slot_None: "last_slot P xs = None \<longleftrightarrow> list_all (\<lambda>x. \<not> P x) xs"
  by (induction xs) (auto split: option.splits)


section \<open>What the operations leave alone\<close>

lemma conns_emit [simp]: "conns (emit c s) = conns s"
  and conns_ext [simp]: "conns (snd (ext E c s)) = conns s"
  and count_emit [simp]: "num_connected (emit c s) = num_connected s"
  and count_ext [simp]: "num_connected (snd (ext E c s)) = num_connected s"
  and evt_cb_emit [simp]: "evt_cb (emit c s) = evt_cb s"
  by (simp_all add: emit_def ext_def)

lemma scan_start_conns [simp]: "conns (ble_central_scan_start E s) = conns s"
  and scan_start_count [simp]: "num_connected (ble_central_scan_start E s) = num_connected s"
  by (simp_all add: ble_central_scan_start_def Let_def case_prod_beta)

lemma force_disconnect_conns [simp]: "conns (force_disconnect E c s) = conns s"
  and force_disconnect_count [simp]: "num_connected (force_disconnect E c s) = num_connected s"
  by (simp_all add: force_disconnect_def)

lemma gatt_discover_conns [simp]: "conns (gatt_discover E c s) = conns s"
  and gatt_discover_count [simp]: "num_connected (gatt_discover E c s) = num_connected s"
  by (simp_all add: gatt_discover_def split: option.split)

lemma security_changed_conns [simp]: "conns (security_changed E c err s) = conns s"
  and security_changed_count [simp]: "num_connected (security_changed E c err s) = num_connected s"
  by (simp_all add: security_changed_def split: option.split)

text \<open>The states of the slots after each operation that changes them.\<close>

lemma disconnected_conns:
  "conns (disconnected Q E c s) =
     (case first_slot (\<lambda>x. conn x = Some c) (conns s) of None \<Rightarrow> conns s
      | Some i \<Rightarrow> (conns s)[i := (conns s ! i)\<lparr>conn := None, q := k_msgq_purge Q (q (conns s ! i)), ready := False\<rparr>])"
  by (simp add: disconnected_def Let_def split: option.split)

lemma connected_conns:
  "conns (connected Q E c err s) =
     (if err \<noteq> 0 then conns (disconnected Q E c s)
      else case first_slot (\<lambda>x. conn x = None) (conns s) of None \<Rightarrow> conns s
      | Some i \<Rightarrow> (conns s)[i := (conns s ! i)\<lparr>conn := Some c\<rparr>])"
  by (simp add: connected_def Let_def case_prod_beta split: option.split)

text \<open>\<open>discovery_completed\<close> makes a slot ready exactly when nothing fails and a slot has the connection.\<close>

definition discovery_ok :: "central_call env \<Rightarrow> nat \<Rightarrow> 'q central \<Rightarrow> bool" where
  "discovery_ok E k s \<longleftrightarrow> E (calls s) (Handles_assign k) = 0 \<and>
     E (calls s @ [(Handles_assign k, 0)]) (Tx_notif_enable k) = 0"

lemma discovery_completed_conns:
  "conns (discovery_completed E k nc s) =
     (let xs = (conns s)[k := (conns s ! k)\<lparr>nus_c := nc\<rparr>] in
      if discovery_ok E k s then
        case first_slot (\<lambda>x. conn x = nc) xs of None \<Rightarrow> xs
        | Some i \<Rightarrow> xs[i := (xs ! i)\<lparr>nus_c := nc, ready := True\<rparr>]
      else xs)"
  by (auto simp: discovery_completed_def discovery_ok_def Let_def case_prod_beta split: option.split)

lemma write_conns:
  "conns (ble_central_write Q is d s) =
     (if length d \<le> is
      then map (\<lambda>c. if ready c then c\<lparr>q := snd (k_msgq_put Q d (q c))\<rparr> else c) (conns s)
      else conns s)"
  by (auto simp: ble_central_write_def first_slot_None list_all_iff intro!: map_idI [symmetric])

lemma send_slot_conns:
  "i < length (conns s) \<Longrightarrow> conns (send_slot Q E i s) =
     (conns s)[i := (conns s ! i)\<lparr>q :=
        if ready (conns s ! i) \<and> conn (conns s ! i) \<noteq> None \<and> k_msgq_num_used_get Q (q (conns s ! i)) \<noteq> 0
        then snd (k_msgq_get Q (q (conns s ! i))) else q (conns s ! i)\<rparr>]"
  by (auto simp: send_slot_def Let_def case_prod_beta split: option.split)

section \<open>The invariant\<close>

lemma conns_inv_update:
  assumes "conns_inv view xs" and "i < length xs" and "slot_inv view y"
    and "conn y \<noteq> None \<Longrightarrow> \<forall>j < length xs. j \<noteq> i \<longrightarrow> conn (xs ! j) \<noteq> conn y"
  shows "conns_inv view (xs[i := y])"
  using assms unfolding conns_inv_def conns_distinct_def by (auto simp: nth_list_update)

lemma disconnected_inv:
  assumes "msgq_laws Q cap view" and "central_inv view s"
  shows "central_inv view (disconnected Q E c s)"
  using assms
  by (auto simp: disconnected_conns slot_inv_def dest!: first_slot_Some intro!: conns_inv_update
      split: option.split)

lemma connected_inv:
  assumes "msgq_laws Q cap view" and "central_inv view s" and "central_ok E s (Connected c err)"
  shows "central_inv view (connected Q E c err s)"
proof (cases "err = 0")
  case True
  show ?thesis
  proof (cases "first_slot (\<lambda>x. conn x = None) (conns s)")
    case (Some i)
    then have i: "i < length (conns s)" "conn (conns s ! i) = None"
      using first_slot_Some [OF Some] by auto
    then have "slot_inv view (conns s ! i)" using assms(2) by (simp add: conns_inv_def)
    then have "slot_inv view ((conns s ! i)\<lparr>conn := Some c\<rparr>)"
      using i by (auto simp: slot_inv_def split: if_splits)
    then show ?thesis
      using True Some i assms(2,3) by (auto simp: connected_conns list_all_length intro!: conns_inv_update)
  qed (use True assms in \<open>simp add: connected_conns\<close>)
qed (use assms in \<open>simp add: connected_conns disconnected_inv\<close>)

lemma conns_inv_same:
  "conns_inv view xs \<Longrightarrow> i < length xs \<Longrightarrow> j < length xs \<Longrightarrow> conn (xs ! i) \<noteq> None \<Longrightarrow>
   conn (xs ! i) = conn (xs ! j) \<Longrightarrow> i = j"
  unfolding conns_inv_def conns_distinct_def by blast

text \<open>The slot that a completed discovery makes ready is the one whose client it was started with.\<close>

lemma discovery_slot:
  assumes "conns_inv view xs" and "k < length xs" and "conn (xs ! k) = Some c"
  shows "first_slot (\<lambda>x. conn x = Some c) (xs[k := (xs ! k)\<lparr>nus_c := nc\<rparr>]) = Some k"
proof (cases "first_slot (\<lambda>x. conn x = Some c) (xs[k := (xs ! k)\<lparr>nus_c := nc\<rparr>])")
  case None
  then have "\<not> conn (xs[k := (xs ! k)\<lparr>nus_c := nc\<rparr>] ! k) = Some c"
    unfolding first_slot_None list_all_length using assms(2) by (metis length_list_update)
  then show ?thesis using assms by simp
next
  case (Some i)
  have "i = k"
    using first_slot_Some [OF Some] assms conns_inv_same [OF assms(1), of i k]
    by (cases "i = k") (auto simp: nth_list_update)
  then show ?thesis using Some by simp
qed

lemma discovery_completed_inv:
  assumes "central_inv view s" and "central_ok E s (Discovery_completed k nc)"
  shows "central_inv view (discovery_completed E k nc s)"
proof -
  let ?xs = "(conns s)[k := (conns s ! k)\<lparr>nus_c := nc\<rparr>]"
  have k: "k < length (conns s)" using assms(2) by simp
  obtain c where c: "conn (conns s ! k) = Some c" using assms(2) by auto
  have "slot_inv view (conns s ! k)" using assms(1) k by (simp add: conns_inv_def)
  then have slot: "slot_inv view ((conns s ! k)\<lparr>nus_c := nc\<rparr>)"
    using assms(2) by (auto simp: slot_inv_def split: if_splits)
  have other: "\<forall>j < length (conns s). j \<noteq> k \<longrightarrow> conn (conns s ! j) \<noteq> conn (conns s ! k)"
    using conns_inv_same [OF assms(1) k] c by auto
  then have xs: "conns_inv view ?xs"
    using slot k by (intro conns_inv_update [OF assms(1)]) auto
  show ?thesis
  proof (cases "discovery_ok E k s")
    case True
    then have nc: "nc = Some c" using assms(2) c by (simp add: discovery_ok_def)
    have "conns (discovery_completed E k nc s) = (conns s)[k := (conns s ! k)\<lparr>nus_c := nc, ready := True\<rparr>]"
      using True discovery_slot [OF assms(1) k c, of nc] k
      by (simp add: discovery_completed_conns Let_def nc)
    then show ?thesis
      using k c nc other by (simp add: slot_inv_def conns_inv_update [OF assms(1)])
  qed (use xs in \<open>simp add: discovery_completed_conns Let_def\<close>)
qed

lemma conns_inv_map:
  assumes "conns_inv view xs" and "\<And>x. slot_inv view x \<Longrightarrow> slot_inv view (f x)" and "\<And>x. conn (f x) = conn x"
  shows "conns_inv view (map f xs)"
  using assms unfolding conns_inv_def conns_distinct_def by (simp, blast)

lemma write_inv:
  "central_inv view s \<Longrightarrow> central_inv view (ble_central_write Q is d s)"
  by (auto simp: write_conns slot_inv_def intro!: conns_inv_map)

lemma send_slot_inv:
  assumes "central_inv view s" and "i < length (conns s)"
  shows "central_inv view (send_slot Q E i s)"
proof -
  have i: "slot_inv view (conns s ! i)" using assms by (simp add: conns_inv_def)
  show ?thesis unfolding send_slot_conns [OF assms(2)]
    using i conns_inv_same [OF assms]
    by (intro conns_inv_update assms) (auto simp: slot_inv_def split: if_splits)
qed

lemma send_slot_length [simp]: "length (conns (send_slot Q E i s)) = length (conns s)"
  by (auto simp: send_slot_def Let_def case_prod_beta split: option.split)

lemma send_slots_inv:
  "central_inv view s \<Longrightarrow> \<forall>i \<in> set is. i < length (conns s) \<Longrightarrow>
   central_inv view (fold (send_slot Q E) is s)"
  by (induction "is" arbitrary: s) (auto simp: send_slot_inv)

lemma bt_send_work_inv:
  "central_inv view s \<Longrightarrow> central_inv view (bt_send_work_handler Q E s)"
  unfolding bt_send_work_handler_def by (rule send_slots_inv) auto

interpretation central: event_system "central_step Q is E" "central_ok E"
    "\<lambda>s. msgq_laws Q cap view \<and> central_inv view s" for Q cap view "is" E
proof
  fix s e assume inv: "msgq_laws Q cap view \<and> central_inv view s" and ok: "central_ok E s e"
  show "\<exists>s'. central_step Q is E s e = Some s' \<and> msgq_laws Q cap view \<and> central_inv view s'"
  proof (cases e)
    case (Scan_match c)
    then show ?thesis using inv ok by (simp add: scan_filter_match_def Let_def case_prod_beta)
  next
    case (Connected c err)
    then show ?thesis using connected_inv [of Q cap view s E c err] inv ok by (simp del: central_ok.simps)
  next
    case (Discovery_completed k nc)
    then show ?thesis using discovery_completed_inv [of view s E k nc] inv ok by (simp del: central_ok.simps)
  next
    case (Disconnected c)
    then show ?thesis using inv disconnected_inv [of Q cap view s E c] by simp
  qed (use inv in \<open>simp_all add: write_inv bt_send_work_inv ble_data_sent_def
      ble_data_received_def discovery_service_not_found_def discovery_error_found_def
      pairing_confirm_def bt_start_scan_work_handler_def\<close>)
qed

section \<open>The queue of a connection\<close>

text \<open>The payloads handed to the NUS client for connection \<open>c\<close>, oldest first.\<close>

fun sends :: "nat \<Rightarrow> (central_call \<times> int) list \<Rightarrow> item list" where
  "sends c [] = []"
| "sends c ((Nus_c_send _ c' d, _) # t) = (if c' = Some c then d # sends c t else sends c t)"
| "sends c (_ # t) = sends c t"

lemma sends_append [trace_simps, simp]: "sends c (t @ u) = sends c t @ sends c u"
  by (induction c t rule: sends.induct) auto

abbreviation sent_to :: "nat \<Rightarrow> 'q central \<Rightarrow> item list" where
  "sent_to c s \<equiv> sends c (calls s)"

abbreviation queued :: "('q \<Rightarrow> item list) \<Rightarrow> nat \<Rightarrow> 'q central \<Rightarrow> item list" where
  "queued view i s \<equiv> view (q (conns s ! i))"

text \<open>Everything handed over or still waiting for the connection in slot \<open>i\<close>.\<close>

definition up :: "nat \<Rightarrow> nat \<Rightarrow> 'q central \<Rightarrow> bool" where
  "up i c s \<longleftrightarrow> i < length (conns s) \<and> ready (conns s ! i) \<and> conn (conns s ! i) = Some c"

lemma quiet_sends [simp]:
  "sent_to c (ble_central_scan_start E s) = sent_to c s"
  "sent_to c (force_disconnect E k s) = sent_to c s"
  "sent_to c (gatt_discover E b s) = sent_to c s"
  "sent_to c (security_changed E b err s) = sent_to c s"
  "sent_to c (disconnected Q E b s) = sent_to c s"
  "sent_to c (connected Q E b err s) = sent_to c s"
  "sent_to c (discovery_completed E n nc s) = sent_to c s"
  "sent_to c (ble_central_write Q is d s) = sent_to c s"
  by (simp_all add: ble_central_scan_start_def force_disconnect_def gatt_discover_def
      security_changed_def disconnected_def connected_def discovery_completed_def ble_central_write_def
      Let_def case_prod_beta split: option.split)

lemma up_other_slot:
  assumes "central_inv view s" and "up i c s" and "j < length (conns s)" and "j \<noteq> i"
  shows "conn (conns s ! j) \<noteq> Some c" and "ready (conns s ! j) \<Longrightarrow> nus_c (conns s ! j) \<noteq> Some c"
proof -
  show ne: "conn (conns s ! j) \<noteq> Some c"
    using assms conns_inv_same [OF assms(1,3), of i] by (auto simp: up_def)
  have "slot_inv view (conns s ! j)" using assms(1,3) by (simp add: conns_inv_def)
  then show "ready (conns s ! j) \<Longrightarrow> nus_c (conns s ! j) \<noteq> Some c"
    using ne by (auto simp: slot_inv_def)
qed

lemma send_slot_sends:
  assumes "msgq_laws Q cap view" and "j < length (conns s)"
  shows "sent_to c (send_slot Q E j s) = sent_to c s @
    (if ready (conns s ! j) \<and> conn (conns s ! j) \<noteq> None \<and> nus_c (conns s ! j) = Some c
     then take 1 (queued view j s) else [])"
  using assms
  by (cases "queued view j s")
    (auto simp: send_slot_def Let_def case_prod_beta msgq_get_item split: option.split)

lemma send_slot_stream:
  assumes Q: "msgq_laws Q cap view" and inv: "central_inv view s" and up: "up i c s" and j: "j < length (conns s)"
  shows "up i c (send_slot Q E j s) \<and>
    sent_to c (send_slot Q E j s) @ queued view i (send_slot Q E j s) = sent_to c s @ queued view i s \<and>
    length (queued view i (send_slot Q E j s)) \<le> length (queued view i s)"
proof (cases "j = i")
  case True
  have "slot_inv view (conns s ! i)" using inv up by (simp add: conns_inv_def up_def)
  then have "nus_c (conns s ! i) = Some c" using up by (simp add: slot_inv_def up_def)
  then show ?thesis
    using up send_slot_sends [OF Q j, of c E] send_slot_conns [OF j, of Q E] Q True
    by (cases "queued view i s") (auto simp: up_def)
next
  case False
  then show ?thesis
    using up send_slot_sends [OF Q j, of c E] send_slot_conns [OF j, of Q E]
      up_other_slot [OF inv up j False]
    by (auto simp: up_def)
qed

lemma send_slots_stream:
  assumes "msgq_laws Q cap view"
  shows "central_inv view s \<Longrightarrow> up i c s \<Longrightarrow> \<forall>j \<in> set is. j < length (conns s) \<Longrightarrow>
    up i c (fold (send_slot Q E) is s) \<and>
    sent_to c (fold (send_slot Q E) is s) @ queued view i (fold (send_slot Q E) is s) =
      sent_to c s @ queued view i s \<and>
    length (queued view i (fold (send_slot Q E) is s)) \<le> length (queued view i s)"
proof (induction "is" arbitrary: s)
  case (Cons j js)
  have "j < length (conns s)" using Cons.prems by simp
  from send_slot_stream [OF assms Cons.prems(1,2) this, of E] send_slot_inv [OF Cons.prems(1) this, of Q E]
    Cons.IH [of "send_slot Q E j s"] Cons.prems
  show ?case by fastforce
qed simp

text \<open>What an event adds to the stream of a connection whose queue has \<open>n\<close> items.\<close>

fun admitted :: "nat \<Rightarrow> nat \<Rightarrow> nat \<Rightarrow> central_event \<Rightarrow> item list" where
  "admitted cap is n (Write d) = (if length d \<le> is \<and> n < cap then [d] else [])"
| "admitted cap is n _ = []"

fun keeps :: "nat \<Rightarrow> central_event \<Rightarrow> bool" where
  "keeps c (Disconnected c') = (c' \<noteq> c)"
| "keeps c (Connected c' err) = (err = 0 \<or> c' \<noteq> c)"
| "keeps c _ = True"

lemma up_disconnected:
  assumes "up i c s" and "c' \<noteq> c"
  shows "up i c (disconnected Q E c' s) \<and> conns (disconnected Q E c' s) ! i = conns s ! i"
  using assms by (auto simp: up_def disconnected_conns nth_list_update dest!: first_slot_Some split: option.split)

lemma up_connected:
  assumes "up i c s" and "err = 0 \<or> c' \<noteq> c"
  shows "up i c (connected Q E c' err s) \<and> conns (connected Q E c' err s) ! i = conns s ! i"
proof (cases "err = 0")
  case True
  then show ?thesis using assms(1)
    by (auto simp: up_def connected_conns nth_list_update dest!: first_slot_Some split: option.split)
next
  case False
  then show ?thesis using assms up_disconnected [OF assms(1), of c' Q E]
    by (simp add: up_def connected_conns)
qed

lemma up_discovery:
  assumes "up i c s"
  shows "up i c (discovery_completed E k nc s) \<and> queued view i (discovery_completed E k nc s) = queued view i s"
  using assms
  by (cases "k = i")
    (auto simp: up_def discovery_completed_conns Let_def nth_list_update dest!: first_slot_Some split: option.split)

lemma up_step:
  assumes Q: "msgq_laws Q cap view" and inv: "central_inv view s" and up: "up i c s"
    and step: "central_step Q is E s e = Some s'" and keeps: "keeps c e"
  shows "up i c s' \<and>
    sent_to c s' @ queued view i s' =
      sent_to c s @ queued view i s @ admitted cap is (length (queued view i s)) e \<and>
    length (queued view i s') \<le> length (queued view i s) + length (admitted cap is (length (queued view i s)) e)"
proof (cases e)
  case Send_work
  then show ?thesis
    using send_slots_stream [OF Q inv up, of "[0..<length (conns s)]" E] step
    by (simp add: bt_send_work_handler_def)
next
  case (Write d)
  then show ?thesis using step up
    by (auto simp: up_def write_conns msgq_put_view [OF Q])
next
  case (Scan_match b)
  then show ?thesis using step up
    by (auto simp: up_def scan_filter_match_def Let_def case_prod_beta split: if_splits)
qed (use step up keeps up_disconnected [OF up, of _ Q E] up_connected [OF up, of _ _ Q E] up_discovery [OF up, of E _ _ view]
  in \<open>auto simp: up_def ble_data_sent_def ble_data_received_def discovery_service_not_found_def
       discovery_error_found_def pairing_confirm_def bt_start_scan_work_handler_def\<close>)

text \<open>The payloads that the application writes.\<close>

fun written :: "central_event list \<Rightarrow> item list" where
  "written [] = []"
| "written (Write d # es) = d # written es"
| "written (_ # es) = written es"

lemma admitted_written: "subseq (admitted cap is n e @ xs) (written (e # es))"
  if "subseq xs (written es)" for xs
  using that by (cases e) auto

lemma admitted_room: "n < cap \<Longrightarrow> admitted cap is n e @ filter (\<lambda>d. length d \<le> is) (written es) =
    filter (\<lambda>d. length d \<le> is) (written (e # es))"
  by (cases e) auto

lemma admitted_length: "length (admitted cap is n e) + length (written es) \<le> length (written (e # es))"
  by (cases e) auto

lemma up_exec:
  assumes Q: "msgq_laws Q cap view"
  shows "central_inv view s \<Longrightarrow> exec_ok (central_step Q is E) (central_ok E) s es \<Longrightarrow> up i c s \<Longrightarrow>
    list_all (keeps c) es \<Longrightarrow> exec (central_step Q is E) s es = Some s' \<Longrightarrow>
    up i c s' \<and> (\<exists>acc. subseq acc (written es) \<and>
      sent_to c s' @ queued view i s' = sent_to c s @ queued view i s @ acc \<and>
      (length (queued view i s) + length (written es) \<le> cap \<longrightarrow> acc = filter (\<lambda>d. length d \<le> is) (written es)))"
proof (induction es arbitrary: s)
  case (Cons e es)
  obtain s1 where s1: "central_step Q is E s e = Some s1" "central_inv view s1"
    using central.step_ok [of Q cap view s E e "is"] Cons.prems Q by auto
  let ?a = "admitted cap is (length (queued view i s)) e"
  have step: "up i c s1" "sent_to c s1 @ queued view i s1 = sent_to c s @ queued view i s @ ?a"
      "length (queued view i s1) \<le> length (queued view i s) + length ?a"
    using up_step [OF Q Cons.prems(1,3) s1(1)] Cons.prems(4) by auto
  obtain acc where acc: "subseq acc (written es)" "up i c s'"
      "sent_to c s' @ queued view i s' = sent_to c s1 @ queued view i s1 @ acc"
      "length (queued view i s1) + length (written es) \<le> cap \<Longrightarrow> acc = filter (\<lambda>d. length d \<le> is) (written es)"
    using Cons.IH [OF s1(2) _ step(1)] Cons.prems s1(1) by auto
  have "?a @ acc = filter (\<lambda>d. length d \<le> is) (written (e # es))"
    if "length (queued view i s) + length (written (e # es)) \<le> cap"
  proof -
    have "length (queued view i s1) + length (written es) \<le> cap"
      using that step(3) admitted_length [of cap "is" "length (queued view i s)" e es] by linarith
    then have "acc = filter (\<lambda>d. length d \<le> is) (written es)" by (rule acc(4))
    then show ?thesis using that by (cases e) auto
  qed
  then show ?case
    using acc(1,2,3) step(2) admitted_written [OF acc(1)]
    by (intro conjI exI [of _ "?a @ acc"]) auto
qed simp

section \<open>Nothing is sent to the wrong device\<close>

text \<open>What waits for connection \<open>c\<close>.\<close>

definition waiting :: "('q \<Rightarrow> item list) \<Rightarrow> nat \<Rightarrow> 'q central \<Rightarrow> item list" where
  "waiting view c s =
     (case first_slot (\<lambda>x. ready x \<and> conn x = Some c) (conns s) of None \<Rightarrow> [] | Some i \<Rightarrow> queued view i s)"

lemma waiting_up:
  assumes "central_inv view s" and "up i c s"
  shows "waiting view c s = queued view i s"
proof (cases "first_slot (\<lambda>x. ready x \<and> conn x = Some c) (conns s)")
  case None
  then show ?thesis using assms(2) unfolding first_slot_None list_all_length up_def by blast
next
  case (Some j)
  then have "j = i"
    using first_slot_Some [OF Some] up_other_slot(1) [OF assms, of j] by auto
  then show ?thesis using Some by (simp add: waiting_def)
qed

lemma waiting_not_up: "\<nexists>i. up i c s \<Longrightarrow> waiting view c s = []"
  by (auto simp: waiting_def up_def split: option.split dest!: first_slot_Some)

lemma send_slots_other:
  assumes Q: "msgq_laws Q cap view"
  shows "central_inv view s \<Longrightarrow> \<nexists>i. up i c s \<Longrightarrow> \<forall>j \<in> set is. j < length (conns s) \<Longrightarrow>
    sent_to c (fold (send_slot Q E) is s) = sent_to c s \<and> (\<nexists>i. up i c (fold (send_slot Q E) is s))"
proof (induction "is" arbitrary: s)
  case (Cons j js)
  have j: "j < length (conns s)" using Cons.prems by simp
  have "slot_inv view (conns s ! j)" using Cons.prems(1) j by (simp add: conns_inv_def)
  then have "sent_to c (send_slot Q E j s) = sent_to c s"
    using send_slot_sends [OF Q j, of c E] Cons.prems(2) j by (auto simp: up_def slot_inv_def)
  moreover have "\<nexists>i. up i c (send_slot Q E j s)"
    using Cons.prems(2) j by (auto simp: up_def send_slot_conns nth_upd split: if_splits)
  ultimately show ?case
    using Cons.IH [of "send_slot Q E j s"] send_slot_inv [OF Cons.prems(1) j] Cons.prems(3) by simp
qed simp

lemma discovery_other:
  assumes inv: "central_inv view s" and no: "\<nexists>i. up i c s" and up: "up i c (discovery_completed E k nc s)"
  shows "queued view i (discovery_completed E k nc s) = []"
proof -
  have i: "i < length (conns s)" "conn (conns s ! i) = Some c"
    using up by (cases "k = i"; auto simp: up_def discovery_completed_conns Let_def nth_upd
        dest!: first_slot_Some split: option.splits if_splits)+
  have "\<not> ready (conns s ! i)" using no i by (auto simp: up_def)
  then have "queued view i s = []" using inv i(1) by (auto simp: conns_inv_def slot_inv_def)
  moreover have "queued view i (discovery_completed E k nc s) = queued view i s"
    using i(1) by (cases "k = i") (auto simp: discovery_completed_conns Let_def nth_upd
        dest!: first_slot_Some split: option.split)
  ultimately show ?thesis by simp
qed

lemma other_step:
  assumes Q: "msgq_laws Q cap view" and inv: "central_inv view s" and no: "\<nexists>i. up i c s"
    and step: "central_step Q is E s e = Some s'"
  shows "sent_to c s' = sent_to c s \<and> (\<forall>i. up i c s' \<longrightarrow> queued view i s' = [])"
proof -
  have free: "\<not> ready (conns s ! i)" if "first_slot (\<lambda>x. conn x = None) (conns s) = Some i" for i
    using inv first_slot_Some [OF that] by (auto simp: conns_inv_def slot_inv_def)
  show ?thesis
  proof (cases e)
    case Send_work
    then show ?thesis
      using send_slots_other [OF Q inv no, of "[0..<length (conns s)]" E] step
      by (simp add: bt_send_work_handler_def)
  next
    case (Discovery_completed k nc)
    then show ?thesis using discovery_other [OF inv no] step by auto
  next
    case (Connected b err)
    then have "\<not> up i c s'" for i
      using no free step
      by (auto simp: up_def connected_conns disconnected_conns nth_upd dest: first_slot_Some
          split: option.splits if_splits)
    then show ?thesis using Connected step by auto
  next
    case (Disconnected b)
    then have "\<not> up i c s'" for i
      using no step by (auto simp: up_def disconnected_conns nth_upd split: option.splits if_splits)
    then show ?thesis using Disconnected step by auto
  next
    case (Scan_match b)
    then show ?thesis using step no
      by (auto simp: up_def scan_filter_match_def Let_def case_prod_beta split: if_splits)
  next
    case (Write d)
    then show ?thesis using step no by (auto simp: up_def write_conns split: if_splits)
  qed (use step no in \<open>auto simp: up_def ble_data_sent_def ble_data_received_def
      discovery_service_not_found_def discovery_error_found_def pairing_confirm_def
      bt_start_scan_work_handler_def split: if_splits\<close>)
qed

lemma disconnected_not_up:
  assumes "central_inv view s" and "up i c s"
  shows "\<not> up j c (disconnected Q E c s)"
proof -
  have "conn (conns (disconnected Q E c s) ! j) \<noteq> Some c" if "j < length (conns s)"
  proof (cases "first_slot (\<lambda>x. conn x = Some c) (conns s)")
    case None
    then show ?thesis using assms(2) unfolding first_slot_None list_all_length up_def by blast
  next
    case (Some k)
    then have "k = i" using first_slot_Some [OF Some] up_other_slot(1) [OF assms, of k] by auto
    then show ?thesis using Some that up_other_slot(1) [OF assms that]
      by (auto simp: disconnected_conns nth_upd)
  qed
  moreover have "length (conns (disconnected Q E c s)) = length (conns s)"
    by (simp add: disconnected_conns split: option.split)
  ultimately show ?thesis by (auto simp: up_def)
qed

text \<open>No step makes the stream of a connection longer than by what is written in it.\<close>

lemma stream_step:
  assumes Q: "msgq_laws Q cap view" and inv: "central_inv view s" "central_inv view s'"
    and step: "central_step Q is E s e = Some s'"
  shows "subseq (sent_to c s' @ waiting view c s') (sent_to c s @ waiting view c s @ written [e])"
proof (cases "\<exists>i. up i c s")
  case False
  from other_step [OF Q inv(1) False step] have o: "sent_to c s' = sent_to c s"
    "\<And>i. up i c s' \<Longrightarrow> queued view i s' = []" by blast+
  have "waiting view c s' = []"
  proof (cases "\<exists>i. up i c s'")
    case True
    then show ?thesis using o(2) waiting_up [OF inv(2)] by metis
  qed (simp add: waiting_not_up)
  then show ?thesis using o(1) by (simp add: list_emb_prefix)
next
  case True
  then obtain i where up: "up i c s" by blast
  show ?thesis
  proof (cases "keeps c e")
    case True
    have "subseq (admitted cap is n e) (written [e])" for n by (cases e) auto
    then show ?thesis
      using up_step [OF Q inv(1) up step True] waiting_up [OF inv(1) up] waiting_up [OF inv(2)]
      by (auto simp: subseq_append')
  next
    case False
    then have s': "(\<exists>err. e = Connected c err \<and> err \<noteq> 0) \<or> e = Disconnected c" by (cases e) auto
    have "\<nexists>i. up i c s'" using s' step disconnected_not_up [OF inv(1) up, where Q = Q and E = E] by (auto simp: up_def connected_conns)
    then have "waiting view c s' = []" by (rule waiting_not_up)
    moreover have "sent_to c s' = sent_to c s" using s' step by auto
    ultimately show ?thesis by (simp add: list_emb_prefix)
  qed
qed

lemma send_slots_grow: "prefix (calls s) (calls (fold (send_slot Q E) js s))"
proof (induction js arbitrary: s)
  case (Cons j js)
  have "prefix (calls s) (calls (send_slot Q E j s))"
    by (auto simp: send_slot_def Let_def case_prod_beta split: option.split)
  then show ?case using Cons [of "send_slot Q E j s"] prefix_order.trans by auto
qed simp

lemma calls_grow:
  assumes "central_step Q is E s e = Some s'"
  shows "prefix (calls s) (calls s')"
proof (cases e)
  case Send_work
  then show ?thesis using assms send_slots_grow [of s Q E] by (auto simp: bt_send_work_handler_def)
qed (use assms in \<open>auto simp: scan_filter_match_def connected_def disconnected_def security_changed_def discovery_completed_def
    discovery_service_not_found_def discovery_error_found_def pairing_confirm_def ble_central_write_def bt_start_scan_work_handler_def
    ble_data_sent_def ble_data_received_def gatt_discover_def force_disconnect_def ble_central_scan_start_def
    Let_def case_prod_beta split: option.split if_splits\<close>)

lemma sends_prefix: "prefix t u \<Longrightarrow> prefix (sends c t) (sends c u)"
  by (auto simp: prefix_def)

interpretation central_stream: link_stream "central_step Q is E" "central_ok E" "\<lambda>s. msgq_laws Q cap view \<and> central_inv view s"
    "sent_to c" "waiting view c" "\<lambda>e. written [e]" for Q :: "(item, 'q) msgq" and cap view "is" E c
proof
  fix s e s' assume inv: "msgq_laws Q cap view \<and> central_inv view s" and ok: "central_ok E s e" and step: "central_step Q is E s e = Some s'"
  show inv': "msgq_laws Q cap view \<and> central_inv view s'" using central.step_ok [OF inv ok, of "is"] step by auto
  show "subseq (sent_to c s' @ waiting view c s') (sent_to c s @ waiting view c s @ written [e])"
    using stream_step inv inv' step by blast
qed (intro sends_prefix calls_grow)

lemma written_concat: "concat (map (\<lambda>e. written [e]) es) = written es"
  by (induction es rule: written.induct) auto

section \<open>Counting connections and references\<close>

definition ready_count :: "'q central \<Rightarrow> int" where
  "ready_count s = int (length (filter ready (conns s)))"

text \<open>How an event moves the counter away from the number of ready slots.\<close>

definition leave_drift :: "nat \<Rightarrow> 'q central \<Rightarrow> int" where
  "leave_drift c s =
     (case first_slot (\<lambda>x. conn x = Some c) (conns s) of None \<Rightarrow> 0
      | Some i \<Rightarrow> if ready (conns s ! i) then 0 else - 1)"

fun count_drift :: "central_call env \<Rightarrow> 'q central \<Rightarrow> central_event \<Rightarrow> int" where
  "count_drift E s (Disconnected c) = leave_drift c s"
| "count_drift E s (Connected c err) = (if err = 0 then 0 else leave_drift c s)"
| "count_drift E s (Discovery_completed k nc) =
     (if discovery_ok E k s then
        case first_slot (\<lambda>x. conn x = nc) (conns s) of None \<Rightarrow> 0
        | Some i \<Rightarrow> if ready (conns s ! i) then 1 else 0
      else 0)"
| "count_drift E s _ = 0"

lemma filter_length_upd:
  "i < length xs \<Longrightarrow>
   int (length (filter P (xs[i := y]))) = int (length (filter P xs)) + of_bool (P y) - of_bool (P (xs ! i))"
proof (induction xs arbitrary: i)
  case (Cons x xs)
  then show ?case by (cases i) auto
qed simp

lemma filter_length_same: "P y = P (xs ! i) \<Longrightarrow> length (filter P (xs[i := y])) = length (filter P xs)"
proof (induction xs arbitrary: i)
  case (Cons x xs)
  then show ?case by (cases i) auto
qed simp

lemmas filter_upd_simps = filter_length_upd filter_length_same

lemma first_slot_cong:
  "length xs = length ys \<Longrightarrow> (\<And>i. i < length xs \<Longrightarrow> P (xs ! i) = R (ys ! i)) \<Longrightarrow>
   first_slot P xs = first_slot R ys"
proof (induction xs ys rule: list_induct2)
  case (Cons x xs y ys)
  have "P x = R y" using Cons.prems [of 0] by simp
  moreover have "first_slot P xs = first_slot R ys" using Cons.prems [of "Suc _"] by (intro Cons.IH) auto
  ultimately show ?case by simp
qed simp

lemma first_slot_nus [simp]:
  "first_slot (\<lambda>x. conn x = nc) (xs[k := (xs ! k)\<lparr>nus_c := n\<rparr>]) = first_slot (\<lambda>x. conn x = nc) xs"
  by (rule first_slot_cong) (auto simp: nth_upd)

lemma ready_nus [simp]: "ready (xs[k := (xs ! k)\<lparr>nus_c := n\<rparr>] ! i) = ready (xs ! i)"
  by (simp add: nth_upd)

lemma disconnected_count:
  "num_connected (disconnected Q E c s) - ready_count (disconnected Q E c s) =
   num_connected s - ready_count s + leave_drift c s"
  by (auto simp: disconnected_def ready_count_def leave_drift_def Let_def filter_upd_simps
      split: option.split dest!: first_slot_Some)

lemma connected_count:
  "num_connected (connected Q E c err s) - ready_count (connected Q E c err s) =
   num_connected s - ready_count s + (if err = 0 then 0 else leave_drift c s)"
proof (cases "err = 0")
  case True
  then show ?thesis
    by (auto simp: connected_def ready_count_def Let_def case_prod_beta filter_upd_simps
        split: option.split dest!: first_slot_Some)
next
  case False
  have "ready_count (ble_central_scan_start E (disconnected Q E c s)) = ready_count (disconnected Q E c s)"
    by (simp add: ready_count_def)
  then show ?thesis using False disconnected_count [of Q E c s] by (simp add: connected_def)
qed

lemma discovery_count:
  "num_connected (discovery_completed E k nc s) - ready_count (discovery_completed E k nc s) =
   num_connected s - ready_count s + count_drift E s (Discovery_completed k nc)"
proof -
  let ?xs = "(conns s)[k := (conns s ! k)\<lparr>nus_c := nc\<rparr>]"
  have n: "num_connected (discovery_completed E k nc s) = num_connected s +
      (if discovery_ok E k s \<and> first_slot (\<lambda>x. conn x = nc) (conns s) \<noteq> None then 1 else 0)"
    by (auto simp: discovery_completed_def discovery_ok_def Let_def case_prod_beta split: option.split)
  have xs: "int (length (filter ready ?xs)) = ready_count s"
    by (cases "k < length (conns s)") (simp_all add: ready_count_def filter_upd_simps)
  show ?thesis
    using xs
    by (auto simp: n ready_count_def discovery_completed_conns Let_def filter_upd_simps
        split: option.split dest!: first_slot_Some)
qed

lemma ready_count_map: "ready_count s = int (length (filter (\<lambda>b. b) (map ready (conns s))))"
  by (simp add: ready_count_def comp_def)

lemma write_frame:
  "map ready (conns (ble_central_write Q is d s)) = map ready (conns s)"
  "map conn (conns (ble_central_write Q is d s)) = map conn (conns s)"
  "num_connected (ble_central_write Q is d s) = num_connected s"
  by (auto simp: write_conns) (simp add: ble_central_write_def)

lemma send_slots_frame:
  "map ready (conns (fold (send_slot Q E) is s)) = map ready (conns s) \<and>
   map conn (conns (fold (send_slot Q E) is s)) = map conn (conns s) \<and>
   num_connected (fold (send_slot Q E) is s) = num_connected s"
proof (induction "is" arbitrary: s)
  case (Cons i js)
  have "map ready (conns (send_slot Q E i s)) = map ready (conns s) \<and>
    map conn (conns (send_slot Q E i s)) = map conn (conns s) \<and>
    num_connected (send_slot Q E i s) = num_connected s"
    by (auto simp: send_slot_def Let_def case_prod_beta map_update list_update_same_conv split: option.split)
      (auto simp: list_eq_iff_nth_eq nth_upd)
  with Cons show ?case by simp
qed simp

interpretation counter: accounting "central_step Q is E" "\<lambda>s. num_connected s - ready_count s" "count_drift E"
    for Q "is" E
proof
  fix s e s' assume step: "central_step Q is E s e = Some s'"
  have same: "num_connected s' - ready_count s' = num_connected s - ready_count s"
    if "num_connected s' = num_connected s" "map ready (conns s') = map ready (conns s)"
    using that by (simp only: ready_count_map)
  show "num_connected s' - ready_count s' = num_connected s - ready_count s + count_drift E s e"
  proof (cases e)
    case (Scan_match c)
    then show ?thesis using step same by (auto simp: scan_filter_match_def Let_def case_prod_beta split: if_splits)
  next
    case (Discovery_completed k nc)
    then show ?thesis using step discovery_count [of E k nc s] by simp
  next
    case (Write d)
    then show ?thesis using step same write_frame [of Q "is" d s] by simp
  next
    case (Connected c err)
    then show ?thesis using step connected_count [of Q E c err s] by simp
  next
    case (Disconnected c)
    then show ?thesis using step disconnected_count [of Q E c s] by simp
  next
    case Send_work
    then show ?thesis using step same send_slots_frame [of Q E _ s] by (auto simp: bt_send_work_handler_def)
  qed (use step same in \<open>auto simp: ble_data_sent_def ble_data_received_def
      discovery_service_not_found_def discovery_error_found_def pairing_confirm_def
      bt_start_scan_work_handler_def split: if_splits\<close>)
qed

text \<open>The references to connection \<open>c\<close> taken and not released, and the slots that hold it.\<close>

fun refs :: "nat \<Rightarrow> (central_call \<times> int) list \<Rightarrow> int" where
  "refs c [] = 0"
| "refs c ((Conn_ref b, _) # t) = of_bool (b = c) + refs c t"
| "refs c ((Conn_unref b, _) # t) = refs c t - of_bool (b = c)"
| "refs c (_ # t) = refs c t"

lemma refs_append [trace_simps, simp]: "refs c (t @ u) = refs c t + refs c u"
  by (induction c t rule: refs.induct) auto

definition held :: "nat \<Rightarrow> 'q central \<Rightarrow> int" where
  "held c s = int (length (filter (\<lambda>x. conn x = Some c) (conns s)))"

lemma held_map: "held c s = int (length (filter (\<lambda>b. b = Some c) (map conn (conns s))))"
  by (simp add: held_def comp_def)

lemma quiet_refs [simp]:
  "refs c (calls (ble_central_scan_start E s)) = refs c (calls s)"
  "refs c (calls (force_disconnect E k s)) = refs c (calls s)"
  "refs c (calls (gatt_discover E b s)) = refs c (calls s)"
  "refs c (calls (security_changed E b err s)) = refs c (calls s)"
  "refs c (calls (discovery_completed E n nc s)) = refs c (calls s)"
  "refs c (calls (ble_central_write Q is d s)) = refs c (calls s)"
  by (simp_all add: ble_central_scan_start_def force_disconnect_def gatt_discover_def
      security_changed_def discovery_completed_def ble_central_write_def
      Let_def case_prod_beta split: option.split)

lemma send_slots_refs: "refs c (calls (fold (send_slot Q E) is s)) = refs c (calls s)"
proof (induction "is" arbitrary: s)
  case (Cons i js)
  have "refs c (calls (send_slot Q E i s)) = refs c (calls s)"
    by (simp add: send_slot_def Let_def case_prod_beta split: option.split)
  with Cons show ?case by simp
qed simp

lemma discovery_completed_conn: "map conn (conns (discovery_completed E k nc s)) = map conn (conns s)"
  by (auto simp: discovery_completed_conns Let_def map_update split: option.split)
    (auto simp: list_eq_iff_nth_eq nth_upd)

lemma disconnected_refs:
  "refs c (calls (disconnected Q E b s)) - held c (disconnected Q E b s) = refs c (calls s) - held c s"
  by (auto simp: disconnected_def held_def Let_def filter_upd_simps split: option.split dest!: first_slot_Some)

lemma connected_refs:
  "refs c (calls (connected Q E b err s)) - held c (connected Q E b err s) = refs c (calls s) - held c s"
proof (cases "err = 0")
  case True
  then show ?thesis
    by (auto simp: connected_def held_def Let_def case_prod_beta filter_upd_simps
        split: option.split dest!: first_slot_Some)
next
  case False
  have "held c (ble_central_scan_start E (disconnected Q E b s)) = held c (disconnected Q E b s)"
    by (simp add: held_def)
  then show ?thesis using False disconnected_refs [of c Q E b s] by (simp add: connected_def)
qed

interpretation refcount: accounting "central_step Q is E" "\<lambda>s. refs c (calls s) - held c s"
    "\<lambda>s e. - of_bool (e = Scan_match c)" for Q "is" E c
proof
  fix s e s' assume step: "central_step Q is E s e = Some s'"
  have same: "held c s' = held c s" if "map conn (conns s') = map conn (conns s)"
    using that by (simp only: held_map)
  show "refs c (calls s') - held c s' = refs c (calls s) - held c s + - of_bool (e = Scan_match c)"
  proof (cases e)
    case (Write d)
    then have "s' = ble_central_write Q is d s" using step by simp
    then show ?thesis using Write same write_frame(2) [of Q "is" d s] by simp
  next
    case Send_work
    then have s': "s' = fold (send_slot Q E) [0..<length (conns s)] s"
      using step by (simp add: bt_send_work_handler_def)
    then have "held c s' = held c s" using send_slots_frame [of Q E _ s] by (simp only: held_map)
    then show ?thesis using Send_work by (simp add: s' send_slots_refs)
  next
    case (Connected b err)
    then show ?thesis using step connected_refs [of c Q E b err s] by simp
  next
    case (Disconnected b)
    then show ?thesis using step disconnected_refs [of c Q E b s] by simp
  next
    case (Scan_match b)
    then show ?thesis using step same
      by (auto simp: scan_filter_match_def Let_def case_prod_beta split: if_splits)
  next
    case (Discovery_completed k nc)
    then have s': "s' = discovery_completed E k nc s" using step by simp
    then have "held c s' = held c s" by (simp only: held_map discovery_completed_conn)
    then show ?thesis using Discovery_completed by (simp add: s')
  qed (use step in \<open>auto simp: held_def ble_data_sent_def ble_data_received_def
      discovery_service_not_found_def discovery_error_found_def pairing_confirm_def
      bt_start_scan_work_handler_def split: if_splits\<close>)
qed

section \<open>Draining a queue\<close>

text \<open>One run of the send work takes the head of every ready queue.\<close>

lemma send_slots_queue:
  assumes Q: "msgq_laws Q cap view"
  shows "up i c s \<Longrightarrow> distinct is \<Longrightarrow> \<forall>j \<in> set is. j < length (conns s) \<Longrightarrow>
    up i c (fold (send_slot Q E) is s) \<and>
    queued view i (fold (send_slot Q E) is s) = (if i \<in> set is then tl (queued view i s) else queued view i s)"
proof (induction "is" arbitrary: s)
  case (Cons j js)
  have j: "j < length (conns s)" using Cons.prems by simp
  have up: "up i c (send_slot Q E j s)"
    using Cons.prems(1) by (auto simp: up_def send_slot_conns [OF j] nth_upd)
  have q: "queued view i (send_slot Q E j s) = (if i = j then tl (queued view i s) else queued view i s)"
    using Cons.prems(1) j msgq_used [OF Q] msgq_get_view [OF Q]
    by (auto simp: up_def send_slot_conns [OF j] nth_upd)
  show ?case using Cons.IH [OF up] Cons.prems q by auto
qed simp

lemma send_work_up:
  assumes Q: "msgq_laws Q cap view" and inv: "central_inv view s" and up: "up i c s"
  shows "up i c (bt_send_work_handler Q E s)"
    and "queued view i (bt_send_work_handler Q E s) = tl (queued view i s)"
    and "sent_to c (bt_send_work_handler Q E s) = sent_to c s @ take 1 (queued view i s)"
proof -
  let ?s = "bt_send_work_handler Q E s"
  show up': "up i c ?s" and q: "queued view i ?s = tl (queued view i s)"
    using send_slots_queue [OF Q up, of "[0..<length (conns s)]" E] up
    by (auto simp: bt_send_work_handler_def up_def)
  have "sent_to c ?s @ queued view i ?s = sent_to c s @ queued view i s"
    using send_slots_stream [OF Q inv up, of "[0..<length (conns s)]" E] by (simp add: bt_send_work_handler_def)
  then have "sent_to c ?s @ tl (queued view i s) = (sent_to c s @ take 1 (queued view i s)) @ tl (queued view i s)"
    unfolding q by (cases "queued view i s") simp_all
  then show "sent_to c ?s = sent_to c s @ take 1 (queued view i s)" by (simp only: append_same_eq)
qed

text \<open>How often the send work was submitted.\<close>

definition submits :: "'q central \<Rightarrow> nat" where
  "submits s = length (filter (\<lambda>p. fst p = Submit_send_work) (calls s))"

lemma send_slots_submits: "submits (fold (send_slot Q E) is s) = submits s"
proof (induction "is" arbitrary: s)
  case (Cons i js)
  have "submits (send_slot Q E i s) = submits s"
    by (simp add: submits_def send_slot_def Let_def case_prod_beta split: option.split)
  with Cons show ?case by simp
qed simp

interpretation central_worker: link_worker "bt_send_work_handler Q E" "ble_data_sent Q i"
    "queued view i" "sent_to c" submits "\<lambda>s. msgq_laws Q cap view \<and> central_inv view s \<and> up i c s"
  for Q :: "(item, 'q) msgq" and cap view E i c
proof
  fix s :: "'q central" assume inv: "msgq_laws Q cap view \<and> central_inv view s \<and> up i c s"
  then have Q: "msgq_laws Q cap view" by blast
  have s: "conns (ble_data_sent Q i s) = conns s" by (simp add: ble_data_sent_def)
  show "msgq_laws Q cap view \<and> central_inv view (bt_send_work_handler Q E s) \<and>
      up i c (bt_send_work_handler Q E s)"
    using inv send_work_up(1) bt_send_work_inv by blast
  show "queued view i (bt_send_work_handler Q E s) = tl (queued view i s) \<and>
      sent_to c (bt_send_work_handler Q E s) = sent_to c s @ take 1 (queued view i s) \<and>
      submits (bt_send_work_handler Q E s) = submits s"
    using inv send_work_up(2,3) send_slots_submits [of Q E _ s]
    by (auto simp: bt_send_work_handler_def)
  show "msgq_laws Q cap view \<and> central_inv view (ble_data_sent Q i s) \<and> up i c (ble_data_sent Q i s)"
    using inv by (simp add: s up_def)
  show "queued view i (ble_data_sent Q i s) = queued view i s \<and> sent_to c (ble_data_sent Q i s) = sent_to c s \<and>
      submits (ble_data_sent Q i s) = submits s + of_bool (queued view i s \<noteq> [])"
    using inv msgq_used [OF Q] by (auto simp: ble_data_sent_def submits_def up_def)
qed

lemma exec_rounds:
  "exec (central_step Q is E) s (concat (replicate n [Send_work, Data_sent i])) =
   Some (((\<lambda>s. ble_data_sent Q i (bt_send_work_handler Q E s)) ^^ n) s)"
  by (induction n arbitrary: s) (simp_all add: funpow_Suc_right del: funpow.simps(2))

section \<open>After initialisation\<close>

lemma central_init_conns:
  assumes "ble_central_init q0 settings E p l = Some (err, l')"
  shows "conns l' = conns l \<or> conns l' = map (\<lambda>x. x\<lparr>ready := False, q := q0\<rparr>) (conns l)"
  using assms
  by (auto simp: ble_central_init_def ble_central_scan_init_def Let_def case_prod_beta split: if_splits)

lemma central_init_attached: "ble_central_init q0 settings E p l = Some (err, l') \<Longrightarrow> evt_cb l' = evt_cb l"
  by (auto simp: ble_central_init_def ble_central_scan_init_def ext_def emit_def Let_def case_prod_beta split: if_splits)

lemma send_slots_attached: "evt_cb (fold (send_slot Q E) js s) = evt_cb s"
proof (induction js arbitrary: s)
  case (Cons j js)
  have "evt_cb (send_slot Q E j s) = evt_cb s"
    by (simp add: send_slot_def ext_def Let_def case_prod_beta split: option.split)
  then show ?case using Cons by simp
qed simp

lemma evt_cb_ext [simp]: "evt_cb (snd (ext E c s)) = evt_cb s"
  by (simp add: ext_def)

lemma central_attached [simp]:
  "evt_cb (ble_central_scan_start E s) = evt_cb s" "evt_cb (force_disconnect E k s) = evt_cb s"
  "evt_cb (gatt_discover E c s) = evt_cb s" "evt_cb (security_changed E c err s) = evt_cb s"
  "evt_cb (disconnected Q E c s) = evt_cb s" "evt_cb (connected Q E c err s) = evt_cb s"
  "evt_cb (discovery_completed E n nc s) = evt_cb s" "evt_cb (ble_central_write Q is d s) = evt_cb s"
  "evt_cb (bt_send_work_handler Q E s) = evt_cb s"
  by (simp_all add: ble_central_scan_start_def force_disconnect_def gatt_discover_def security_changed_def disconnected_def
      connected_def discovery_completed_def ble_central_write_def bt_send_work_handler_def send_slots_attached
      Let_def case_prod_beta split: option.split)

lemma central_step_attached: "central_step Q is E s e = Some s' \<Longrightarrow> evt_cb s' = evt_cb s"
  by (cases e) (auto simp: scan_filter_match_def discovery_service_not_found_def discovery_error_found_def pairing_confirm_def
    bt_start_scan_work_handler_def ble_data_sent_def ble_data_received_def Let_def case_prod_beta split: if_splits)

text \<open>Without connections nothing waits, and the invariant holds.\<close>

lemma idle_slots:
  assumes "list_all (\<lambda>x. conn x = None \<and> \<not> ready x \<and> view (q x) = []) (conns s)"
  shows "central_inv view s \<and> waiting view c s = []"
proof
  have slots: "conn (conns s ! i) = None \<and> \<not> ready (conns s ! i) \<and> view (q (conns s ! i)) = []" if "i < length (conns s)" for i
    using assms that by (simp add: list_all_length)
  then show "central_inv view s" by (simp add: conns_inv_def conns_distinct_def slot_inv_def)
  show "waiting view c s = []" using slots by (intro waiting_not_up) (auto simp: up_def)
qed

section \<open>The central as a link\<close>

lemma connected_ex: "ble_central_is_connected s \<longleftrightarrow> True \<in> set (map ready (conns s))"
  by (auto simp: ble_central_is_connected_def first_slot_None list_all_iff)

interpretation central_link: ble_link "ble_central_write Q is" ble_central_is_connected
    "queued view i" "sent_to c" "is" "\<lambda>s. msgq_laws Q cap view \<and> i < length (conns s)"
  for Q :: "(item, 'q) msgq" and "is" cap view i c
proof
  fix s :: "'q central" and d assume inv: "msgq_laws Q cap view \<and> i < length (conns s)"
  show "msgq_laws Q cap view \<and> i < length (conns (ble_central_write Q is d s))"
    using inv by (simp add: write_conns)
  show "ble_central_is_connected (ble_central_write Q is d s) = ble_central_is_connected s"
    by (simp only: connected_ex write_frame)
  show "sent_to c (ble_central_write Q is d s) = sent_to c s" by simp
  show "queued view i (ble_central_write Q is d s) = queued view i s @ [d] \<or>
      queued view i (ble_central_write Q is d s) = queued view i s"
    using inv by (auto simp: write_conns msgq_put_view [of Q cap view])
  show "queued view i (ble_central_write Q is d s) = queued view i s" if "is < length d"
    using that by (simp add: write_conns)
qed

section \<open>Properties\<close>


text \<open>
  C17. As long as a connection stays up, its payloads are a first-in first-out stream: what has
  been handed to the radio for it, followed by what is still queued, only grows, at the end, by
  payloads the application wrote, in the order of writing. If there is room for all of them
  in the queue, none of an admissible size is lost.
\<close>

theorem central_stream_in_order:
  assumes "msgq_laws Q cap view" and "central_inv view s" and "up i c s"
    and "exec_ok (central_step Q is E) (central_ok E) s es" and "list_all (keeps c) es"
    and "exec (central_step Q is E) s es = Some s'"
  shows "up i c s' \<and> (\<exists>acc. subseq acc (written es) \<and>
    sent_to c s' @ queued view i s' = sent_to c s @ queued view i s @ acc \<and>
    (length (queued view i s) + length (written es) \<le> cap \<longrightarrow>
       acc = filter (\<lambda>d. length d \<le> is) (written es)))"
  using up_exec [OF assms(1,2,4,3,5,6)] .

text \<open>
  C16. A device that connects gets nothing that was queued for another one or in an earlier
  connection: over any history in which it was not connected at the start, what is sent to it
  or waits for it are payloads written during that history, in order and each at most once.
\<close>

theorem central_no_stale_payloads:
  assumes "msgq_laws Q cap view" and "central_inv view s"
    and "list_all (\<lambda>x. conn x \<noteq> Some c) (conns s)"
    and "exec_ok (central_step Q is E) (central_ok E) s es"
    and "exec (central_step Q is E) s es = Some s'"
  shows "subseq (sent_to c s' @ waiting view c s') (sent_to c s @ written es)"
proof -
  have "waiting view c s = []" using assms(3) by (intro waiting_not_up) (auto simp: up_def list_all_length)
  then show ?thesis using central_stream.exec_stream [OF conjI [OF assms(1,2)] assms(4,5), where c = c]
    by (simp add: written_concat)
qed

text \<open>
  When the radio confirms each payload, the send work and the confirmations keep each
  other going until the queue of a connection is empty: as many rounds as payloads are
  waiting send all of them in order, and every confirmation but the last submits the work again.
\<close>

theorem central_drains_queue:
  assumes "msgq_laws Q cap view" and "central_inv view s" and "up i c s"
  shows "\<exists>s'. exec (central_step Q is E) s
        (concat (replicate (length (queued view i s)) [Send_work, Data_sent i])) = Some s' \<and>
    queued view i s' = [] \<and> sent_to c s' = sent_to c s @ queued view i s \<and>
    submits s' = submits s + (length (queued view i s) - 1)"
  unfolding exec_rounds
  using central_worker.drain [of Q cap view s i c "length (queued view i s)" E] assms by simp

text \<open>
  A burst of writes leaves the connections alone and sends nothing by itself; each queue
  grows by some of the payloads, in order, none longer than an item.
\<close>

theorem central_burst:
  assumes "msgq_laws Q cap view" and "i < length (conns s)"
  shows "ble_central_is_connected (fold (ble_central_write Q is) ds s) = ble_central_is_connected s \<and>
    sent_to c (fold (ble_central_write Q is) ds s) = sent_to c s \<and>
    (\<exists>es. queued view i (fold (ble_central_write Q is) ds s) = queued view i s @ es \<and>
       subseq es ds \<and> list_all (\<lambda>e. length e \<le> is) es)"
  using central_link.writes_is_up [of Q cap view i s "is" ds] central_link.writes_sent [of Q cap view i s c "is" ds]
    central_link.writes_backlog [of Q cap view i s "is" ds] assms by blast

text \<open>
  C35. The counter of connections is the number of ready slots plus a drift, and the drift is
  exactly this: every disconnection of a slot that never became ready (security or discovery
  failed) takes one off, every discovery completed for a slot that already was ready adds one.
\<close>

theorem connection_counter_drift:
  assumes "exec (central_step Q is E) s es = Some s'"
  shows "num_connected s' =
    ready_count s' + (num_connected s - ready_count s) + total (central_step Q is E) (count_drift E) s es"
  using counter.exec_quantity [OF assms] by simp

text \<open>
  References to connection objects are balanced: over any history the references to a
  connection taken by the central less those it released grow by as much as the number of slots
  that hold it, apart from those it releases after \<open>bt_conn_le_create\<close>, which took them.
\<close>

theorem connection_references_balanced:
  assumes "exec (central_step Q is E) s es = Some s'" and "refs c (calls s) = held c s"
  shows "refs c (calls s') = held c s' - int (count_list es (Scan_match c))"
proof -
  have "sum_list (map (\<lambda>e. - of_bool (e = Scan_match c)) es) = - int (count_list es (Scan_match c))"
    by (induction es) auto
  then show ?thesis
    using refcount.exec_quantity [OF assms(1), of c] assms(2) by (simp add: total_stateless [OF assms(1)])
qed

section \<open>The properties at work\<close>

definition central_example :: "item list central" where
  "central_example = \<lparr>calls = [], conns = replicate 2 \<lparr>ready = False, conn = None, q = [], nus_c = None\<rparr>,
     num_connected = 0, scan_failure = False, evt_cb = True\<rparr>"

text \<open>One device connects, is discovered and gets a payload; a second one fails before discovery.\<close>

definition central_history :: "central_event list" where
  "central_history = [Connected 7 0, Security_changed 7 0, Discovery_completed 0 (Some 7), Write [1],
     Connected 8 0, Disconnected 8, Write [2], Send_work]"

lemma central_example_inv: "central_inv (take 10) central_example"
  by (simp add: central_example_def conns_inv_def conns_distinct_def slot_inv_def nth_Cons' numeral_2_eq_2)

lemmas central_defs = scan_filter_match_def connected_def disconnected_def security_changed_def
  discovery_completed_def gatt_discover_def ble_central_scan_start_def ble_central_write_def
  bt_send_work_handler_def send_slot_def fifo_def ble_data_sent_def

lemma central_history_ok:
  "exec_ok (central_step (fifo 10) 4 (\<lambda>t c. 0)) (central_ok (\<lambda>t c. 0)) central_example central_history"
  by (simp add: central_history_def central_example_def central_defs Let_def case_prod_beta numeral_2_eq_2)

lemma central_history_end:
  "exec (central_step (fifo 10) 4 (\<lambda>t c. 0)) central_example central_history = Some
    \<lparr>calls = [(Conn_ref 7, 0), (Conn_set_security 7, 0), (Scan_stop, 0), (Dm_start 7 0, 0),
       (Handles_assign 0, 0), (Tx_notif_enable 0, 0), (Dm_data_release, 0), (Scan_start, 0),
       (Submit_send_work, 0), (Conn_ref 8, 0), (Conn_set_security 8, 0), (Scan_stop, 0),
       (Conn_unref 8, 0), (Scan_start, 0), (Submit_send_work, 0), (Nus_c_send 0 (Some 7) [1], 0)],
     conns = [\<lparr>ready = True, conn = Some 7, q = [[2]], nus_c = Some 7\<rparr>,
       \<lparr>ready = False, conn = None, q = [], nus_c = None\<rparr>],
     num_connected = 0, scan_failure = False, evt_cb = True\<rparr>"
  by (simp add: central_history_def central_example_def central_defs Let_def case_prod_beta numeral_2_eq_2
      emit_def ext_def)


theorem central_no_stale_payloads_witness:
  "\<exists>s'. exec (central_step (fifo 10) 4 (\<lambda>t c. 0)) central_example central_history = Some s' \<and>
     subseq (sent_to 7 s' @ waiting (take 10) 7 s') [[1], [2]]"
proof -
  obtain s' where s': "exec (central_step (fifo 10) 4 (\<lambda>t c. 0)) central_example central_history = Some s'"
    using central_history_end by blast
  have "list_all (\<lambda>x. conn x \<noteq> Some 7) (conns central_example)" "sent_to 7 central_example = []"
    "written central_history = [[1], [2]]"
    by (simp_all add: central_example_def central_history_def numeral_2_eq_2)
  with central_no_stale_payloads [OF fifo_laws central_example_inv _ central_history_ok s', of 7] s'
  show ?thesis by auto
qed

text \<open>From here on one device is up and has a payload waiting.\<close>

definition central_up :: "item list central" where
  "central_up = central_example\<lparr>conns :=
     [\<lparr>ready = True, conn = Some 7, q = [[5]], nus_c = Some 7\<rparr>,
      \<lparr>ready = False, conn = None, q = [], nus_c = None\<rparr>], num_connected := 1\<rparr>"

lemma central_up_inv: "central_inv (take 10) central_up" and central_up_up: "up 0 7 central_up"
  by (simp_all add: central_up_def conns_inv_def conns_distinct_def slot_inv_def up_def nth_Cons')

theorem central_stream_in_order_witness:
  "\<exists>s'. exec (central_step (fifo 10) 4 (\<lambda>t c. 0)) central_up [Write [1], Send_work, Write [1, 2, 3, 4, 5], Write [2]] = Some s' \<and>
     sent_to 7 s' @ queued (take 10) 0 s' = [[5], [1], [2]]"
proof -
  let ?es = "[Write [1], Send_work, Write [1, 2, 3, 4, 5], Write [2]]"
  have ok: "exec_ok (central_step (fifo 10) 4 (\<lambda>t c. 0)) (central_ok (\<lambda>t c. 0)) central_up ?es" by simp
  obtain s' where s': "exec (central_step (fifo 10) 4 (\<lambda>t c. 0)) central_up ?es = Some s'" by simp
  have "sent_to 7 central_up = []" "queued (take 10) 0 central_up = [[5]]"
    by (simp_all add: central_up_def central_example_def)
  with central_stream_in_order [OF fifo_laws central_up_inv central_up_up ok _ s'] s'
  show ?thesis by auto
qed

theorem central_drains_queue_witness:
  "\<exists>s'. exec (central_step (fifo 10) 4 (\<lambda>t c. 0)) central_up [Send_work, Data_sent 0] = Some s' \<and>
     sent_to 7 s' = [[5]] \<and> queued (take 10) 0 s' = []"
  using central_drains_queue [OF fifo_laws central_up_inv central_up_up, of 4 "\<lambda>t c. 0"]
  by (auto simp: central_up_def central_example_def)

theorem central_burst_witness:
  "\<exists>es. queued (take 10) 0 (fold (ble_central_write (fifo 10) 4) [[1], [2]] central_up) = [5] # es \<and>
     subseq es [[1], [2]]"
  using central_burst [OF fifo_laws, of 0 central_up 10 4 "[[1], [2]]" 7]
  by (auto simp: central_up_def)

theorem connection_counter_drift_witness:
  "\<exists>s'. exec (central_step (fifo 10) 4 (\<lambda>t c. 0)) central_example central_history = Some s' \<and>
     ready_count s' = 1 \<and> num_connected s' = 0 \<and>
     total (central_step (fifo 10) 4 (\<lambda>t c. 0)) (count_drift (\<lambda>t c. 0)) central_example central_history = - 1"
proof -
  have r: "ready_count central_example = 0" "num_connected central_example = 0"
    by (simp_all add: ready_count_def central_example_def)
  from connection_counter_drift [OF central_history_end] r show ?thesis
    by (simp add: central_history_end) (simp add: ready_count_def)
qed

theorem connection_references_balanced_witness:
  "\<exists>s'. exec (central_step (fifo 10) 4 (\<lambda>t c. 0)) central_example central_history = Some s' \<and>
     refs 8 (calls s') = held 8 s' - int (count_list central_history (Scan_match 8)) \<and> refs 8 (calls s') = 0"
proof -
  have "refs 8 (calls central_example) = held 8 central_example"
    by (simp add: held_def central_example_def)
  from connection_references_balanced [OF central_history_end this] show ?thesis
    by (simp add: central_history_end)
qed

end
