(* ===== verification/Ble_Peripheral.thy ===== *)
theory Ble_Peripheral
  imports Ble_Common
begin

text \<open>
  The peripheral role, \<open>lib/ble/ble_peripheral.c\<close>: advertising, the one connection, its queue of
  payloads and the work that sends. The Bluetooth stack and the NUS service are outside the
  repository: calls into them are recorded, their results come from the environment.
\<close>

section \<open>State\<close>

datatype peripheral_call =
  Adv_create | Adv_set_data | Adv_start
| Conn_ref nat | Conn_unref nat | Conn_disconnect nat | Exchange_mtu nat | Nus_max_send nat
| Nus_send nat item | Submit_send_work | Evt_cb item
| Nus_init | Conn_cb_register | Auth_cb_register | Smp_bt_register | Pairing_confirm nat

text \<open>
  \<open>current_conn\<close> is \<open>None\<close> for NULL, \<open>adv\<close> says whether that pointer is set, and \<open>q\<close> is
  \<open>m_peripheral_event_queue\<close>.
\<close>

record 'q peripheral = "peripheral_call world" +
  current_conn :: "nat option"
  m_ready :: bool
  adv :: bool
  evt_cb :: bool
  nus_max_send_len :: "32 word"
  q :: 'q

section \<open>Operations\<close>

definition ble_peripheral_advertising_start :: "peripheral_call env \<Rightarrow> 'q peripheral \<Rightarrow> 'q peripheral" where
  "ble_peripheral_advertising_start E s =
     (if adv s then snd (ext E Adv_start s)
      else
        let (err, s) = ext E Adv_create s in
        if err \<noteq> 0 then s
        else
          let s = s\<lparr>adv := True\<rparr>;
              (err, s) = ext E Adv_set_data s
          in if err \<noteq> 0 then s else snd (ext E Adv_start s))"

definition exchange_func :: "peripheral_call env \<Rightarrow> nat \<Rightarrow> int \<Rightarrow> 'q peripheral \<Rightarrow> 'q peripheral" where
  "exchange_func E c err s =
     (if err = 0 then let (n, s) = ext E (Nus_max_send c) s in s\<lparr>nus_max_send_len := word_of_int n\<rparr>
      else s)"

definition connected :: "peripheral_call env \<Rightarrow> nat \<Rightarrow> int \<Rightarrow> 'q peripheral \<Rightarrow> 'q peripheral" where
  "connected E c err s =
     (if err \<noteq> 0 then s
      else
        let s = (emit (Conn_ref c) s)\<lparr>current_conn := Some c\<rparr>
        in snd (ext E (Exchange_mtu c) s))"

definition disconnected ::
    "(item, 'q) msgq \<Rightarrow> peripheral_call env \<Rightarrow> nat \<Rightarrow> 'q peripheral \<Rightarrow> 'q peripheral" where
  "disconnected Q E c s =
     (let s = (case current_conn s of None \<Rightarrow> s
               | Some b \<Rightarrow> (emit (Conn_unref b) s)\<lparr>current_conn := None\<rparr>);
          s = s\<lparr>q := k_msgq_purge Q (q s), m_ready := False\<rparr>
      in ble_peripheral_advertising_start E s)"

definition security_changed :: "peripheral_call env \<Rightarrow> nat \<Rightarrow> int \<Rightarrow> 'q peripheral \<Rightarrow> 'q peripheral" where
  "security_changed E c err s =
     (if err = 0 then s\<lparr>m_ready := True\<rparr> else snd (ext E (Conn_disconnect c) s))"

definition bt_send_work_handler ::
    "(item, 'q) msgq \<Rightarrow> peripheral_call env \<Rightarrow> 'q peripheral \<Rightarrow> 'q peripheral" where
  "bt_send_work_handler Q E s =
     (case current_conn s of None \<Rightarrow> s
      | Some c \<Rightarrow>
          let (payload, q') = k_msgq_get Q (q s);
              s = s\<lparr>q := q'\<rparr>
          in case payload of None \<Rightarrow> s | Some d \<Rightarrow> snd (ext E (Nus_send c d) s))"

definition pairing_confirm :: "nat \<Rightarrow> 'q peripheral \<Rightarrow> 'q peripheral" where
  "pairing_confirm c s = emit (Pairing_confirm c) s"

definition bt_receive_cb :: "item \<Rightarrow> 'q peripheral \<Rightarrow> 'q peripheral" where
  "bt_receive_cb d s = (if evt_cb s then emit (Evt_cb d) s else s)"

definition bt_sent_cb :: "(item, 'q) msgq \<Rightarrow> 'q peripheral \<Rightarrow> 'q peripheral" where
  "bt_sent_cb Q s = (if k_msgq_num_used_get Q (q s) = 0 then s else emit Submit_send_work s)"

definition ble_peripheral_ready :: "peripheral_call env \<Rightarrow> 'q peripheral \<Rightarrow> 'q peripheral" where
  "ble_peripheral_ready E s =
     emit Smp_bt_register (emit Auth_cb_register (emit Conn_cb_register
       (ble_peripheral_advertising_start E (emit Nus_init s))))"

definition ble_peripheral_write ::
    "(item, 'q) msgq \<Rightarrow> nat \<Rightarrow> item \<Rightarrow> 'q peripheral \<Rightarrow> 'q peripheral" where
  "ble_peripheral_write Q item_size d s =
     (if current_conn s = None then s
      else if item_size < length d then s
      else
        let (err, q') = k_msgq_put Q d (q s);
            s = s\<lparr>q := q'\<rparr>
        in if err \<noteq> 0 then s else emit Submit_send_work s)"

definition ble_peripheral_attach_handler :: "bool \<Rightarrow> 'q peripheral \<Rightarrow> 'q peripheral" where
  "ble_peripheral_attach_handler cb s = s\<lparr>evt_cb := cb\<rparr>"

definition ble_peripheral_init :: "'q peripheral \<Rightarrow> 'q peripheral" where
  "ble_peripheral_init s = s\<lparr>m_ready := False\<rparr>"

definition ble_peripheral_disconnect :: "'q peripheral \<Rightarrow> 'q peripheral" where
  "ble_peripheral_disconnect s = s"

definition ble_peripheral_is_connected :: "'q peripheral \<Rightarrow> bool" where
  "ble_peripheral_is_connected s \<longleftrightarrow> m_ready s"

section \<open>The peripheral as a system of events\<close>

datatype peripheral_event =
  Connected nat int | Disconnected nat | Security_changed nat int | Mtu_exchanged nat int
| Pairing nat | Write item | Send_work | Sent | Received item | Disconnect_request

fun peripheral_step ::
    "(item, 'q) msgq \<Rightarrow> nat \<Rightarrow> peripheral_call env \<Rightarrow> 'q peripheral \<Rightarrow> peripheral_event \<Rightarrow> 'q peripheral option"
  where
  "peripheral_step Q is E s (Connected c err) = Some (connected E c err s)"
| "peripheral_step Q is E s (Disconnected c) = Some (disconnected Q E c s)"
| "peripheral_step Q is E s (Security_changed c err) = Some (security_changed E c err s)"
| "peripheral_step Q is E s (Mtu_exchanged c err) = Some (exchange_func E c err s)"
| "peripheral_step Q is E s (Pairing c) = Some (pairing_confirm c s)"
| "peripheral_step Q is E s (Write d) = Some (ble_peripheral_write Q is d s)"
| "peripheral_step Q is E s Send_work = Some (bt_send_work_handler Q E s)"
| "peripheral_step Q is E s Sent = Some (bt_sent_cb Q s)"
| "peripheral_step Q is E s (Received d) = Some (bt_receive_cb d s)"
| "peripheral_step Q is E s Disconnect_request = Some (ble_peripheral_disconnect s)"

text \<open>
  What the Bluetooth stack guarantees: security changes on a connection that is up. Without a
  connection the queue is empty and the link does not count as ready.
\<close>

fun peripheral_ok :: "'q peripheral \<Rightarrow> peripheral_event \<Rightarrow> bool" where
  "peripheral_ok s (Security_changed c err) = (current_conn s = Some c)"
| "peripheral_ok s _ = True"

definition peripheral_inv :: "('q \<Rightarrow> item list) \<Rightarrow> 'q peripheral \<Rightarrow> bool" where
  "peripheral_inv view s \<longleftrightarrow> (current_conn s = None \<longrightarrow> view (q s) = [] \<and> \<not> m_ready s)"

lemma emit_fields [simp]:
  "current_conn (emit k s) = current_conn s" "m_ready (emit k s) = m_ready s" "q (emit k s) = q s"
  "adv (emit k s) = adv s" "evt_cb (emit k s) = evt_cb s"
  by (simp_all add: emit_def)

lemma ext_fields [simp]:
  "current_conn (snd (ext E k s)) = current_conn s" "m_ready (snd (ext E k s)) = m_ready s"
  "q (snd (ext E k s)) = q s" "adv (snd (ext E k s)) = adv s" "evt_cb (snd (ext E k s)) = evt_cb s"
  by (simp_all add: ext_def)

lemma advertising_fields [simp]:
  "current_conn (ble_peripheral_advertising_start E s) = current_conn s"
  "m_ready (ble_peripheral_advertising_start E s) = m_ready s"
  "q (ble_peripheral_advertising_start E s) = q s"
  by (simp_all add: ble_peripheral_advertising_start_def Let_def case_prod_beta)

lemma disconnected_fields [simp]:
  "current_conn (disconnected Q E c s) = None" "m_ready (disconnected Q E c s) = False"
  "q (disconnected Q E c s) = k_msgq_purge Q (q s)"
  by (simp_all add: disconnected_def Let_def split: option.split)

lemma connected_fields [simp]:
  "current_conn (connected E c err s) = (if err = 0 then Some c else current_conn s)"
  "m_ready (connected E c err s) = m_ready s" "q (connected E c err s) = q s"
  by (simp_all add: connected_def Let_def)

lemma write_fields [simp]:
  "current_conn (ble_peripheral_write Q is d s) = current_conn s"
  "m_ready (ble_peripheral_write Q is d s) = m_ready s"
  "q (ble_peripheral_write Q is d s) =
     (if current_conn s \<noteq> None \<and> length d \<le> is then snd (k_msgq_put Q d (q s)) else q s)"
  by (auto simp: ble_peripheral_write_def Let_def case_prod_beta)

lemma send_work_fields [simp]:
  "current_conn (bt_send_work_handler Q E s) = current_conn s"
  "m_ready (bt_send_work_handler Q E s) = m_ready s"
  "q (bt_send_work_handler Q E s) = (if current_conn s \<noteq> None then snd (k_msgq_get Q (q s)) else q s)"
  by (auto simp: bt_send_work_handler_def Let_def case_prod_beta split: option.split)

lemma security_fields [simp]:
  "current_conn (security_changed E c err s) = current_conn s"
  "m_ready (security_changed E c err s) = (err = 0 \<or> m_ready s)" "q (security_changed E c err s) = q s"
  by (simp_all add: security_changed_def)

lemma callback_fields [simp]:
  "current_conn (exchange_func E c err s) = current_conn s" "m_ready (exchange_func E c err s) = m_ready s"
  "q (exchange_func E c err s) = q s"
  "current_conn (bt_sent_cb Q s) = current_conn s" "m_ready (bt_sent_cb Q s) = m_ready s" "q (bt_sent_cb Q s) = q s"
  "current_conn (bt_receive_cb d s) = current_conn s" "m_ready (bt_receive_cb d s) = m_ready s"
  "q (bt_receive_cb d s) = q s" "q (pairing_confirm c s) = q s"
  by (simp_all add: pairing_confirm_def exchange_func_def bt_sent_cb_def bt_receive_cb_def Let_def case_prod_beta)

interpretation peripheral: event_system "peripheral_step Q is E" peripheral_ok
    "\<lambda>s. msgq_laws Q cap view \<and> peripheral_inv view s" for Q :: "(item, 'q) msgq" and cap view "is" E
proof
  fix s :: "'q peripheral" and e
  assume inv: "msgq_laws Q cap view \<and> peripheral_inv view s" and ok: "peripheral_ok s e"
  show "\<exists>s'. peripheral_step Q is E s e = Some s' \<and> msgq_laws Q cap view \<and> peripheral_inv view s'"
  proof (cases e)
    case (Disconnected c)
    then show ?thesis using inv msgq_purge [of Q cap view] by (simp add: peripheral_inv_def)
  qed (use inv ok in \<open>auto simp: peripheral_inv_def pairing_confirm_def ble_peripheral_disconnect_def\<close>)
qed

section \<open>The stream of payloads\<close>

text \<open>The payloads handed to the NUS service, oldest first, and those the application writes.\<close>

fun sends :: "(peripheral_call \<times> int) list \<Rightarrow> item list" where
  "sends [] = []"
| "sends ((Nus_send _ d, _) # t) = d # sends t"
| "sends (_ # t) = sends t"

lemma p_sends_append [trace_simps, simp]: "sends (t @ u) = sends t @ sends u"
  by (induction t rule: sends.induct) auto

abbreviation sent :: "'q peripheral \<Rightarrow> item list" where
  "sent s \<equiv> sends (calls s)"

fun written :: "peripheral_event list \<Rightarrow> item list" where
  "written [] = []"
| "written (Write d # es) = d # written es"
| "written (_ # es) = written es"

definition submits :: "'q peripheral \<Rightarrow> nat" where
  "submits s = length (filter (\<lambda>p. fst p = Submit_send_work) (calls s))"

lemma quiet_sent [simp]:
  "sent (ble_peripheral_advertising_start E s) = sent s" "sent (exchange_func E c err s) = sent s"
  "sent (connected E c err s) = sent s" "sent (disconnected Q E c s) = sent s"
  "sent (security_changed E c err s) = sent s" "sent (bt_sent_cb Q s) = sent s"
  "sent (bt_receive_cb d s) = sent s" "sent (ble_peripheral_write Q is d s) = sent s"
proof -
  show adv: "sent (ble_peripheral_advertising_start E s) = sent s" for E and s :: "'b peripheral"
    by (simp add: ble_peripheral_advertising_start_def Let_def case_prod_beta)
  show "sent (disconnected Q E c s) = sent s"
    by (simp add: disconnected_def Let_def adv split: option.split)
qed (simp_all add: exchange_func_def connected_def security_changed_def bt_sent_cb_def bt_receive_cb_def
    ble_peripheral_write_def Let_def case_prod_beta)

lemma quiet_submits [simp]:
  "submits (exchange_func E c err s) = submits s" "submits (connected E c err s) = submits s"
  "submits (security_changed E c err s) = submits s" "submits (bt_receive_cb d s) = submits s"
  "submits (bt_send_work_handler Q E s) = submits s" "submits (pairing_confirm c s) = submits s"
  by (simp_all add: submits_def exchange_func_def connected_def security_changed_def bt_receive_cb_def
      bt_send_work_handler_def pairing_confirm_def Let_def case_prod_beta split: option.split)

lemma send_work_sent:
  assumes "msgq_laws Q cap view"
  shows "sent (bt_send_work_handler Q E s) =
    sent s @ (if current_conn s \<noteq> None then take 1 (view (q s)) else [])"
  using msgq_get_item [OF assms, of "q s"]
  by (cases "view (q s)") (auto simp: bt_send_work_handler_def Let_def case_prod_beta split: option.split)

text \<open>One step: what is sent and queued grows by at most the payload written, and shrinks only by a purge.\<close>

lemma p_stream_step:
  assumes Q: "msgq_laws Q cap view" and step: "peripheral_step Q is E s e = Some s'"
  shows "subseq (sent s' @ view (q s')) (sent s @ view (q s) @ written [e])"
proof (cases e)
  case (Disconnected c)
  then show ?thesis using step by (auto simp: msgq_purge [OF Q] list_emb_prefix)
next
  case (Write d)
  then show ?thesis using step by (auto simp: msgq_put_view [OF Q] subseq_append')
next
  case Send_work
  then show ?thesis using step send_work_sent [OF Q, of E s] msgq_get_view [OF Q, of "q s"]
    by (cases "view (q s)") auto
qed (use step in \<open>auto simp: pairing_confirm_def ble_peripheral_disconnect_def\<close>)

lemma p_calls_grow:
  assumes "peripheral_step Q is E s e = Some s'"
  shows "prefix (calls s) (calls s')"
  using assms
  by (cases e) (auto simp: connected_def disconnected_def security_changed_def exchange_func_def pairing_confirm_def
      ble_peripheral_write_def bt_send_work_handler_def bt_sent_cb_def bt_receive_cb_def ble_peripheral_disconnect_def
      ble_peripheral_advertising_start_def Let_def case_prod_beta split: option.split)

lemma attached_fields [simp]:
  "evt_cb (ble_peripheral_advertising_start E s) = evt_cb s" "evt_cb (connected E c err s) = evt_cb s"
  "evt_cb (disconnected Q E c s) = evt_cb s" "evt_cb (security_changed E c err s) = evt_cb s"
  "evt_cb (exchange_func E c err s) = evt_cb s" "evt_cb (pairing_confirm c s) = evt_cb s"
  "evt_cb (ble_peripheral_write Q is d s) = evt_cb s" "evt_cb (bt_send_work_handler Q E s) = evt_cb s"
  "evt_cb (bt_sent_cb Q s) = evt_cb s" "evt_cb (bt_receive_cb d s) = evt_cb s" "evt_cb (ble_peripheral_disconnect s) = evt_cb s"
proof -
  show adv: "evt_cb (ble_peripheral_advertising_start E s) = evt_cb s" for E and s :: "'b peripheral"
    by (simp add: ble_peripheral_advertising_start_def Let_def case_prod_beta)
  show "evt_cb (disconnected Q E c s) = evt_cb s"
    by (simp add: disconnected_def Let_def adv split: option.split)
qed (simp_all add: connected_def security_changed_def exchange_func_def pairing_confirm_def ble_peripheral_write_def
    bt_send_work_handler_def bt_sent_cb_def bt_receive_cb_def ble_peripheral_disconnect_def Let_def case_prod_beta split: option.split)

lemma peripheral_step_attached: "peripheral_step Q is E s e = Some s' \<Longrightarrow> evt_cb s' = evt_cb s"
  by (cases e) auto

lemma p_sends_prefix: "prefix t u \<Longrightarrow> prefix (sends t) (sends u)"
  by (auto simp: prefix_def)

interpretation peripheral_stream: link_stream "peripheral_step Q is E" "\<lambda>_ _. True" "\<lambda>s. msgq_laws Q cap view"
    sent "\<lambda>s. view (q s)" "\<lambda>e. written [e]" for Q :: "(item, 'q) msgq" and cap view "is" E
  by standard (auto intro: p_stream_step p_sends_prefix p_calls_grow)

lemma p_written_concat: "concat (map (\<lambda>e. written [e]) es) = written es"
  by (induction es rule: written.induct) auto

text \<open>While the connection stays, nothing is dropped as long as there is room.\<close>

fun keeps :: "peripheral_event \<Rightarrow> bool" where
  "keeps (Disconnected c) = False"
| "keeps (Connected c err) = (err \<noteq> 0)"
| "keeps _ = True"

fun admitted :: "nat \<Rightarrow> nat \<Rightarrow> nat \<Rightarrow> peripheral_event \<Rightarrow> item list" where
  "admitted cap is n (Write d) = (if length d \<le> is \<and> n < cap then [d] else [])"
| "admitted cap is n _ = []"

lemma p_up_step:
  assumes Q: "msgq_laws Q cap view" and up: "current_conn s = Some c" and keeps: "keeps e"
    and step: "peripheral_step Q is E s e = Some s'"
  shows "current_conn s' = Some c \<and>
    sent s' @ view (q s') = sent s @ view (q s) @ admitted cap is (length (view (q s))) e \<and>
    length (view (q s')) \<le> length (view (q s)) + length (admitted cap is (length (view (q s))) e)"
proof (cases e)
  case (Write d)
  then show ?thesis using step up by (auto simp: msgq_put_view [OF Q])
next
  case Send_work
  then show ?thesis using step up send_work_sent [OF Q, of E s] msgq_get_view [OF Q, of "q s"]
    by (cases "view (q s)") auto
qed (use step up keeps in \<open>auto simp: pairing_confirm_def ble_peripheral_disconnect_def\<close>)

lemma p_up_exec:
  assumes Q: "msgq_laws Q cap view"
  shows "current_conn s = Some c \<Longrightarrow> list_all keeps es \<Longrightarrow> exec (peripheral_step Q is E) s es = Some s' \<Longrightarrow>
    current_conn s' = Some c \<and> (\<exists>acc. subseq acc (written es) \<and>
      sent s' @ view (q s') = sent s @ view (q s) @ acc \<and>
      (length (view (q s)) + length (written es) \<le> cap \<longrightarrow> acc = filter (\<lambda>d. length d \<le> is) (written es)))"
proof (induction es arbitrary: s)
  case (Cons e es)
  obtain s1 where s1: "peripheral_step Q is E s e = Some s1" using Cons.prems by (auto split: option.splits)
  let ?a = "admitted cap is (length (view (q s))) e"
  have step: "current_conn s1 = Some c" "sent s1 @ view (q s1) = sent s @ view (q s) @ ?a"
      "length (view (q s1)) \<le> length (view (q s)) + length ?a"
    using p_up_step [OF Q Cons.prems(1) _ s1] Cons.prems(2) by auto
  obtain acc where acc: "subseq acc (written es)" "current_conn s' = Some c"
      "sent s' @ view (q s') = sent s1 @ view (q s1) @ acc"
      "length (view (q s1)) + length (written es) \<le> cap \<Longrightarrow> acc = filter (\<lambda>d. length d \<le> is) (written es)"
    using Cons.IH [OF step(1)] Cons.prems s1 by auto
  have "?a @ acc = filter (\<lambda>d. length d \<le> is) (written (e # es))"
    if "length (view (q s)) + length (written (e # es)) \<le> cap"
    using that step(3) acc(4) by (cases e) (auto split: if_splits)
  moreover have "subseq (?a @ acc) (written (e # es))" using acc(1) by (cases e) auto
  ultimately show ?case using acc(2,3) step(2) by (intro conjI exI [of _ "?a @ acc"]) auto
qed simp

section \<open>The peripheral as a link\<close>

interpretation peripheral_link: ble_link "ble_peripheral_write Q is" ble_peripheral_is_connected
    "\<lambda>s. view (q s)" sent "is" "\<lambda>s. msgq_laws Q cap view"
  for Q :: "(item, 'q) msgq" and cap view "is"
  by standard (auto simp: ble_peripheral_is_connected_def msgq_put_view [of Q cap view])

interpretation peripheral_worker: link_worker "bt_send_work_handler Q E" "bt_sent_cb Q"
    "\<lambda>s. view (q s)" sent submits "\<lambda>s. msgq_laws Q cap view \<and> current_conn s \<noteq> None"
  for Q :: "(item, 'q) msgq" and cap view E
proof
  fix s :: "'q peripheral" assume inv: "msgq_laws Q cap view \<and> current_conn s \<noteq> None"
  then have Q: "msgq_laws Q cap view" by blast
  show "view (q (bt_send_work_handler Q E s)) = tl (view (q s)) \<and>
      sent (bt_send_work_handler Q E s) = sent s @ take 1 (view (q s)) \<and>
      submits (bt_send_work_handler Q E s) = submits s"
    using inv send_work_sent [OF Q, of E s] msgq_get_view [OF Q, of "q s"] by auto
  show "view (q (bt_sent_cb Q s)) = view (q s) \<and> sent (bt_sent_cb Q s) = sent s \<and>
      submits (bt_sent_cb Q s) = submits s + of_bool (view (q s) \<noteq> [])"
    using msgq_used [OF Q] by (auto simp: bt_sent_cb_def submits_def)
qed auto

section \<open>References to the connection\<close>

fun refs :: "nat \<Rightarrow> (peripheral_call \<times> int) list \<Rightarrow> int" where
  "refs c [] = 0"
| "refs c ((Conn_ref b, _) # t) = of_bool (b = c) + refs c t"
| "refs c ((Conn_unref b, _) # t) = refs c t - of_bool (b = c)"
| "refs c (_ # t) = refs c t"

lemma p_refs_append [trace_simps, simp]: "refs c (t @ u) = refs c t + refs c u"
  by (induction c t rule: refs.induct) auto

text \<open>A connection reported while another one is held overwrites the pointer to it.\<close>

fun overwritten :: "nat \<Rightarrow> 'q peripheral \<Rightarrow> peripheral_event \<Rightarrow> int" where
  "overwritten c s (Connected b err) = of_bool (err = 0 \<and> current_conn s = Some c)"
| "overwritten c s _ = 0"

lemma p_quiet_refs [simp]:
  "refs c (calls (ble_peripheral_advertising_start E s)) = refs c (calls s)"
  "refs c (calls (exchange_func E b err s)) = refs c (calls s)"
  "refs c (calls (security_changed E b err s)) = refs c (calls s)"
  "refs c (calls (bt_sent_cb Q s)) = refs c (calls s)"
  "refs c (calls (bt_receive_cb d s)) = refs c (calls s)"
  "refs c (calls (ble_peripheral_write Q is d s)) = refs c (calls s)"
  "refs c (calls (bt_send_work_handler Q E s)) = refs c (calls s)"
  by (simp_all add: ble_peripheral_advertising_start_def exchange_func_def security_changed_def
      bt_sent_cb_def bt_receive_cb_def ble_peripheral_write_def bt_send_work_handler_def Let_def
      case_prod_beta split: option.split)

interpretation refcount: accounting "peripheral_step Q is E"
    "\<lambda>s. refs c (calls s) - of_bool (current_conn s = Some c)" "overwritten c" for Q "is" E c
proof
  fix s e s' assume step: "peripheral_step Q is E s e = Some s'"
  show "refs c (calls s') - of_bool (current_conn s' = Some c) =
      refs c (calls s) - of_bool (current_conn s = Some c) + overwritten c s e"
  proof (cases e)
    case (Connected b err)
    then show ?thesis using step by (cases "err = 0") (auto simp: connected_def Let_def)
  next
    case (Disconnected b)
    then show ?thesis using step by (cases "current_conn s") (auto simp: disconnected_def Let_def)
  qed (use step in \<open>auto simp: pairing_confirm_def ble_peripheral_disconnect_def\<close>)
qed

section \<open>Properties\<close>

text \<open>
  Whatever happens in whatever order, the peripheral has no connection only with an
  empty queue and a link that does not count as ready.
\<close>

theorem peripheral_idle_is_clean:
  assumes "msgq_laws Q cap view" and "peripheral_inv view s"
    and "exec_ok (peripheral_step Q is E) peripheral_ok s es"
  shows "\<exists>s'. exec (peripheral_step Q is E) s es = Some s' \<and>
    (current_conn s' = None \<longrightarrow> view (q s') = [] \<and> \<not> ble_peripheral_is_connected s')"
  using peripheral.exec_inv [of Q cap view s "is" E es] assms
  by (auto simp: peripheral_inv_def ble_peripheral_is_connected_def)

text \<open>
  C36. After a disconnection nothing that was queued before it is ever sent: what is sent from then
  on or is waiting are payloads written after it, in order and each at most once.
\<close>

theorem peripheral_no_stale_payloads:
  assumes "msgq_laws Q cap view"
    and "exec (peripheral_step Q is E) s (Disconnected c # es) = Some s'"
  shows "subseq (sent s' @ view (q s')) (sent s @ written es)"
proof -
  have "exec (peripheral_step Q is E) (disconnected Q E c s) es = Some s'" using assms(2) by simp
  from peripheral_stream.exec_stream [OF assms(1) exec_ok_True this] show ?thesis
    by (simp add: msgq_purge [OF assms(1)] p_written_concat)
qed

text \<open>
  While the connection lasts, the payloads are a first-in first-out stream: what was handed
  over, followed by what is queued, only grows at the end, by written payloads in the order
  of writing, and by all those of admissible size if the queue has room for every write.
\<close>

theorem peripheral_stream_in_order:
  assumes "msgq_laws Q cap view" and "current_conn s = Some c" and "list_all keeps es"
    and "exec (peripheral_step Q is E) s es = Some s'"
  shows "current_conn s' = Some c \<and> (\<exists>acc. subseq acc (written es) \<and>
    sent s' @ view (q s') = sent s @ view (q s) @ acc \<and>
    (length (view (q s)) + length (written es) \<le> cap \<longrightarrow> acc = filter (\<lambda>d. length d \<le> is) (written es)))"
  using p_up_exec [OF assms] .

text \<open>
  With every payload confirmed, work and confirmation alternate until the queue is empty:
  everything waiting is sent in order, and every confirmation but the last submits the work.
\<close>

theorem peripheral_drains_queue:
  assumes "msgq_laws Q cap view" and "current_conn s \<noteq> None"
  shows "let s' = ((\<lambda>s. bt_sent_cb Q (bt_send_work_handler Q E s)) ^^ length (view (q s))) s in
    view (q s') = [] \<and> sent s' = sent s @ view (q s) \<and> submits s' = submits s + (length (view (q s)) - 1)"
  using peripheral_worker.drain [of Q cap view s "length (view (q s))" E] assms by (simp add: Let_def)

text \<open>
  A payload that could not be sent strands those behind it: no confirmation follows a failed
  send, and until the next write, confirmation, run of the work or disconnection the work is
  not submitted and the queue does not move, whatever else happens.
\<close>

theorem failed_send_strands_queue:
  assumes "exec (peripheral_step Q is E) (bt_send_work_handler Q E s) es = Some s'"
    and "list_all (\<lambda>e. case e of Write _ \<Rightarrow> False | Sent \<Rightarrow> False | Send_work \<Rightarrow> False
      | Disconnected _ \<Rightarrow> False | _ \<Rightarrow> True) es"
  shows "q s' = q (bt_send_work_handler Q E s) \<and> submits s' = submits s"
proof -
  have "exec (peripheral_step Q is E) t es = Some s' \<Longrightarrow> q s' = q t \<and> submits s' = submits t" for t
    using assms(2)
  proof (induction es arbitrary: t)
    case (Cons e es)
    then obtain t1 where t1: "peripheral_step Q is E t e = Some t1" by (auto split: option.splits)
    have "q t1 = q t \<and> submits t1 = submits t"
      using t1 Cons.prems(2) by (cases e) (auto simp: ble_peripheral_disconnect_def)
    then show ?case using Cons t1 by simp
  qed simp
  from this [OF assms(1)] show ?thesis by simp
qed

text \<open>
  Payloads are sent before the link is secured: \<open>ble_peripheral_write\<close> asks only for a
  connection, so a payload written between the connection and the security change goes out
  while the link still counts as not connected.
\<close>

theorem payload_sent_before_security:
  assumes "msgq_laws Q cap view" and "0 < cap" and "\<not> m_ready s" and "length d \<le> is"
  shows "\<exists>s'. exec (peripheral_step Q is E) s [Disconnected b, Connected c 0, Write d, Send_work] = Some s' \<and>
    sent s' = sent s @ [d] \<and> \<not> ble_peripheral_is_connected s'"
  using assms send_work_sent [OF assms(1)]
  by (simp add: ble_peripheral_is_connected_def msgq_put_view [OF assms(1)] msgq_purge [OF assms(1)])

text \<open>
  The references to a connection taken less those released are one for the current connection and
  none for any other, plus one for every time the connection was overwritten by a new one:
  such a reference is never released.
\<close>

theorem peripheral_references:
  assumes "exec (peripheral_step Q is E) s es = Some s'" and "calls s = []" and "current_conn s = None"
  shows "refs c (calls s') =
    of_bool (current_conn s' = Some c) + total (peripheral_step Q is E) (overwritten c) s es"
  using refcount.exec_quantity [OF assms(1), of c] assms(2,3) by simp

text \<open>
  A burst of writes leaves the state of the link alone and sends nothing by itself; the queue
  grows by some of the payloads, in order, none longer than an item.
\<close>

theorem peripheral_burst:
  assumes "msgq_laws Q cap view"
  shows "ble_peripheral_is_connected (fold (ble_peripheral_write Q is) ds s) = ble_peripheral_is_connected s \<and>
    sent (fold (ble_peripheral_write Q is) ds s) = sent s \<and>
    (\<exists>es. view (q (fold (ble_peripheral_write Q is) ds s)) = view (q s) @ es \<and>
       subseq es ds \<and> list_all (\<lambda>e. length e \<le> is) es)"
  using peripheral_link.writes_is_up [OF assms, where ds = ds and s = s]
    peripheral_link.writes_sent [OF assms, where ds = ds and s = s]
    peripheral_link.writes_backlog [OF assms, where ds = ds and s = s] by blast

section \<open>The properties at work\<close>

definition peripheral_example :: "item list peripheral" where
  "peripheral_example = \<lparr>calls = [], current_conn = None, m_ready = False, adv = False, evt_cb = True,
     nus_max_send_len = 0, q = []\<rparr>"

definition peripheral_up :: "item list peripheral" where
  "peripheral_up = peripheral_example\<lparr>current_conn := Some 3, m_ready := True, q := [[5], [6]]\<rparr>"

lemmas peripheral_examples = peripheral_example_def peripheral_up_def

theorem peripheral_idle_is_clean_witness:
  "\<exists>s'. exec (peripheral_step (fifo 20) 4 (\<lambda>t c. 0)) peripheral_example
       [Connected 3 0, Security_changed 3 0, Write [1], Disconnected 3] = Some s' \<and>
     (current_conn s' = None \<longrightarrow> take 20 (q s') = [] \<and> \<not> ble_peripheral_is_connected s')"
  by (rule peripheral_idle_is_clean [OF fifo_laws]) (simp_all add: peripheral_inv_def peripheral_example_def)

theorem peripheral_no_stale_payloads_witness:
  "\<exists>s'. exec (peripheral_step (fifo 20) 4 (\<lambda>t c. 0)) peripheral_up
       [Disconnected 3, Connected 4 0, Write [1], Send_work] = Some s' \<and>
     subseq (sent s' @ take 20 (q s')) [[1]]"
proof -
  obtain s' where s': "exec (peripheral_step (fifo 20) 4 (\<lambda>t c. 0)) peripheral_up
      [Disconnected 3, Connected 4 0, Write [1], Send_work] = Some s'" by simp
  have "sent peripheral_up = []" by (simp add: peripheral_examples)
  with peripheral_no_stale_payloads [OF fifo_laws s'] s' show ?thesis by auto
qed

theorem peripheral_stream_in_order_witness:
  "\<exists>s'. exec (peripheral_step (fifo 20) 4 (\<lambda>t c. 0)) peripheral_up [Write [1], Send_work, Write [2]] = Some s' \<and>
     sent s' @ take 20 (q s') = [[5], [6], [1], [2]]"
proof -
  obtain s' where s': "exec (peripheral_step (fifo 20) 4 (\<lambda>t c. 0)) peripheral_up
      [Write [1], Send_work, Write [2]] = Some s'" by simp
  have "current_conn peripheral_up = Some 3" "sent peripheral_up = []" "take 20 (q peripheral_up) = [[5], [6]]"
    by (simp_all add: peripheral_examples)
  with peripheral_stream_in_order [OF fifo_laws _ _ s', of 3] s' show ?thesis by auto
qed

theorem peripheral_drains_queue_witness:
  "let s' = ((\<lambda>s. bt_sent_cb (fifo 20) (bt_send_work_handler (fifo 20) (\<lambda>t c. 0) s)) ^^ 2) peripheral_up in
    take 20 (q s') = [] \<and> sent s' = [[5], [6]] \<and> submits s' = 1"
proof -
  have s: "current_conn peripheral_up \<noteq> None" "sent peripheral_up = []" "submits peripheral_up = 0"
    "take 20 (q peripheral_up) = [[5], [6]]" "length [[5 :: byte], [6]] = 2"
    by (simp_all add: peripheral_examples submits_def)
  from peripheral_drains_queue [OF fifo_laws [of 20] s(1), of "\<lambda>t c. 0"] show ?thesis
    unfolding s(2-) by (simp add: Let_def)
qed

theorem failed_send_strands_queue_witness:
  "\<exists>s'. exec (peripheral_step (fifo 20) 4 (\<lambda>t c. - EINVAL)) (bt_send_work_handler (fifo 20) (\<lambda>t c. - EINVAL) peripheral_up)
       [Received [7], Mtu_exchanged 3 0] = Some s' \<and> q s' = [[6]] \<and> submits s' = 0"
proof -
  let ?E = "\<lambda>t c. - EINVAL"
  obtain s' where s': "exec (peripheral_step (fifo 20) 4 ?E) (bt_send_work_handler (fifo 20) ?E peripheral_up)
      [Received [7], Mtu_exchanged 3 0] = Some s'" by simp
  have "q (bt_send_work_handler (fifo 20) ?E peripheral_up) = [[6]]" "submits peripheral_up = 0"
    by (simp_all add: peripheral_examples submits_def fifo_def)
  with failed_send_strands_queue [OF s'] s' show ?thesis by auto
qed

theorem payload_sent_before_security_witness:
  "\<exists>s'. exec (peripheral_step (fifo 20) 4 (\<lambda>t c. 0)) peripheral_example
      [Disconnected 3, Connected 3 0, Write [9], Send_work] = Some s' \<and>
    sent s' = [[9]] \<and> \<not> ble_peripheral_is_connected s'"
  using payload_sent_before_security [OF fifo_laws [of 20], of peripheral_example "[9]" 4 "\<lambda>t c. 0" 3 3]
  by (simp add: peripheral_example_def)

theorem peripheral_references_witness:
  "\<exists>s'. exec (peripheral_step (fifo 20) 4 (\<lambda>t c. 0)) peripheral_example [Connected 3 0, Connected 4 0, Disconnected 4] = Some s' \<and>
     refs 3 (calls s') = 1"
proof -
  let ?es = "[Connected 3 0, Connected 4 0, Disconnected 4]"
  obtain s' where s': "exec (peripheral_step (fifo 20) 4 (\<lambda>t c. 0)) peripheral_example ?es = Some s'" by simp
  moreover have "total (peripheral_step (fifo 20) 4 (\<lambda>t c. 0)) (overwritten 3) peripheral_example ?es = 1"
    by (simp add: peripheral_example_def)
  moreover have "current_conn s' = None" using s' by auto
  ultimately show ?thesis
    using peripheral_references [OF s', of 3] by (simp add: peripheral_example_def)
qed

theorem peripheral_burst_witness:
  "\<exists>es. take 20 (q (fold (ble_peripheral_write (fifo 20) 4) [[1], [2]] peripheral_up)) = [[5], [6]] @ es \<and>
     subseq es [[1], [2]]"
proof -
  have "take 20 (q peripheral_up) = [[5], [6]]" by (simp add: peripheral_examples)
  then show ?thesis using peripheral_burst [OF fifo_laws [of 20], of 4 "[[1], [2]]" peripheral_up] by auto
qed

end
