(* ===== verification/Ble_Manager.thy ===== *)
theory Ble_Manager
  imports Ble_Common
begin

text \<open>
  The Bluetooth manager \<open>lib/ble/ble_m.c\<close>: subscriptions by event name, publishing, and the
  work that hands received events to the subscribers. The link below it (central or
  peripheral, chosen when the program is built) is an argument, as are the encoder and decoder
  of events (nanopb) and the sizes \<open>NS\<close> and \<open>DS\<close> of the arrays \<open>name.bytes\<close> and \<open>data.bytes\<close>,
  which come from the codec package.
\<close>

section \<open>State\<close>

text \<open>A byte array of nanopb: its length field and the array it is in.\<close>

record pb_bytes =
  pb_size :: nat
  pb_bytes :: "byte list"

record ble_event =
  name :: pb_bytes
  data :: pb_bytes

text \<open>
  Calls into the application (its handlers, by number), the kernel, the Bluetooth stack, the
  pins (\<open>led2\<close> and the reset pin of the radio) and the link below.
\<close>

datatype ble_call =
  Raw_handler nat ble_event
| Evt_handler nat "byte list" "byte list"
| K_work_submit
| Gpio_pin_toggle | Gpio_pin_set int | K_timer_start nat
| Led_get_binding | Led_configure
| Port_get_binding | Port_configure_inactive | Port_configure_disconnected | K_msleep nat
| Bt_enable | Settings_load
| Link_attach_handler | Link_init | Link_ready

record subscriber =
  evt_handler :: nat
  sub_name :: pb_bytes

text \<open>
  \<open>subscribers\<close> are the first \<open>count\<close> entries of the array of that name; \<open>raw_handler_ext\<close> is
  \<open>None\<close> for NULL; \<open>led\<close> says whether the device pointer of that name is not NULL.
\<close>

record 'q ble = "ble_call world" +
  subscribers :: "subscriber list"
  raw_handler_ext :: "nat option"
  event_queue :: 'q
  led :: bool
  init_complete :: bool

section \<open>Subscriptions\<close>

fun search_loop :: "int \<Rightarrow> subscriber list \<Rightarrow> pb_bytes \<Rightarrow> int" where
  "search_loop index [] event_name = - 1"
| "search_loop index (s # ss) event_name =
     (if pb_size (sub_name s) = pb_size event_name \<and>
         memcmp (pb_bytes (sub_name s)) (pb_bytes event_name) (pb_size (sub_name s)) = 0
      then index else search_loop (index + 1) ss event_name)"

definition subscriber_search :: "pb_bytes \<Rightarrow> 'q ble \<Rightarrow> int" where
  "subscriber_search event_name s = search_loop 0 (subscribers s) event_name"

text \<open>
  The length of a C string with its NUL, kept in a \<open>uint8_t\<close>, and the bytes that \<open>memcpy\<close> then
  takes from it into a zeroed array of \<open>n\<close> bytes.
\<close>

definition c_length :: "byte list \<Rightarrow> nat" where
  "c_length str = (length str + 1) mod 256"

definition c_bytes :: "byte list \<Rightarrow> byte list" where
  "c_bytes str = take (c_length str) (str @ [0])"

definition pb_of_string :: "nat \<Rightarrow> byte list \<Rightarrow> pb_bytes" where
  "pb_of_string n str =
     \<lparr>pb_size = c_length str, pb_bytes = c_bytes str @ replicate (n - c_length str) 0\<rparr>"

definition ble_subscribe :: "nat \<Rightarrow> byte list \<Rightarrow> nat \<Rightarrow> 'q ble \<Rightarrow> 'q ble" where
  "ble_subscribe NS nm handler s =
     (if NS < c_length nm then s
      else if BLE_SETTINGS_MAX_SUBSCRIPTIONS \<le> length (subscribers s) then s
      else
        let new = \<lparr>evt_handler = handler, sub_name = pb_of_string NS nm\<rparr>;
            index = subscriber_search (sub_name new) s
        in if index \<noteq> - 1
           then s\<lparr>subscribers := (subscribers s)[nat index := new]\<rparr>
           else s\<lparr>subscribers := subscribers s @ [new]\<rparr>)"

definition ble_subscribe_raw :: "nat option \<Rightarrow> 'q ble \<Rightarrow> 'q ble" where
  "ble_subscribe_raw handler s = s\<lparr>raw_handler_ext := handler\<rparr>"

section \<open>Publishing\<close>

definition ble_publish_raw ::
    "(ble_event \<Rightarrow> item option) \<Rightarrow> (item \<Rightarrow> 'l \<Rightarrow> 'l) \<Rightarrow> ble_event \<Rightarrow> 'l \<Rightarrow> 'l" where
  "ble_publish_raw pb_encode link_write event l =
     (case pb_encode event of None \<Rightarrow> l | Some out \<Rightarrow> link_write out l)"

definition ble_publish ::
    "nat \<Rightarrow> nat \<Rightarrow> (ble_event \<Rightarrow> item option) \<Rightarrow> (item \<Rightarrow> 'l \<Rightarrow> 'l) \<Rightarrow> byte list \<Rightarrow> byte list \<Rightarrow> 'l \<Rightarrow> 'l"
  where
  "ble_publish NS DS pb_encode link_write nm dat l =
     (if NS \<le> c_length nm then l
      else if DS \<le> c_length dat then l
      else ble_publish_raw pb_encode link_write
             \<lparr>name = pb_of_string NS nm, data = pb_of_string DS dat\<rparr> l)"

section \<open>Receiving\<close>

definition ble_evt_handler ::
    "(ble_event, 'q) msgq \<Rightarrow> (byte list \<Rightarrow> ble_event option) \<Rightarrow> byte list \<Rightarrow> 'q ble \<Rightarrow> 'q ble" where
  "ble_evt_handler Q pb_decode dat s =
     (if dat \<noteq> [] then
        case pb_decode dat of
          None \<Rightarrow> s
        | Some e \<Rightarrow>
            let (err, q) = k_msgq_put Q e (event_queue s)
            in emit K_work_submit (s\<lparr>event_queue := q\<rparr>)
      else s)"

text \<open>What the work does with one event: the raw handler first, then the subscriber.\<close>

definition dispatch :: "ble_event \<Rightarrow> 'q ble \<Rightarrow> 'q ble" where
  "dispatch e s =
     (let s = (case raw_handler_ext s of None \<Rightarrow> s | Some h \<Rightarrow> emit (Raw_handler h e) s);
          index = subscriber_search (name e) s
      in if index \<noteq> - 1
         then emit (Evt_handler (evt_handler (subscribers s ! nat index))
                (pb_bytes (name e)) (pb_bytes (data e))) s
         else s)"

text \<open>The loop of \<open>bt_send_work_handler\<close>; \<open>None\<close> if it does not end.\<close>

partial_function (option) bt_send_work_handler ::
    "(ble_event, 'q) msgq \<Rightarrow> 'q ble \<Rightarrow> 'q ble option" where
  "bt_send_work_handler Q s =
     (if k_msgq_num_used_get Q (event_queue s) \<noteq> 0 then
        bt_send_work_handler Q
          (case k_msgq_get Q (event_queue s) of
             (None, q) \<Rightarrow> s\<lparr>event_queue := q\<rparr>
           | (Some e, q) \<Rightarrow> dispatch e (s\<lparr>event_queue := q\<rparr>))
      else Some s)"

text \<open>
  The timer of the connection LED: it blinks once a second until there is a connection.
  \<open>None\<close> is the use of a device that was not found, a NULL pointer.
\<close>

definition led_flash_handler :: "bool \<Rightarrow> 'q ble \<Rightarrow> 'q ble option" where
  "led_flash_handler is_connected s =
     (if \<not> led s then None
      else if \<not> is_connected then Some (emit (K_timer_start 1) (emit Gpio_pin_toggle s))
      else Some (emit (Gpio_pin_set 1) s))"

section \<open>Initialisation\<close>

text \<open>
  \<open>led2\<close> is whether the board has that LED, \<open>ncp\<close> whether the radio has a reset pin,
  \<open>settings\<close> the option \<open>CONFIG_SETTINGS\<close>. A device is found when its binding is not 0.
\<close>

definition initialize_led :: "bool \<Rightarrow> ble_call env \<Rightarrow> 'q ble \<Rightarrow> bool \<times> 'q ble" where
  "initialize_led led2 E s =
     (if \<not> led2 then (False, s)
      else
        let (d, s) = ext E Led_get_binding s in
        if d = 0 then (False, s)
        else
          let (ret, s) = ext E Led_configure s in
          if ret \<noteq> 0 then (False, s) else (True, s))"

definition ble_ready :: "bool \<Rightarrow> ble_call env \<Rightarrow> int \<Rightarrow> 'q ble \<Rightarrow> 'q ble" where
  "ble_ready settings E err s =
     (if err \<noteq> 0 then s
      else
        let (ret, s) = (if settings then ext E Settings_load s else (0, s)) in
        if ret \<noteq> 0 then s
        else emit Link_ready (s\<lparr>init_complete := True\<rparr>))"

text \<open>\<open>None\<close> is a failed assertion; \<open>p_init\<close> is whether the argument is not NULL.\<close>

definition ble_stack_init :: "bool \<Rightarrow> bool \<Rightarrow> ble_call env \<Rightarrow> bool \<Rightarrow> 'q ble \<Rightarrow> 'q ble option" where
  "ble_stack_init led2 ncp E p_init s =
     (if \<not> p_init then None
      else
        let (l, s) = initialize_led led2 E s;
            s = s\<lparr>led := l\<rparr>;
            s = (if led2 then emit (K_timer_start 1) s else s);
            (port, s) = (if ncp then ext E Port_get_binding s else (1, s))
        in if port = 0 then None
        else
          let (err, s) = (if ncp then ext E Port_configure_inactive s else (0, s)) in
          if err \<noteq> 0 then None
          else
            let (err, s) = ext E Bt_enable s in
            if err \<noteq> 0 then None
            else
              let s = (if ncp then emit (K_msleep 1000) s else s);
                  (err, s) = (if ncp then ext E Port_configure_disconnected s else (0, s))
              in if err \<noteq> 0 then None
                 else Some (emit Link_init (emit Link_attach_handler s)))"

section \<open>The table of subscriptions\<close>

text \<open>
  A name counts by the bytes that its length covers. The table that the list of subscribers
  stands for, and what keeps it well-formed: no two entries for one name, every length within
  its array.
\<close>

definition key :: "pb_bytes \<Rightarrow> byte list" where
  "key b = take (pb_size b) (pb_bytes b)"

definition pb_wf :: "pb_bytes \<Rightarrow> bool" where
  "pb_wf b \<longleftrightarrow> pb_size b \<le> length (pb_bytes b)"

definition table :: "'q ble \<Rightarrow> byte list \<rightharpoonup> nat" where
  "table s = map_of (map (\<lambda>x. (key (sub_name x), evt_handler x)) (subscribers s))"

definition subs_inv :: "'q ble \<Rightarrow> bool" where
  "subs_inv s \<longleftrightarrow> list_all (\<lambda>x. pb_wf (sub_name x)) (subscribers s) \<and>
     distinct (map (\<lambda>x. key (sub_name x)) (subscribers s)) \<and>
     length (subscribers s) \<le> BLE_SETTINGS_MAX_SUBSCRIPTIONS"

text \<open>Sizes equal and \<open>memcmp\<close> zero is equality of the keys.\<close>

lemma name_match_iff:
  assumes "pb_wf a" and "pb_wf b"
  shows "pb_size a = pb_size b \<and> memcmp (pb_bytes a) (pb_bytes b) (pb_size a) = 0 \<longleftrightarrow> key a = key b"
proof
  assume "key a = key b"
  then have "length (key a) = length (key b)" by simp
  then have "pb_size a = pb_size b" using assms by (simp add: key_def pb_wf_def)
  then show "pb_size a = pb_size b \<and> memcmp (pb_bytes a) (pb_bytes b) (pb_size a) = 0"
    using \<open>key a = key b\<close> assms by (simp add: key_def pb_wf_def memcmp_eq_0_iff)
qed (use assms in \<open>auto simp: key_def pb_wf_def memcmp_eq_0_iff\<close>)

text \<open>The search finds the one entry with the key, or there is none.\<close>

lemma search_loop_spec:
  assumes "list_all (\<lambda>x. pb_wf (sub_name x)) ss" and "pb_wf nm" and "0 \<le> i"
  shows "(search_loop i ss nm = - 1 \<and> key nm \<notin> (\<lambda>x. key (sub_name x)) ` set ss) \<or>
    (\<exists>n < length ss. search_loop i ss nm = i + int n \<and> key (sub_name (ss ! n)) = key nm \<and>
       map_of (map (\<lambda>x. (key (sub_name x), evt_handler x)) ss) (key nm) = Some (evt_handler (ss ! n)))"
  using assms
proof (induction ss arbitrary: i)
  case (Cons x xs)
  have wf: "pb_wf (sub_name x)" using Cons.prems by simp
  show ?case
  proof (cases "key (sub_name x) = key nm")
    case True
    then have "pb_size (sub_name x) = pb_size nm \<and>
        memcmp (pb_bytes (sub_name x)) (pb_bytes nm) (pb_size (sub_name x)) = 0"
      using name_match_iff [OF wf Cons.prems(2)] by blast
    then have "search_loop i (x # xs) nm = i" unfolding search_loop.simps(2) by (rule if_P)
    then show ?thesis using True by (intro disjI2 exI [of _ 0]) simp
  next
    case False
    have "\<not> (pb_size (sub_name x) = pb_size nm \<and>
        memcmp (pb_bytes (sub_name x)) (pb_bytes nm) (pb_size (sub_name x)) = 0)"
      using name_match_iff [OF wf Cons.prems(2)] False by blast
    then have step: "search_loop i (x # xs) nm = search_loop (i + 1) xs nm" by auto
    from Cons.IH [of "i + 1"] Cons.prems consider
        "search_loop (i + 1) xs nm = - 1" "key nm \<notin> (\<lambda>x. key (sub_name x)) ` set xs"
      | n where "n < length xs" "search_loop (i + 1) xs nm = i + 1 + int n"
          "key (sub_name (xs ! n)) = key nm"
          "map_of (map (\<lambda>x. (key (sub_name x), evt_handler x)) xs) (key nm) = Some (evt_handler (xs ! n))"
      by auto
    then show ?thesis
    proof cases
      case 1
      then show ?thesis using False step by auto
    next
      case (2 n)
      then show ?thesis using False step by (intro disjI2 exI [of _ "Suc n"]) simp
    qed
  qed
qed simp

lemma map_of_list_update:
  assumes "distinct (map fst kvs)" and "n < length kvs" and "fst (kvs ! n) = k"
  shows "map_of (kvs[n := (k, v)]) = (map_of kvs)(k \<mapsto> v)"
  using assms
proof (induction kvs arbitrary: n)
  case (Cons x xs)
  show ?case
  proof (cases n)
    case (Suc m)
    then have "k \<in> fst ` set xs" using Cons.prems by (auto intro!: rev_image_eqI)
    moreover have "fst x \<notin> fst ` set xs" using Cons.prems(1) by simp
    ultimately have "fst x \<noteq> k" by metis
    then show ?thesis using Cons Suc by (cases x) auto
  qed (use Cons.prems in \<open>cases x; auto simp: fun_eq_iff\<close>)
qed simp

lemma subscriber_search_spec:
  assumes "subs_inv s" and "pb_wf nm"
  shows "(subscriber_search nm s = - 1 \<and> table s (key nm) = None) \<or>
    (\<exists>n < length (subscribers s). subscriber_search nm s = int n \<and>
       key (sub_name (subscribers s ! n)) = key nm \<and>
       table s (key nm) = Some (evt_handler (subscribers s ! n)))"
proof -
  have "list_all (\<lambda>x. pb_wf (sub_name x)) (subscribers s)" using assms(1) by (simp add: subs_inv_def)
  from search_loop_spec [OF this assms(2), of 0] show ?thesis
    by (auto simp: subscriber_search_def table_def map_of_eq_None_iff image_image)
qed

lemma c_length_le: "c_length str \<le> length str + 1"
  by (simp add: c_length_def)

lemma length_c_bytes [simp]: "length (c_bytes str) = c_length str"
  using c_length_le [of str] by (simp add: c_bytes_def)

lemma pb_of_string_wf: "pb_wf (pb_of_string n str)"
  by (simp add: pb_wf_def pb_of_string_def)

lemma key_pb_of_string [simp]: "key (pb_of_string n str) = c_bytes str"
  by (simp add: key_def pb_of_string_def)

lemma c_length_short: "length str < 255 \<Longrightarrow> c_length str = length str + 1"
  by (simp add: c_length_def)

lemma c_bytes_short: "length str < 255 \<Longrightarrow> c_bytes str = str @ [0]"
  by (simp add: c_bytes_def c_length_short)

text \<open>One call of \<open>ble_subscribe\<close> keeps the table well-formed and enters the name, if there is room.\<close>

lemma ble_subscribe_step:
  assumes inv: "subs_inv s" and fits: "c_length nm \<le> NS"
    and room: "length (subscribers s) < BLE_SETTINGS_MAX_SUBSCRIPTIONS"
  shows "subs_inv (ble_subscribe NS nm h s) \<and>
    table (ble_subscribe NS nm h s) = (table s)(c_bytes nm \<mapsto> h)"
proof -
  let ?new = "\<lparr>evt_handler = h, sub_name = pb_of_string NS nm\<rparr>"
  let ?kv = "\<lambda>x. (key (sub_name x), evt_handler x)"
  have wf: "pb_wf (pb_of_string NS nm)" by (rule pb_of_string_wf)
  have d: "distinct (map fst (map ?kv (subscribers s)))"
    using inv by (simp add: subs_inv_def comp_def)
  from subscriber_search_spec [OF inv wf, unfolded key_pb_of_string] show ?thesis
  proof (elim disjE exE conjE)
    assume none: "subscriber_search (pb_of_string NS nm) s = - 1" "table s (c_bytes nm) = None"
    then have eq: "ble_subscribe NS nm h s = s\<lparr>subscribers := subscribers s @ [?new]\<rparr>"
      using fits room by (simp add: ble_subscribe_def)
    have "c_bytes nm \<notin> (\<lambda>x. key (sub_name x)) ` set (subscribers s)"
      using none(2) by (auto simp: table_def map_of_eq_None_iff image_image)
    then show ?thesis
      using inv wf room none(2) unfolding eq
      by (auto simp: subs_inv_def table_def map_add_def fun_eq_iff split: option.splits)
  next
    fix n assume n: "n < length (subscribers s)" "subscriber_search (pb_of_string NS nm) s = int n"
      "key (sub_name (subscribers s ! n)) = c_bytes nm"
    then have eq: "ble_subscribe NS nm h s = s\<lparr>subscribers := (subscribers s)[n := ?new]\<rparr>"
      using fits room by (simp add: ble_subscribe_def Let_def)
    have "table (ble_subscribe NS nm h s) = (table s)(c_bytes nm \<mapsto> h)"
      using map_of_list_update [OF d, of n "c_bytes nm" h] n unfolding eq
      by (simp add: table_def map_update)
    moreover have "map (\<lambda>x. key (sub_name x)) ((subscribers s)[n := ?new]) =
        map (\<lambda>x. key (sub_name x)) (subscribers s)"
      using n by (simp add: map_update list_update_same_conv)
    ultimately show ?thesis
      using inv wf unfolding eq
      by (auto simp: subs_inv_def list_all_iff dest!: subsetD [OF set_update_subset_insert])
  qed
qed

lemma ble_subscribe_refused:
  "NS < c_length nm \<or> BLE_SETTINGS_MAX_SUBSCRIPTIONS \<le> length (subscribers s) \<Longrightarrow>
   ble_subscribe NS nm h s = s"
  by (auto simp: ble_subscribe_def)

lemma ble_subscribe_count:
  "length (subscribers (ble_subscribe NS nm h s)) \<le> length (subscribers s) + 1"
  by (simp add: ble_subscribe_def Let_def)

text \<open>The number of entries is the size of the table.\<close>

lemma subs_inv_card: "subs_inv s \<Longrightarrow> card (dom (table s)) = length (subscribers s)"
  by (simp add: subs_inv_def table_def dom_map_of_conv_image_fst image_image)
    (metis (no_types, lifting) distinct_card length_map set_map)

section \<open>The contract of the subscription table\<close>

text \<open>
  What an application relies on: a table of at most \<open>cap\<close> names, in which a subscription
  enters or replaces its handler, unless the name does not fit or the table is full.
\<close>

locale subscription_table =
  fixes subscribe :: "'n \<Rightarrow> 'h \<Rightarrow> 's \<Rightarrow> 's" and tab :: "'s \<Rightarrow> 'k \<rightharpoonup> 'h"
    and key_of :: "'n \<Rightarrow> 'k" and fits :: "'n \<Rightarrow> bool" and cap :: nat and inv :: "'s \<Rightarrow> bool"
  assumes subscribe_inv: "inv s \<Longrightarrow> inv (subscribe n h s)"
    and subscribe_tab: "inv s \<Longrightarrow> tab (subscribe n h s) =
          (if fits n \<and> card (dom (tab s)) < cap then (tab s)(key_of n \<mapsto> h) else tab s)"
    and tab_finite: "inv s \<Longrightarrow> finite (dom (tab s))"
begin

definition update :: "'n \<times> 'h \<Rightarrow> ('k \<rightharpoonup> 'h) \<Rightarrow> ('k \<rightharpoonup> 'h)" where
  "update p t = (if fits (fst p) \<and> card (dom t) < cap then t(key_of (fst p) \<mapsto> snd p) else t)"

lemma subscribes_inv: "inv s \<Longrightarrow> inv (fold (\<lambda>(n, h). subscribe n h) ps s)"
  by (induction ps arbitrary: s) (auto simp: subscribe_inv)

lemma subscribes_tab: "inv s \<Longrightarrow> tab (fold (\<lambda>(n, h). subscribe n h) ps s) = fold update ps (tab s)"
  by (induction ps arbitrary: s) (auto simp: subscribe_inv subscribe_tab update_def)

lemma subscribes_keep: "inv s \<Longrightarrow> dom (tab s) \<subseteq> dom (tab (fold (\<lambda>(n, h). subscribe n h) ps s))"
proof (induction ps arbitrary: s)
  case (Cons p ps)
  have "dom (tab s) \<subseteq> dom (tab (subscribe (fst p) (snd p) s))"
    using Cons.prems by (auto simp: subscribe_tab)
  then show ?case
    using Cons.IH [OF subscribe_inv [OF Cons.prems], of "fst p" "snd p"]
    by (auto simp: case_prod_beta)
qed simp

text \<open>With room for all of them every name finds the handler that was given last.\<close>

lemma subscribes_room:
  "inv s \<Longrightarrow> list_all (\<lambda>p. fits (fst p)) ps \<Longrightarrow> card (dom (tab s)) + length ps \<le> cap \<Longrightarrow>
   tab (fold (\<lambda>(n, h). subscribe n h) ps s) = tab s ++ map_of (rev (map (\<lambda>p. (key_of (fst p), snd p)) ps))"
proof (induction ps arbitrary: s)
  case (Cons p ps)
  obtain n h where p: "p = (n, h)" by force
  have t: "tab (subscribe n h s) = (tab s)(key_of n \<mapsto> h)"
    using Cons.prems p by (simp add: subscribe_tab)
  have c: "card (dom (tab (subscribe n h s))) + length ps \<le> cap"
    using tab_finite [OF Cons.prems(1)] Cons.prems(3) by (simp add: t card_insert_if)
  have "tab (fold (\<lambda>(n, h). subscribe n h) ps (subscribe n h s)) =
      tab (subscribe n h s) ++ map_of (rev (map (\<lambda>p. (key_of (fst p), snd p)) ps))"
    by (rule Cons.IH [OF subscribe_inv [OF Cons.prems(1)] _ c]) (use Cons.prems in simp)
  then show ?case using p by (simp add: t)
qed simp

end

interpretation subs: subscription_table "ble_subscribe NS" table c_bytes "\<lambda>nm. c_length nm \<le> NS"
    BLE_SETTINGS_MAX_SUBSCRIPTIONS subs_inv for NS
proof
  fix s :: "'a ble" and n h assume inv: "subs_inv s"
  show "subs_inv (ble_subscribe NS n h s)"
    using inv ble_subscribe_step [OF inv, of n NS h] ble_subscribe_refused [of NS n s h]
    by (cases "c_length n \<le> NS \<and> length (subscribers s) < BLE_SETTINGS_MAX_SUBSCRIPTIONS") auto
  show "table (ble_subscribe NS n h s) =
      (if c_length n \<le> NS \<and> card (dom (table s)) < BLE_SETTINGS_MAX_SUBSCRIPTIONS
       then (table s)(c_bytes n \<mapsto> h) else table s)"
    using inv ble_subscribe_step [OF inv, of n NS h] ble_subscribe_refused [of NS n s h]
    by (cases "c_length n \<le> NS \<and> length (subscribers s) < BLE_SETTINGS_MAX_SUBSCRIPTIONS")
      (auto simp: subs_inv_card)
  show "finite (dom (table s))" by (simp add: table_def finite_dom_map_of)
qed

section \<open>Delivery of received events\<close>

text \<open>The calls that one event leads to, read off the table.\<close>

definition handler_calls :: "'q ble \<Rightarrow> ble_event \<Rightarrow> (ble_call \<times> int) list" where
  "handler_calls s e =
     (case raw_handler_ext s of None \<Rightarrow> [] | Some h \<Rightarrow> [(Raw_handler h e, 0)]) @
     (case table s (key (name e)) of None \<Rightarrow> []
      | Some h \<Rightarrow> [(Evt_handler h (pb_bytes (name e)) (pb_bytes (data e)), 0)])"

lemma table_calls [simp]: "table (s\<lparr>calls := c\<rparr>) = table s"
  and table_queue [simp]: "table (s\<lparr>event_queue := q\<rparr>) = table s"
  by (simp_all add: table_def)

lemma subs_inv_calls [simp]: "subs_inv (s\<lparr>calls := c\<rparr>) = subs_inv s"
  and subs_inv_queue [simp]: "subs_inv (s\<lparr>event_queue := q\<rparr>) = subs_inv s"
  by (simp_all add: subs_inv_def)

lemma handler_calls_frame [simp]:
  "handler_calls (s\<lparr>event_queue := q, calls := c\<rparr>) = handler_calls s"
  by (simp add: handler_calls_def fun_eq_iff)

lemma dispatch_calls:
  assumes "subs_inv s" and "pb_wf (name e)"
  shows "dispatch e s = s\<lparr>calls := calls s @ handler_calls s e\<rparr>"
proof -
  let ?s = "case raw_handler_ext s of None \<Rightarrow> s | Some h \<Rightarrow> emit (Raw_handler h e) s"
  have eq: "subscribers ?s = subscribers s" "subscriber_search (name e) ?s = subscriber_search (name e) s"
    by (simp_all add: emit_def subscriber_search_def split: option.split)
  from subscriber_search_spec [OF assms] show ?thesis
    by (elim disjE exE conjE)
      (simp_all add: dispatch_def eq Let_def handler_calls_def, simp_all add: emit_def split: option.split)
qed

lemma work_handler_drains:
  "msgq_laws Q cap view \<Longrightarrow> subs_inv s \<Longrightarrow> list_all (\<lambda>e. pb_wf (name e)) (view (event_queue s)) \<Longrightarrow>
   \<exists>q. bt_send_work_handler Q s = Some (s\<lparr>event_queue := q,
       calls := calls s @ concat (map (handler_calls s) (view (event_queue s)))\<rparr>) \<and> view q = []"
proof (induction "view (event_queue s)" arbitrary: s)
  case Nil
  then have "bt_send_work_handler Q s = Some s"
    by (subst bt_send_work_handler.simps) simp
  then show ?case using Nil.hyps by (intro exI [of _ "event_queue s"]) simp
next
  case (Cons e es)
  obtain q where get: "k_msgq_get Q (event_queue s) = (Some e, q)" "view q = es"
    using msgq_get_item [OF Cons.prems(1), of "event_queue s"]
      msgq_get_view [OF Cons.prems(1), of "event_queue s"] Cons.hyps(2)
    by (cases "k_msgq_get Q (event_queue s)") (auto split: list.splits)
  have wf: "pb_wf (name e)" using Cons.prems(3) Cons.hyps(2) [symmetric] by simp
  let ?s = "s\<lparr>event_queue := q, calls := calls s @ handler_calls s e\<rparr>"
  have "dispatch e (s\<lparr>event_queue := q\<rparr>) = ?s"
    using Cons.prems(2) dispatch_calls [OF _ wf, of "s\<lparr>event_queue := q\<rparr>"]
    by (simp add: handler_calls_def)
  then have step: "bt_send_work_handler Q s = bt_send_work_handler Q ?s"
    using get Cons.hyps(2) [symmetric] Cons.prems(1) by (subst bt_send_work_handler.simps) simp
  have "\<exists>q'. bt_send_work_handler Q ?s = Some (?s\<lparr>event_queue := q',
       calls := calls ?s @ concat (map (handler_calls ?s) (view (event_queue ?s)))\<rparr>) \<and> view q' = []"
    using get Cons.prems Cons.hyps(2) [symmetric] by (intro Cons.hyps(1)) simp_all
  then show ?case using step get Cons.hyps(2) [symmetric] by simp
qed


text \<open>
  A full table accepts nothing any more, not even a new handler for a name that is in
  it: whatever is subscribed, the twelve entries stay as they are.
\<close>

theorem full_table_is_frozen:
  assumes "length (subscribers s) = BLE_SETTINGS_MAX_SUBSCRIPTIONS"
  shows "fold (\<lambda>(nm, h). ble_subscribe NS nm h) ps s = s"
  using assms
proof (induction ps)
  case (Cons p ps)
  then show ?case by (cases p) (simp add: ble_subscribe_refused)
qed simp

text \<open>
  The work that delivers received events ends, empties the queue and calls the handlers
  for the events in the order in which they were received: for each the raw handler first,
  if there is one, then the handler subscribed to its name, if there is one, and nothing else.
\<close>

theorem received_events_delivered:
  assumes "msgq_laws Q cap view" and "subs_inv s"
    and "list_all (\<lambda>e. pb_wf (name e)) (view (event_queue s))"
  shows "\<exists>s'. bt_send_work_handler Q s = Some s' \<and> view (event_queue s') = [] \<and>
    calls s' = calls s @ concat (map (handler_calls s) (view (event_queue s))) \<and>
    table s' = table s \<and> subs_inv s'"
proof -
  from work_handler_drains [OF assms] obtain q where
    "bt_send_work_handler Q s = Some (s\<lparr>event_queue := q,
       calls := calls s @ concat (map (handler_calls s) (view (event_queue s)))\<rparr>)" "view q = []" by blast
  then show ?thesis using assms(2) by simp
qed

section \<open>From publishing to the handler\<close>

text \<open>
  What the program relies on in nanopb: a message that was encoded is not empty and decodes
  to one whose byte fields hold the same bytes.
\<close>

definition codec_laws :: "(ble_event \<Rightarrow> item option) \<Rightarrow> (item \<Rightarrow> ble_event option) \<Rightarrow> bool" where
  "codec_laws pb_encode pb_decode \<longleftrightarrow>
     (\<forall>e out. pb_encode e = Some out \<longrightarrow> pb_wf (name e) \<longrightarrow> pb_wf (data e) \<longrightarrow> out \<noteq> [] \<and>
        (\<exists>e'. pb_decode out = Some e' \<and> pb_wf (name e') \<and> key (name e') = key (name e) \<and>
           pb_wf (data e') \<and> key (data e') = key (data e)))"

lemma codec_lawsD:
  "codec_laws pb_encode pb_decode \<Longrightarrow> pb_encode e = Some out \<Longrightarrow> pb_wf (name e) \<Longrightarrow> pb_wf (data e) \<Longrightarrow>
   out \<noteq> [] \<and> (\<exists>e'. pb_decode out = Some e' \<and> pb_wf (name e') \<and> key (name e') = key (name e) \<and>
     pb_wf (data e') \<and> key (data e') = key (data e))"
  unfolding codec_laws_def by blast

lemma key_prefix: "pb_wf b \<Longrightarrow> key b = x \<Longrightarrow> take (length x) (pb_bytes b) = x"
  by (auto simp: key_def pb_wf_def)

text \<open>
  A payload that encodes an event with short texts, arriving at a manager with an empty queue and without a raw
  handler, ends in one call of the handler subscribed to its name.
\<close>

lemma event_arrives:
  assumes laws: "msgq_laws Q cap view" "codec_laws pb_encode pb_decode"
    and s: "subs_inv s" "table s (nm @ [0]) = Some h" "raw_handler_ext s = None"
      "view (event_queue s) = []" "0 < cap"
    and short: "length nm < 254" "length dat < 254" "length nm + 1 < NS" "length dat + 1 < DS"
    and enc: "pb_encode \<lparr>name = pb_of_string NS nm, data = pb_of_string DS dat\<rparr> = Some out"
  shows "\<exists>s' N D. bt_send_work_handler Q (ble_evt_handler Q pb_decode out s) = Some s' \<and>
       calls s' = calls s @ [(K_work_submit, 0), (Evt_handler h N D, 0)] \<and>
       take (length nm + 1) N = nm @ [0] \<and> take (length dat + 1) D = dat @ [0] \<and>
       subs_inv s' \<and> table s' = table s \<and> raw_handler_ext s' = None \<and> view (event_queue s') = []"
proof -
  let ?e = "\<lparr>name = pb_of_string NS nm, data = pb_of_string DS dat\<rparr>"
  have ne: "out \<noteq> []" and "\<exists>e'. pb_decode out = Some e' \<and> pb_wf (name e') \<and>
      key (name e') = key (name ?e) \<and> pb_wf (data e') \<and> key (data e') = key (data ?e)"
    using codec_lawsD [OF laws(2) enc] by (simp_all add: pb_of_string_wf)
  then obtain e' where e': "pb_decode out = Some e'" "pb_wf (name e')" "pb_wf (data e')"
      "key (name e') = nm @ [0]" "key (data e') = dat @ [0]"
    using short by (auto simp: c_bytes_short)
  define q where "q = snd (k_msgq_put Q e' (event_queue s))"
  have q: "view q = [e']" using msgq_put_view [OF laws(1)] s(4,5) by (simp add: q_def)
  let ?s = "emit K_work_submit (s\<lparr>event_queue := q\<rparr>)"
  have recv: "ble_evt_handler Q pb_decode out s = ?s"
    using ne e' by (simp add: ble_evt_handler_def q_def case_prod_beta Let_def)
  have "handler_calls ?s e' = [(Evt_handler h (pb_bytes (name e')) (pb_bytes (data e')), 0)]"
    using s(2,3) e' by (simp add: handler_calls_def emit_def)
  moreover obtain q' where "bt_send_work_handler Q ?s = Some (?s\<lparr>event_queue := q',
      calls := calls ?s @ concat (map (handler_calls ?s) (view (event_queue ?s)))\<rparr>)" "view q' = []"
    using work_handler_drains [OF laws(1), of ?s] s(1) q e' by (auto simp: emit_def)
  ultimately show ?thesis
    using recv q s(1,3) key_prefix [OF e'(2,4)] key_prefix [OF e'(3,5)] by (auto simp: emit_def)
qed

text \<open>
  C22. What one device publishes reaches the handler on the other. If the name and the data
  are short enough for \<open>ble_publish\<close> and the encoder accepts the event, exactly one payload
  is written to the link; when that payload arrives at a manager with an empty queue and
  without a raw handler, its work calls the handler subscribed to the name, once, with the
  name and the data as NUL-terminated strings.
\<close>

theorem published_reaches_subscriber:
  assumes laws: "msgq_laws Q cap view" "codec_laws pb_encode pb_decode"
    and s: "subs_inv s" "table s (nm @ [0]) = Some h" "raw_handler_ext s = None"
      "view (event_queue s) = []" "0 < cap"
    and short: "length nm < 254" "length dat < 254" "length nm + 1 < NS" "length dat + 1 < DS"
    and enc: "pb_encode \<lparr>name = pb_of_string NS nm, data = pb_of_string DS dat\<rparr> = Some out"
  shows "ble_publish NS DS pb_encode link_write nm dat l = link_write out l \<and>
    (\<exists>s' N D. bt_send_work_handler Q (ble_evt_handler Q pb_decode out s) = Some s' \<and>
       calls s' = calls s @ [(K_work_submit, 0), (Evt_handler h N D, 0)] \<and>
       take (length nm + 1) N = nm @ [0] \<and> take (length dat + 1) D = dat @ [0])"
proof
  show "ble_publish NS DS pb_encode link_write nm dat l = link_write out l"
    using short enc by (simp add: ble_publish_def ble_publish_raw_def c_length_short)
qed (use event_arrives [OF laws s short enc] in blast)

text \<open>
  The two size checks disagree: a name that with its NUL fills the array can be
  subscribed to but never published, and a name of at least 255 characters passes the
  checks of both with its length reduced modulo 256, so that the subscription is entered
  under the first characters of the name only.
\<close>

theorem size_checks_disagree:
  assumes "subs_inv s" and "length (subscribers s) < BLE_SETTINGS_MAX_SUBSCRIPTIONS"
  shows "(length nm + 1 = NS \<and> NS < 256 \<longrightarrow>
        table (ble_subscribe NS nm h s) (nm @ [0]) = Some h \<and>
        ble_publish NS DS pb_encode link_write nm dat l = l) \<and>
    (length nm = 255 + k \<and> k \<le> NS \<and> k < 256 \<longrightarrow>
        table (ble_subscribe NS nm h s) (take k nm) = Some h)"
  using assms ble_subscribe_step [of s nm NS h]
  by (auto simp: ble_publish_def c_length_short c_bytes_short)
    (auto simp: c_length_def c_bytes_def)

text \<open>
  If the LED of the board cannot be bound, the initialisation goes on, starts the timer
  that drives it, and the first expiry of the timer uses the NULL device.
\<close>

theorem missing_led_is_used:
  assumes "E (calls s) Led_get_binding = 0" and "ble_stack_init True ncp E True s = Some s'"
  shows "(K_timer_start 1, 0) \<in> set (calls s') \<and> led_flash_handler c s' = None"
  using assms
  by (auto simp: ble_stack_init_def initialize_led_def ext_def emit_def led_flash_handler_def Let_def
      split: if_splits)

text \<open>
  The initialisation hands over to the link only with the stack enabled: if it returns at
  all, then every step before succeeded, the receive handler is attached before the link is
  initialised, and these two calls are its last.
\<close>

theorem stack_init_order:
  assumes "ble_stack_init led2 ncp E p_init s = Some s'"
  shows "p_init \<and> (\<exists>t. calls s' = calls s @ t @ [(Link_attach_handler, 0), (Link_init, 0)] \<and>
    filter (\<lambda>c. fst c \<in> {Port_configure_inactive, Bt_enable, Port_configure_disconnected}) t =
      (if ncp then [(Port_configure_inactive, 0), (Bt_enable, 0), (Port_configure_disconnected, 0)]
       else [(Bt_enable, 0)]))"
  using assms
  by (cases led2; cases ncp)
    (auto simp: ble_stack_init_def initialize_led_def ext_def emit_def Let_def split: if_splits)

section \<open>The properties at work\<close>

definition ble_example :: "ble_event list ble" where
  "ble_example = \<lparr>calls = [], subscribers = [], raw_handler_ext = None, event_queue = [],
     led = False, init_complete = False\<rparr>"

lemma ble_example_inv: "subs_inv ble_example"
  by (simp add: subs_inv_def ble_example_def)


theorem full_table_is_frozen_witness:
  "fold (\<lambda>(nm, h). ble_subscribe 16 nm h) [([1], 5)]
     (ble_example\<lparr>subscribers := replicate 12 \<lparr>evt_handler = 1, sub_name = pb_of_string 16 [1]\<rparr>\<rparr>) =
   ble_example\<lparr>subscribers := replicate 12 \<lparr>evt_handler = 1, sub_name = pb_of_string 16 [1]\<rparr>\<rparr>"
  by (rule full_table_is_frozen) (simp add: BLE_SETTINGS_MAX_SUBSCRIPTIONS_def)

theorem received_events_delivered_witness:
  "let e = \<lparr>name = pb_of_string 4 [7], data = pb_of_string 4 [8]\<rparr>;
       s = ble_example\<lparr>subscribers := [\<lparr>evt_handler = 3, sub_name = pb_of_string 4 [7]\<rparr>],
             raw_handler_ext := Some 9, event_queue := [e, e]\<rparr>
   in \<exists>s'. bt_send_work_handler (fifo 20) s = Some s' \<and> take 20 (event_queue s') = [] \<and>
     calls s' = [(Raw_handler 9 e, 0), (Evt_handler 3 [7, 0, 0, 0] [8, 0, 0, 0], 0),
                 (Raw_handler 9 e, 0), (Evt_handler 3 [7, 0, 0, 0] [8, 0, 0, 0], 0)]"
proof -
  let ?e = "\<lparr>name = pb_of_string 4 [7], data = pb_of_string 4 [8]\<rparr>"
  let ?s = "ble_example\<lparr>subscribers := [\<lparr>evt_handler = 3, sub_name = pb_of_string 4 [7]\<rparr>],
      raw_handler_ext := Some 9, event_queue := [?e, ?e]\<rparr>"
  have "subs_inv ?s"
    by (simp add: subs_inv_def ble_example_def pb_of_string_wf BLE_SETTINGS_MAX_SUBSCRIPTIONS_def)
  moreover have "pb_bytes (pb_of_string 4 [b]) = [b, 0, 0, 0]" for b
    by (simp add: pb_of_string_def c_bytes_short c_length_short numeral_2_eq_2)
  then have "handler_calls ?s ?e = [(Raw_handler 9 ?e, 0), (Evt_handler 3 [7, 0, 0, 0] [8, 0, 0, 0], 0)]"
    by (simp add: handler_calls_def table_def)
  ultimately show ?thesis
    using received_events_delivered [OF fifo_laws [of 20], of ?s]
    by (auto simp: Let_def pb_of_string_wf ble_example_def)
qed

text \<open>A codec for which the laws hold: the length of the name, the name and the data.\<close>

definition example_encode :: "ble_event \<Rightarrow> item option" where
  "example_encode e =
     (if pb_size (name e) < 256 then Some (word_of_nat (pb_size (name e)) # key (name e) @ key (data e))
      else None)"

definition example_decode :: "item \<Rightarrow> ble_event option" where
  "example_decode out =
     (case out of [] \<Rightarrow> None
      | n # r \<Rightarrow> if unat n \<le> length r
          then Some \<lparr>name = \<lparr>pb_size = unat n, pb_bytes = take (unat n) r\<rparr>,
            data = \<lparr>pb_size = length r - unat n, pb_bytes = drop (unat n) r\<rparr>\<rparr>
          else None)"

lemma example_codec_laws: "codec_laws example_encode example_decode"
  by (auto simp: codec_laws_def example_encode_def example_decode_def key_def pb_wf_def unat_of_nat
      min_def split: if_splits)

theorem published_reaches_subscriber_witness:
  "let s = ble_example\<lparr>subscribers := [\<lparr>evt_handler = 3, sub_name = pb_of_string 16 [7]\<rparr>]\<rparr>;
       out = [2, 7, 0, 8, 9, 0]
   in ble_publish 16 16 example_encode (\<lambda>d l. l @ [d]) [7] [8, 9] [] = [out] \<and>
    (\<exists>s' N D. bt_send_work_handler (fifo 20) (ble_evt_handler (fifo 20) example_decode out s) = Some s' \<and>
       calls s' = [(K_work_submit, 0), (Evt_handler 3 N D, 0)] \<and> take 2 N = [7, 0] \<and> take 3 D = [8, 9, 0])"
proof -
  let ?s = "ble_example\<lparr>subscribers := [\<lparr>evt_handler = 3, sub_name = pb_of_string 16 [7]\<rparr>]\<rparr>"
  have s: "subs_inv ?s" "table ?s ([7] @ [0]) = Some 3" "calls ?s = []" "raw_handler_ext ?s = None"
      "take 20 (event_queue ?s) = []"
    by (simp_all add: subs_inv_def ble_example_def pb_of_string_wf table_def c_bytes_short
        BLE_SETTINGS_MAX_SUBSCRIPTIONS_def)
  have enc: "example_encode \<lparr>name = pb_of_string 16 [7], data = pb_of_string 16 [8, 9]\<rparr> = Some [2, 7, 0, 8, 9, 0]"
    by (simp add: example_encode_def c_bytes_short) (simp add: pb_of_string_def c_length_def)
  from published_reaches_subscriber [OF fifo_laws [of 20] example_codec_laws s(1,2,4,5) _ _ _ _ _ enc,
      of "\<lambda>d l. l @ [d]" "[]"]
  show ?thesis using s(3) by (simp add: Let_def eval_nat_numeral)
qed

theorem size_checks_disagree_witness:
  "table (ble_subscribe 16 (replicate 15 1) 3 ble_example) (replicate 15 1 @ [0]) = Some 3 \<and>
   ble_publish 16 16 example_encode (\<lambda>d l. l @ [d]) (replicate 15 1) [1] [] = [] \<and>
   table (ble_subscribe 16 (replicate 257 1) 3 ble_example) [1, 1] = Some 3"
  using size_checks_disagree [OF ble_example_inv, of "replicate 15 1" 16 3 16 example_encode "\<lambda>d l. l @ [d]" "[1]" "[]" 0]
    size_checks_disagree [OF ble_example_inv, of "replicate 257 1" 16 3 16 example_encode "\<lambda>d l. l @ [d]" "[1]" "[]" 2]
  by (simp add: ble_example_def BLE_SETTINGS_MAX_SUBSCRIPTIONS_def numeral_2_eq_2)

theorem missing_led_is_used_witness:
  "\<exists>s'. ble_stack_init True False (\<lambda>t c. 0) True ble_example = Some s' \<and>
     (K_timer_start 1, 0) \<in> set (calls s') \<and> led_flash_handler False s' = None"
proof -
  obtain s' where s': "ble_stack_init True False (\<lambda>t c. 0) True ble_example = Some s'"
    by (simp add: ble_stack_init_def initialize_led_def ext_def emit_def)
  then show ?thesis using missing_led_is_used [OF _ s'] by simp
qed

theorem stack_init_order_witness:
  "\<exists>s' t. ble_stack_init True True (\<lambda>t c. case c of Port_get_binding \<Rightarrow> 1 | _ \<Rightarrow> 0) True ble_example = Some s' \<and>
     calls s' = t @ [(Link_attach_handler, 0), (Link_init, 0)]"
proof -
  let ?E = "\<lambda>t c. case c of Port_get_binding \<Rightarrow> 1 | _ \<Rightarrow> (0 :: int)"
  obtain s' where s': "ble_stack_init True True ?E True ble_example = Some s'"
    by (simp add: ble_stack_init_def initialize_led_def ext_def emit_def)
  then show ?thesis using stack_init_order [OF s'] by (auto simp: ble_example_def)
qed

end
