(* ===== verification/Ble_Roles.thy ===== *)
theory Ble_Roles
  imports Ble_Central Ble_Peripheral Ble_Manager
begin

text \<open>
  The functions of \<open>ble_m.c\<close> that forward to the link. The role is chosen when the program is built; here
  the link's state says which it is.
\<close>

datatype 'q role_link = Central_link "'q central" | Peripheral_link "'q peripheral"

fun ble_is_connected :: "'q role_link \<Rightarrow> bool" where
  "ble_is_connected (Peripheral_link l) = ble_peripheral_is_connected l"
| "ble_is_connected (Central_link l) = ble_central_is_connected l"

text \<open>\<open>None\<close>: the function that the central role calls is declared and defined nowhere, so that build does not link.\<close>

fun ble_disconnect :: "'q role_link \<Rightarrow> 'q role_link option" where
  "ble_disconnect (Peripheral_link l) = Some (Peripheral_link (ble_peripheral_disconnect l))"
| "ble_disconnect (Central_link l) = None"

fun advertising_start :: "peripheral_call env \<Rightarrow> 'q role_link \<Rightarrow> 'q role_link" where
  "advertising_start E (Peripheral_link l) = Peripheral_link (ble_peripheral_advertising_start E l)"
| "advertising_start E (Central_link l) = Central_link l"

fun scan_start :: "central_call env \<Rightarrow> 'q role_link \<Rightarrow> 'q role_link" where
  "scan_start E (Central_link l) = Central_link (ble_central_scan_start E l)"
| "scan_start E (Peripheral_link l) = Peripheral_link l"

text \<open>
  The end of \<open>ble_stack_init\<close>: the handler is attached, and the link initialised. The arguments are those of
  \<open>ble_central_init\<close>.
\<close>

fun role_init :: "'q \<Rightarrow> bool \<Rightarrow> central_call env \<Rightarrow> 'q role_link \<Rightarrow> 'q role_link option" where
  "role_init q0 settings E (Peripheral_link l) =
     Some (Peripheral_link (ble_peripheral_init (ble_peripheral_attach_handler True l)))"
| "role_init q0 settings E (Central_link l) =
     map_option (\<lambda>(err, l). Central_link l) (ble_central_init q0 settings E True (ble_central_attach_handler True l))"

text \<open>The end of \<open>ble_publish_raw\<close>: the payload goes to the link of the role.\<close>

fun role_write :: "(item, 'q) msgq \<Rightarrow> nat \<Rightarrow> item \<Rightarrow> 'q role_link \<Rightarrow> 'q role_link" where
  "role_write Q is d (Peripheral_link l) = Peripheral_link (ble_peripheral_write Q is d l)"
| "role_write Q is d (Central_link l) = Central_link (ble_central_write Q is d l)"

text \<open>What waits and what was sent, for the central in slot \<open>i\<close> and to connection \<open>c\<close>.\<close>

fun role_backlog :: "('q \<Rightarrow> item list) \<Rightarrow> nat \<Rightarrow> 'q role_link \<Rightarrow> item list" where
  "role_backlog view i (Peripheral_link l) = view (peripheral.q l)"
| "role_backlog view i (Central_link l) = queued view i l"

fun role_sent :: "nat \<Rightarrow> 'q role_link \<Rightarrow> item list" where
  "role_sent c (Peripheral_link l) = Ble_Peripheral.sent l"
| "role_sent c (Central_link l) = sent_to c l"

fun role_inv :: "nat \<Rightarrow> 'q role_link \<Rightarrow> bool" where
  "role_inv i (Peripheral_link l) = True"
| "role_inv i (Central_link l) = (i < length (conns l))"

interpretation role_link: ble_link "role_write Q is" ble_is_connected "role_backlog view i" "role_sent c" "is"
    "\<lambda>l. msgq_laws Q cap view \<and> role_inv i l"
  for Q :: "(item, 'q) msgq" and "is" view i c cap
proof
  fix l :: "'q role_link" and d assume inv: "msgq_laws Q cap view \<and> role_inv i l"
  note P = peripheral_link.write_is_up [of Q cap view] peripheral_link.write_sent [of Q cap view]
    peripheral_link.write_backlog [of Q cap view] peripheral_link.write_too_long [of Q cap view]
  note C = central_link.write_inv [of Q cap view i] central_link.write_is_up [of Q cap view i] central_link.write_sent [of Q cap view i]
    central_link.write_backlog [of Q cap view i] central_link.write_too_long [of Q cap view i]
  show "msgq_laws Q cap view \<and> role_inv i (role_write Q is d l)" using inv C by (cases l) auto
  show "ble_is_connected (role_write Q is d l) = ble_is_connected l" using inv P C by (cases l) auto
  show "role_sent c (role_write Q is d l) = role_sent c l" using inv P C by (cases l) auto
  show "role_backlog view i (role_write Q is d l) = role_backlog view i l @ [d] \<or>
      role_backlog view i (role_write Q is d l) = role_backlog view i l"
    using inv P C by (cases l) auto
  show "role_backlog view i (role_write Q is d l) = role_backlog view i l" if "is < length d"
    using inv P C that by (cases l) auto
qed

section \<open>The link of either role as a system of events\<close>

datatype role_event = Central_event central_event | Peripheral_event peripheral_event

text \<open>An event of the other role does not concern the link.\<close>

fun role_step ::
    "(item, 'q) msgq \<Rightarrow> nat \<Rightarrow> central_call env \<Rightarrow> peripheral_call env \<Rightarrow> 'q role_link \<Rightarrow> role_event \<Rightarrow> 'q role_link option"
  where
  "role_step Q is Ec Ep (Central_link l) (Central_event e) = map_option Central_link (central_step Q is Ec l e)"
| "role_step Q is Ec Ep (Peripheral_link l) (Peripheral_event e) = map_option Peripheral_link (peripheral_step Q is Ep l e)"
| "role_step Q is Ec Ep l e = Some l"

fun role_ok :: "central_call env \<Rightarrow> 'q role_link \<Rightarrow> role_event \<Rightarrow> bool" where
  "role_ok Ec (Central_link l) (Central_event e) = central_ok Ec l e"
| "role_ok Ec l e = True"

fun role_pending :: "('q \<Rightarrow> item list) \<Rightarrow> nat \<Rightarrow> 'q role_link \<Rightarrow> item list" where
  "role_pending view c (Peripheral_link l) = view (peripheral.q l)"
| "role_pending view c (Central_link l) = waiting view c l"

fun role_writes :: "role_event \<Rightarrow> item list" where
  "role_writes (Central_event e) = Ble_Central.written [e]"
| "role_writes (Peripheral_event e) = Ble_Peripheral.written [e]"

fun role_consistent :: "('q \<Rightarrow> item list) \<Rightarrow> 'q role_link \<Rightarrow> bool" where
  "role_consistent view (Peripheral_link l) = True"
| "role_consistent view (Central_link l) = central_inv view l"

lemma role_step_cases:
  assumes "role_step Q is Ec Ep l e = Some l'"
  obtains a f a' where "l = Central_link a" "e = Central_event f" "l' = Central_link a'" "central_step Q is Ec a f = Some a'"
  | b f b' where "l = Peripheral_link b" "e = Peripheral_event f" "l' = Peripheral_link b'" "peripheral_step Q is Ep b f = Some b'"
  | "l' = l"
  using assms by (cases l; cases e) auto

interpretation role_stream: link_stream "role_step Q is Ec Ep" "role_ok Ec" "\<lambda>l. msgq_laws Q cap view \<and> role_consistent view l"
    "role_sent c" "role_pending view c" role_writes
  for Q :: "(item, 'q) msgq" and "is" Ec Ep cap view c
proof
  fix l e l' assume inv: "msgq_laws Q cap view \<and> role_consistent view l" and ok: "role_ok Ec l e" and step: "role_step Q is Ec Ep l e = Some l'"
  show "msgq_laws Q cap view \<and> role_consistent view l'"
    using step inv ok central_stream.step_inv [of Q cap view] by (cases rule: role_step_cases) (auto simp del: central_step.simps central_ok.simps)
  show "subseq (role_sent c l' @ role_pending view c l') (role_sent c l @ role_pending view c l @ role_writes e)"
    using step inv ok central_stream.step_stream [of Q cap view] peripheral_stream.step_stream [of Q cap view]
    by (cases rule: role_step_cases) (auto simp: list_emb_prefix simp del: central_step.simps peripheral_step.simps central_ok.simps)
next
  fix l e l' assume "role_step Q is Ec Ep l e = Some l'"
  then show "prefix (role_sent c l) (role_sent c l')"
    by (cases rule: role_step_cases) (auto simp: central_stream.step_sent peripheral_stream.step_sent)
qed

text \<open>
  What goes on the air to connection \<open>c\<close> of the central, or to the peer of the peripheral, between two states of a link: the payloads that
  the radio accepted.
\<close>

fun central_aired :: "nat \<Rightarrow> (central_call \<times> int) list \<Rightarrow> item list" where
  "central_aired c [] = []"
| "central_aired c ((Nus_c_send i c' d, r) # t) = (if c' = Some c \<and> r = 0 then d # central_aired c t else central_aired c t)"
| "central_aired c (_ # t) = central_aired c t"

fun peripheral_aired :: "(peripheral_call \<times> int) list \<Rightarrow> item list" where
  "peripheral_aired [] = []"
| "peripheral_aired ((Nus_send c d, r) # t) = (if r = 0 then d # peripheral_aired t else peripheral_aired t)"
| "peripheral_aired (_ # t) = peripheral_aired t"

fun role_aired :: "nat \<Rightarrow> 'q role_link \<Rightarrow> 'q role_link \<Rightarrow> item list" where
  "role_aired c (Central_link l) (Central_link l') = central_aired c (drop (length (calls l)) (calls l'))"
| "role_aired c (Peripheral_link l) (Peripheral_link l') = peripheral_aired (drop (length (calls l)) (calls l'))"
| "role_aired c _ _ = []"

lemma aired_sends: "subseq (central_aired c t) (Ble_Central.sends c t)" "subseq (peripheral_aired u) (Ble_Peripheral.sends u)"
  by (induction c t rule: central_aired.induct, auto) (induction u rule: peripheral_aired.induct, auto)

lemma role_aired_sent:
  assumes "role_step Q is Ec Ep l e = Some l'"
  shows "subseq (role_aired c l l') (drop (length (role_sent c l)) (role_sent c l'))"
  using assms
proof (cases rule: role_step_cases)
  case (1 a f a')
  then show ?thesis using calls_grow [OF 1(4)] aired_sends(1) by (auto simp: prefix_def)
next
  case (2 b f b')
  then show ?thesis using p_calls_grow [OF 2(4)] aired_sends(2) by (auto simp: prefix_def)
next
  case 3
  then show ?thesis by (cases l) auto
qed

text \<open>A step of the link moves payloads from its queue to the air, or drops them; it adds none but those it writes.\<close>

lemma role_flow:
  assumes "msgq_laws Q cap view" and "role_consistent view l" and "role_ok Ec l e" and "role_step Q is Ec Ep l e = Some l'"
  shows "role_consistent view l' \<and> subseq (role_aired c l l' @ role_pending view c l') (role_pending view c l @ role_writes e)"
proof -
  have inv: "msgq_laws Q cap view \<and> role_consistent view l" using assms(1,2) by blast
  have "subseq (role_aired c l l' @ role_pending view c l') (drop (length (role_sent c l)) (role_sent c l') @ role_pending view c l')"
    using role_aired_sent [OF assms(4)] by (simp add: list_emb_append_mono)
  then show ?thesis
    using role_stream.step_flow [OF inv assms(3,4)] role_stream.step_inv [OF inv assms(3,4)] subseq_order.order_trans by blast
qed

text \<open>What arrives from the radio is handed to the handler of the manager, if it is attached.\<close>

fun role_attached :: "'q role_link \<Rightarrow> bool" where
  "role_attached (Peripheral_link l) = peripheral.evt_cb l"
| "role_attached (Central_link l) = central.evt_cb l"

fun role_receive :: "item \<Rightarrow> 'q role_link \<Rightarrow> 'q role_link" where
  "role_receive d (Peripheral_link l) = Peripheral_link (bt_receive_cb d l)"
| "role_receive d (Central_link l) = Central_link (ble_data_received d l)"

end
