(* ===== verification/Applications.thy ===== *)
theory Applications
  imports App_Main Ble_Roles
begin

text \<open>
  The applications of the repository: the hub and the client that send each other counters (\<open>applications/hub\<close>,
  \<open>applications/client\<close>) and the sample that talks to the cloud (\<open>applications/sample\<close>). They run on the
  models of the Bluetooth manager with its links, of the cloud client and of the worker.
\<close>

section \<open>Hub and client\<close>

text \<open>
  Calls of an application into the kernel and the pins; the time of a timer is in milliseconds.
\<close>

datatype app_call =
  App_timer_start nat | App_msleep nat | Led0_get_binding | Led0_configure | Led0_toggle
| Button_get_binding | Button_configure | Button_interrupt_configure | Button_add_callback

text \<open>
  \<open>tx_counter\<close> starts at 0 and only grows, \<open>led_dev\<close> and \<open>button_dev\<close> are device pointers (0 for NULL). \<open>sys\<close> is the state of the
  Bluetooth manager and of the link below it.
\<close>

record 'x ping_app = "app_call world" +
  count :: "byte list"
  tx_counter :: nat
  led_dev :: int
  button_dev :: int
  sys :: 'x

definition INT_MAX :: nat where
  "INT_MAX = 2147483647"

text \<open>The characters of a decimal number.\<close>

definition digits :: "nat \<Rightarrow> byte list" where
  "digits n = map of_char (show_nat n)"

text \<open>
  The timer of both applications; they differ in the name of the event and in the link. \<open>None\<close> is the overflow of the counter.
\<close>

definition my_expiry_function ::
    "(byte list \<Rightarrow> byte list \<Rightarrow> 'x \<Rightarrow> 'x) \<Rightarrow> ('x \<Rightarrow> bool) \<Rightarrow> byte list \<Rightarrow> 'x ping_app \<Rightarrow> 'x ping_app option" where
  "my_expiry_function publish is_connected nm a =
     (if \<not> is_connected (sys a) then Some (emit (App_timer_start 500) a)
      else if tx_counter a = INT_MAX then None
      else
        let c = snprintf 10 (digits (tx_counter a));
            a = a\<lparr>count := c, tx_counter := tx_counter a + 1\<rparr>
        in Some (emit (App_timer_start 500) (a\<lparr>sys := publish nm c (sys a)\<rparr>)))"

definition ping :: "byte list" where
  "ping = map of_char ''ping''"

definition pong :: "byte list" where
  "pong = map of_char ''pong''"

text \<open>The handler of both applications, which only logs; 1 stands for its address.\<close>

definition evt_cb :: nat where
  "evt_cb = 1"

definition expiry ::
    "nat \<Rightarrow> nat \<Rightarrow> (ble_event \<Rightarrow> item option) \<Rightarrow> (item, 'r) msgq \<Rightarrow> nat \<Rightarrow> byte list \<Rightarrow>
     ('q ble \<times> 'r role_link) ping_app \<Rightarrow> ('q ble \<times> 'r role_link) ping_app option" where
  "expiry NS DS pb_encode Q is =
     my_expiry_function (\<lambda>nm d (m, l). (m, ble_publish NS DS pb_encode (role_write Q is) nm d l)) (\<lambda>(m, l). ble_is_connected l)"

definition hub_expiry ::
    "nat \<Rightarrow> nat \<Rightarrow> (ble_event \<Rightarrow> item option) \<Rightarrow> (item, 'r) msgq \<Rightarrow> nat \<Rightarrow>
     ('q ble \<times> 'r role_link) ping_app \<Rightarrow> ('q ble \<times> 'r role_link) ping_app option" where
  "hub_expiry NS DS pb_encode Q is = expiry NS DS pb_encode Q is ping"

definition client_expiry ::
    "nat \<Rightarrow> nat \<Rightarrow> (ble_event \<Rightarrow> item option) \<Rightarrow> (item, 'r) msgq \<Rightarrow> nat \<Rightarrow>
     ('q ble \<times> 'r role_link) ping_app \<Rightarrow> ('q ble \<times> 'r role_link) ping_app option" where
  "client_expiry NS DS pb_encode Q is = expiry NS DS pb_encode Q is pong"

definition led_init :: "app_call env \<Rightarrow> 'x ping_app \<Rightarrow> 'x ping_app" where
  "led_init E a =
     (let (d, a) = ext E Led0_get_binding a;
          a = a\<lparr>led_dev := d\<rparr>
      in if d = 0 then a else snd (ext E Led0_configure a))"

definition config_button :: "app_call env \<Rightarrow> 'x ping_app \<Rightarrow> 'x ping_app" where
  "config_button E a =
     (let (d, a) = ext E Button_get_binding a;
          a = a\<lparr>button_dev := d\<rparr>
      in if d = 0 then a
      else
        let (ret, a) = ext E Button_configure a in
        if ret \<noteq> 0 then a
        else
          let (ret, a) = ext E Button_interrupt_configure a in
          if ret \<noteq> 0 then a else emit Button_add_callback a)"

text \<open>
  Setting up: the link's initialisation is the end of \<open>ble_stack_init\<close>, so it is run on the link's state when that function
  has returned in the manager's. \<open>led2\<close>, \<open>ncp\<close>, \<open>settings\<close> and \<open>q0\<close> are those of the functions called. \<open>None\<close> is a failed assertion.
\<close>

definition ble_setup ::
    "bool \<Rightarrow> bool \<Rightarrow> bool \<Rightarrow> 'r \<Rightarrow> nat \<Rightarrow> ble_call env \<Rightarrow> central_call env \<Rightarrow> byte list \<Rightarrow>
     ('q ble \<times> 'r role_link) ping_app \<Rightarrow> ('q ble \<times> 'r role_link) ping_app option" where
  "ble_setup led2 ncp settings q0 NS Em El nm a =
     (case ble_stack_init led2 ncp Em True (fst (sys a)) of
        None \<Rightarrow> None
      | Some m \<Rightarrow>
          (case role_init q0 settings El (snd (sys a)) of
             None \<Rightarrow> None
           | Some l \<Rightarrow> Some (emit (App_timer_start 1000) (a\<lparr>sys := (ble_subscribe NS nm evt_cb m, l)\<rparr>))))"

definition hub_setup ::
    "bool \<Rightarrow> bool \<Rightarrow> bool \<Rightarrow> 'r \<Rightarrow> nat \<Rightarrow> app_call env \<Rightarrow> ble_call env \<Rightarrow> central_call env \<Rightarrow>
     ('q ble \<times> 'r role_link) ping_app \<Rightarrow> ('q ble \<times> 'r role_link) ping_app option" where
  "hub_setup led2 ncp settings q0 NS E Em El a = ble_setup led2 ncp settings q0 NS Em El pong (led_init E a)"

definition client_setup ::
    "bool \<Rightarrow> bool \<Rightarrow> bool \<Rightarrow> 'r \<Rightarrow> nat \<Rightarrow> app_call env \<Rightarrow> ble_call env \<Rightarrow> central_call env \<Rightarrow>
     ('q ble \<times> 'r role_link) ping_app \<Rightarrow> ('q ble \<times> 'r role_link) ping_app option" where
  "client_setup led2 ncp settings q0 NS E Em El a = ble_setup led2 ncp settings q0 NS Em El ping (config_button E a)"

text \<open>The hub's loop; \<open>None\<close> is the use of a device that was not found.\<close>

definition hub_loop :: "'x ping_app \<Rightarrow> 'x ping_app option" where
  "hub_loop a = (if led_dev a = 0 then None else Some (emit (App_msleep 500) (emit Led0_toggle a)))"

definition client_loop :: "'x ping_app \<Rightarrow> 'x ping_app" where
  "client_loop a = emit (App_msleep 100) a"

section \<open>The sample\<close>

datatype sample_call = K_work_init | Sample_timer_start nat

text \<open>The states of the cloud client and of the worker that the sample uses.\<close>

record sample = "sample_call world" +
  s_cloud :: cloud
  s_worker :: worker

text \<open>The address of the work and of the handler, and the names.\<close>

definition publish_work :: nat where
  "publish_work = 1"

definition application_callback :: nat where
  "application_callback = 2"

definition cmd :: "byte list" where
  "cmd = map of_char ''cmd''"

definition cfg_topic :: "byte list" where
  "cfg_topic = map of_char ''cfg''"

definition publish_timer_evt :: "sample \<Rightarrow> sample" where
  "publish_timer_evt s = s\<lparr>s_worker := worker_submit publish_work (s_worker s)\<rparr>"

text \<open>\<open>payload\<close> is what the codec library makes of the measurements, \<open>None\<close> when it fails.\<close>

definition publish_work_fn :: "'dc platform \<Rightarrow> byte list option \<Rightarrow> sample \<Rightarrow> sample" where
  "publish_work_fn P payload s =
     (case payload of None \<Rightarrow> s
      | Some d \<Rightarrow> s\<lparr>s_cloud := snd (pyrinas_cloud_publish P (map of_char ''env'') d (s_cloud s))\<rparr>)"

text \<open>The two blocks of the heap hold \<open>junk1\<close> and \<open>junk2\<close>. \<open>None\<close> is a write through NULL or past a block.\<close>

definition sample_setup :: "'dc platform \<Rightarrow> byte list \<Rightarrow> byte list \<Rightarrow> sample \<Rightarrow> sample option" where
  "sample_setup P junk1 junk2 s =
     (case pyrinas_cloud_subscribe P junk1 cmd application_callback (s_cloud s) of
        None \<Rightarrow> None
      | Some (err, c) \<Rightarrow>
          (case pyrinas_cloud_subscribe P junk2 cfg_topic application_callback c of
             None \<Rightarrow> None
           | Some (err, c) \<Rightarrow> Some (emit (Sample_timer_start 600) (emit K_work_init (s\<lparr>s_cloud := c\<rparr>)))))"

section \<open>Defaults\<close>

text \<open>
  \<open>lib/app/app_weak.c\<close>: the functions that an application gets if it does not define its own. The trace holds what they log.
\<close>

datatype weak_call = Log_inf string

definition weak_early_setup :: "weak_call world \<Rightarrow> weak_call world" where
  "weak_early_setup s = emit (Log_inf ''early_setup'') s"

definition weak_setup :: "weak_call world \<Rightarrow> weak_call world" where
  "weak_setup s = emit (Log_inf ''setup'') s"

definition weak_loop :: "weak_call world \<Rightarrow> weak_call world" where
  "weak_loop s = s"


section \<open>The counter as a text\<close>

lemma length_show_nat: "0 < d \<Longrightarrow> n < 10 ^ d \<Longrightarrow> length (show_nat n) \<le> d"
proof (induction d arbitrary: n)
  case (Suc d)
  show ?case
  proof (cases "n < 10")
    case False
    then have "0 < d" using Suc.prems(2) by (cases d) auto
    moreover have "n div 10 < 10 ^ d" using Suc.prems(2) by (simp add: div_less_iff_less_mult mult.commute)
    ultimately show ?thesis using Suc.IH [of "n div 10"] False by (simp add: show_nat_step)
  qed simp
qed simp

lemma digits_fit: "n < 1000000000 \<Longrightarrow> length (digits n) \<le> 9"
  using length_show_nat [of 9 n] by (simp add: digits_def)

lemma of_char_byte: "n < 256 \<Longrightarrow> (of_char (char_of n) :: byte) = word_of_nat n"
proof -
  assume "n < 256"
  then have "(of_char (char_of n) :: nat) = n" by simp
  moreover have "(of_char (char_of n) :: byte) = of_nat (of_char (char_of n))" by (rule of_nat_of_char [symmetric])
  ultimately show ?thesis by simp
qed

lemma digits_no_NUL: "0 \<notin> set (digits n)"
proof -
  have "\<forall>c \<in> set (show_nat n). \<exists>k :: nat. k < 10 \<and> c = char_of (48 + k)"
  proof (induction n rule: show_nat.induct)
    case (1 n)
    show ?case
    proof (cases "n < 10")
      case False
      have "\<exists>k :: nat. k < 10 \<and> char_of (48 + n mod 10) = (char_of (48 + k) :: char)"
        by (intro exI [of _ "n mod 10"]) simp
      then show ?thesis using 1 [OF False] show_nat_step [of n] False by simp
    qed auto
  qed
  moreover have "(of_char (char_of (48 + k)) :: byte) \<noteq> 0" if "k < 10" for k :: nat
  proof -
    have "(of_char (char_of (48 + k)) :: byte) = of_nat (48 + k)" using that by (intro of_char_byte) simp
    moreover have "unat (of_nat (48 + k) :: byte) = 48 + k" using that by (subst unat_of_nat) simp
    ultimately show ?thesis by (metis add_eq_0_iff_both_eq_0 unat_0 zero_neq_numeral)
  qed
  ultimately show ?thesis by (auto simp: digits_def)
qed


section \<open>Counting over a link\<close>

lemma app_frame [simp]:
  "tx_counter (emit c a) = tx_counter a" "sys (emit c a) = sys a" "led_dev (emit c a) = led_dev a"
  "tx_counter (snd (ext E c a)) = tx_counter a" "sys (snd (ext E c a)) = sys a"
  for a :: "'x ping_app"
  by (simp_all add: emit_def ext_def)

text \<open>The event that carries a counter, and the payload that the encoder makes of it.\<close>

definition counter_event :: "nat \<Rightarrow> nat \<Rightarrow> byte list \<Rightarrow> nat \<Rightarrow> ble_event" where
  "counter_event NS DS nm k = \<lparr>name = pb_of_string NS nm, data = pb_of_string DS (digits k)\<rparr>"

definition encodes_counters :: "nat \<Rightarrow> nat \<Rightarrow> (ble_event \<Rightarrow> item option) \<Rightarrow> byte list \<Rightarrow> (nat \<Rightarrow> item) \<Rightarrow> bool" where
  "encodes_counters NS DS pb_encode nm out \<longleftrightarrow> length nm < 254 \<and> length nm + 1 < NS \<and> 10 < DS \<and>
     (\<forall>k < 1000000000. pb_encode (counter_event NS DS nm k) = Some (out k))"

lemma publish_counter:
  assumes "encodes_counters NS DS pb_encode nm out" and "k < 1000000000"
  shows "ble_publish NS DS pb_encode w nm (snprintf 10 (digits k)) l = w (out k) l"
proof -
  have "length (digits k) \<le> 9" by (rule digits_fit [OF assms(2)])
  then have "snprintf 10 (digits k) = digits k" "c_length (digits k) < DS" "c_length nm < NS"
    using assms(1) by (auto simp: snprintf_fits encodes_counters_def c_length_short)
  then show ?thesis
    using assms by (simp add: ble_publish_def ble_publish_raw_def encodes_counters_def counter_event_def)
qed

context ble_link
begin

text \<open>While the link is up, the timer writes one payload for every number from the counter on.\<close>

lemma expiries:
  assumes "encodes_counters NS DS pb_encode nm out"
  shows "inv (snd (sys a)) \<Longrightarrow> is_up (snd (sys a)) \<Longrightarrow> tx_counter a + n \<le> 1000000000 \<Longrightarrow>
    \<exists>a'. exec (\<lambda>a u. my_expiry_function (\<lambda>nm d (m, l). (m, ble_publish NS DS pb_encode write nm d l)) (\<lambda>(m, l). is_up l) nm a)
        a (replicate n ()) = Some a' \<and>
      sys a' = (fst (sys a), fold write (map out [tx_counter a ..< tx_counter a + n]) (snd (sys a))) \<and>
      tx_counter a' = tx_counter a + n"
proof (induction n arbitrary: a)
  case (Suc n)
  let ?k = "tx_counter a"
  define a1 where "a1 = emit (App_timer_start 500) (a\<lparr>count := snprintf 10 (digits ?k), tx_counter := ?k + 1,
    sys := (fst (sys a), write (out ?k) (snd (sys a)))\<rparr>)"
  have "?k < 1000000000" using Suc.prems(3) by simp
  then have step: "my_expiry_function (\<lambda>nm d (m, l). (m, ble_publish NS DS pb_encode write nm d l)) (\<lambda>(m, l). is_up l) nm a = Some a1"
    using Suc.prems(2) publish_counter [OF assms, of ?k "write"]
    by (simp add: my_expiry_function_def INT_MAX_def case_prod_beta Let_def a1_def)
  have a1: "sys a1 = (fst (sys a), write (out ?k) (snd (sys a)))" "tx_counter a1 = Suc ?k" by (simp_all add: a1_def)
  have "[?k ..< ?k + Suc n] = ?k # [Suc ?k ..< Suc ?k + n]" by (simp add: upt_conv_Cons)
  then show ?case
    using Suc.IH [of a1] Suc.prems a1 step write_inv write_is_up by simp
qed simp

end

section \<open>Setting up\<close>

lemma initialize_led_frame:
  "subscribers (snd (initialize_led led2 E s)) = subscribers s \<and> raw_handler_ext (snd (initialize_led led2 E s)) = raw_handler_ext s \<and>
   event_queue (snd (initialize_led led2 E s)) = event_queue s"
  by (simp add: initialize_led_def ext_def Let_def)

lemma stack_init_frame:
  assumes "ble_stack_init led2 ncp E p s = Some s'"
  shows "subscribers s' = subscribers s \<and> raw_handler_ext s' = raw_handler_ext s \<and> event_queue s' = event_queue s"
  using assms initialize_led_frame [of led2 E s]
  by (auto simp: ble_stack_init_def ext_def emit_def Let_def case_prod_beta split: if_splits)

lemma app_setup_sys: "sys (config_button E a) = sys a" "sys (led_init E a) = sys a"
  by (simp_all add: config_button_def led_init_def case_prod_beta Let_def)

text \<open>An application that is set up delivers the events of its name to its handler.\<close>

lemma ble_setup_manager:
  assumes "ble_setup led2 ncp settings q0 NS Em El nm a = Some a'" and "subs_inv (fst (sys a))" and "length nm < 255" and "length nm < NS"
    and "length (subscribers (fst (sys a))) < BLE_SETTINGS_MAX_SUBSCRIPTIONS"
  shows "subs_inv (fst (sys a')) \<and> table (fst (sys a')) (nm @ [0]) = Some evt_cb \<and>
    raw_handler_ext (fst (sys a')) = raw_handler_ext (fst (sys a)) \<and> event_queue (fst (sys a')) = event_queue (fst (sys a))"
proof -
  obtain m where m: "ble_stack_init led2 ncp Em True (fst (sys a)) = Some m" "fst (sys a') = ble_subscribe NS nm evt_cb m"
    using assms(1) by (auto simp: ble_setup_def Let_def split: option.splits)
  note frame = stack_init_frame [OF m(1)]
  have len: "c_length nm \<le> NS" "c_bytes nm = nm @ [0]" using assms(3,4) by (simp_all add: c_length_short c_bytes_short)
  have inv: "subs_inv m" using assms(2) frame by (simp add: subs_inv_def)
  have "length (subscribers m) < BLE_SETTINGS_MAX_SUBSCRIPTIONS" using assms(5) frame by simp
  then have "table (ble_subscribe NS nm evt_cb m) = (table m)(c_bytes nm \<mapsto> evt_cb) \<and> subs_inv (ble_subscribe NS nm evt_cb m)"
    using subs.subscribe_tab [OF inv] subs.subscribe_inv [OF inv] len subs_inv_card [OF inv] by simp
  moreover have "raw_handler_ext (ble_subscribe NS nm evt_cb m) = raw_handler_ext m" "event_queue (ble_subscribe NS nm evt_cb m) = event_queue m"
    by (simp_all add: ble_subscribe_def Let_def)
  ultimately show ?thesis using frame len m(2) by simp
qed

text \<open>The manager with the payloads that arrive one by one, the work run after each.\<close>

definition receive ::
    "(ble_event, 'q) msgq \<Rightarrow> (item \<Rightarrow> ble_event option) \<Rightarrow> 'q ble \<Rightarrow> item \<Rightarrow> 'q ble option" where
  "receive Q pb_decode m out = bt_send_work_handler Q (ble_evt_handler Q pb_decode out m)"

text \<open>The calls of a handler with a name and a text, and what they were, as C strings.\<close>

definition handled :: "nat \<Rightarrow> (byte list \<times> byte list) list \<Rightarrow> (ble_call \<times> int) list" where
  "handled h ds = concat (map (\<lambda>(N, D). [(K_work_submit, 0), (Evt_handler h N D, 0)]) ds)"

lemma c_string_prefix: "take (length x + 1) N = x @ [0] \<Longrightarrow> 0 \<notin> set x \<Longrightarrow> c_string N = x"
proof -
  assume "take (length x + 1) N = x @ [0]" and x: "0 \<notin> set x"
  then have "N = x @ 0 # drop (length x + 1) N" by (metis append.assoc append_Cons append_Nil append_take_drop_id)
  moreover have "c_string (x @ 0 # r) = x" for r using x by (auto simp: c_string_def takeWhile_append)
  ultimately show ?thesis by metis
qed

lemma counters_arrive:
  assumes laws: "msgq_laws Q cap view" "0 < cap" "codec_laws pb_encode pb_decode" and enc: "encodes_counters NS DS pb_encode nm out"
    and nm: "0 \<notin> set nm"
  shows "subs_inv m \<Longrightarrow> table m (nm @ [0]) = Some h \<Longrightarrow> raw_handler_ext m = None \<Longrightarrow> view (event_queue m) = [] \<Longrightarrow>
    \<forall>k \<in> set ks. k < 1000000000 \<Longrightarrow>
    \<exists>m' ds. exec (receive Q pb_decode) m (map out ks) = Some m' \<and> calls m' = calls m @ handled h ds \<and>
      map (\<lambda>(N, D). (c_string N, c_string D)) ds = map (\<lambda>k. (nm, digits k)) ks"
proof (induction ks arbitrary: m)
  case (Cons k ks)
  have k: "k < 1000000000" using Cons.prems(5) by simp
  have len: "length (digits k) \<le> 9" by (rule digits_fit [OF k])
  have e: "pb_encode \<lparr>name = pb_of_string NS nm, data = pb_of_string DS (digits k)\<rparr> = Some (out k)"
    using enc k by (simp add: encodes_counters_def counter_event_def)
  have short: "length nm < 254" "length (digits k) < 254" "length nm + 1 < NS" "length (digits k) + 1 < DS"
    using enc len by (auto simp: encodes_counters_def)
  obtain m1 N D where m1: "receive Q pb_decode m (out k) = Some m1" "calls m1 = calls m @ [(K_work_submit, 0), (Evt_handler h N D, 0)]"
    "take (length nm + 1) N = nm @ [0]" "take (length (digits k) + 1) D = digits k @ [0]"
    "subs_inv m1" "table m1 = table m" "raw_handler_ext m1 = None" "view (event_queue m1) = []"
    using event_arrives [OF laws(1,3) Cons.prems(1-4) laws(2) short e] by (auto simp: receive_def)
  obtain m' ds where m': "exec (receive Q pb_decode) m1 (map out ks) = Some m'" "calls m' = calls m1 @ handled h ds"
    "map (\<lambda>(N, D). (c_string N, c_string D)) ds = map (\<lambda>k. (nm, digits k)) ks"
    using Cons.IH [OF m1(5) _ m1(7,8)] Cons.prems(2,5) m1(6) by auto
  have "c_string N = nm" "c_string D = digits k"
    using m1(3,4) nm digits_no_NUL by (auto intro: c_string_prefix)
  then show ?case
    using m1 m' by (intro exI [of _ m'] exI [of _ "(N, D) # ds"]) (simp add: handled_def)
qed (simp add: handled_def)


text \<open>One application's timer, and the other one's manager, whatever the roles.\<close>

lemma counters_reach_peer:
  assumes "msgq_laws Qh caph viewh" and "ble_is_connected (snd (sys a))" and "role_inv i (snd (sys a))"
    and "tx_counter a + n \<le> 1000000000" and "encodes_counters NS DS pb_encode nm out"
    and "codec_laws pb_encode pb_decode" and "msgq_laws Q cap view" and "0 < cap" and "0 \<notin> set nm"
    and "ble_setup led2 ncp settings q0 NS Em El nm b0 = Some b" and "subs_inv (fst (sys b0))" and "raw_handler_ext (fst (sys b0)) = None"
    and "view (event_queue (fst (sys b0))) = []" and "length (subscribers (fst (sys b0))) < BLE_SETTINGS_MAX_SUBSCRIPTIONS"
  shows "\<exists>a' m' ds outs. outs = map out [tx_counter a ..< tx_counter a + n] \<and>
    exec (\<lambda>a u. expiry NS DS pb_encode Qh is nm a) a (replicate n ()) = Some a' \<and>
    tx_counter a' = tx_counter a + n \<and> snd (sys a') = fold (role_write Qh is) outs (snd (sys a)) \<and>
    (\<exists>es. role_backlog viewh i (snd (sys a')) = role_backlog viewh i (snd (sys a)) @ es \<and> subseq es outs) \<and>
    exec (receive Q pb_decode) (fst (sys b)) outs = Some m' \<and> calls m' = calls (fst (sys b)) @ handled evt_cb ds \<and>
    map (\<lambda>(N, D). (c_string N, c_string D)) ds = map (\<lambda>k. (nm, digits k)) [tx_counter a ..< tx_counter a + n]"
proof -
  let ?ks = "[tx_counter a ..< tx_counter a + n]"
  have inv: "msgq_laws Qh caph viewh \<and> role_inv i (snd (sys a))" using assms(1,3) by simp
  obtain a' where a': "exec (\<lambda>a u. expiry NS DS pb_encode Qh is nm a) a (replicate n ()) = Some a'"
    "snd (sys a') = fold (role_write Qh is) (map out ?ks) (snd (sys a))" "tx_counter a' = tx_counter a + n"
    using role_link.expiries [OF assms(5) inv assms(2,4)] unfolding expiry_def by force
  have len: "length nm < 255" "length nm < NS" using assms(5) by (simp_all add: encodes_counters_def)
  have ks: "\<forall>k \<in> set ?ks. k < 1000000000" using assms(4) by auto
  have c: "subs_inv (fst (sys b))" "table (fst (sys b)) (nm @ [0]) = Some evt_cb" "raw_handler_ext (fst (sys b)) = None"
    "view (event_queue (fst (sys b))) = []"
    using ble_setup_manager [OF assms(10,11) len assms(14)] assms(12,13) by simp_all
  from counters_arrive [OF assms(7,8,6,5,9) c ks]
  obtain m' ds where "exec (receive Q pb_decode) (fst (sys b)) (map out ?ks) = Some m'" "calls m' = calls (fst (sys b)) @ handled evt_cb ds"
    "map (\<lambda>(N, D). (c_string N, c_string D)) ds = map (\<lambda>k. (nm, digits k)) ?ks"
    by blast
  moreover have "\<exists>es. role_backlog viewh i (snd (sys a')) = role_backlog viewh i (snd (sys a)) @ es \<and> subseq es (map out ?ks)"
    using role_link.writes_backlog [OF inv, of "is" "map out ?ks"] a'(2) by auto
  ultimately show ?thesis using a' by blast
qed

section \<open>Properties\<close>

text \<open>
  The pings of the hub reach the handler of the client. While a client is connected, the hub's timer
  writes one payload for every number from its counter on, which join the queue of the connection in this order, as many as have
  room; and whenever these payloads arrive at a client that has been set up, its handler is called once for each, in
  this order, with \<open>ping\<close> and the number in decimal.
\<close>

theorem pings_reach_client:
  assumes "msgq_laws Qh caph viewh" and "ble_is_connected (snd (sys hub))" and "role_inv i (snd (sys hub))"
    and "tx_counter hub + n \<le> 1000000000" and "encodes_counters NS DS pb_encode ping out"
    and "codec_laws pb_encode pb_decode" and "msgq_laws Q cap view" and "0 < cap"
    and "client_setup led2 ncp settings q0 NS E Em El c0 = Some c" and "subs_inv (fst (sys c0))" and "raw_handler_ext (fst (sys c0)) = None"
    and "view (event_queue (fst (sys c0))) = []" and "length (subscribers (fst (sys c0))) < BLE_SETTINGS_MAX_SUBSCRIPTIONS"
  shows "\<exists>hub' m' ds outs. outs = map out [tx_counter hub ..< tx_counter hub + n] \<and>
    exec (\<lambda>a u. hub_expiry NS DS pb_encode Qh is a) hub (replicate n ()) = Some hub' \<and>
    tx_counter hub' = tx_counter hub + n \<and> snd (sys hub') = fold (role_write Qh is) outs (snd (sys hub)) \<and>
    (\<exists>es. role_backlog viewh i (snd (sys hub')) = role_backlog viewh i (snd (sys hub)) @ es \<and> subseq es outs) \<and>
    exec (receive Q pb_decode) (fst (sys c)) outs = Some m' \<and> calls m' = calls (fst (sys c)) @ handled evt_cb ds \<and>
    map (\<lambda>(N, D). (c_string N, c_string D)) ds = map (\<lambda>k. (ping, digits k)) [tx_counter hub ..< tx_counter hub + n]"
proof -
  have "0 \<notin> set ping" by (simp add: ping_def of_char_def)
  from counters_reach_peer [OF assms(1-8) this assms(9) [unfolded client_setup_def]] assms(10-13)
  show ?thesis unfolding hub_expiry_def by (simp only: app_setup_sys)
qed

text \<open>
  In the same way the client's pongs reach the handler of a hub that has been set up.
\<close>

theorem pongs_reach_hub:
  assumes "msgq_laws Qc capc viewc" and "ble_is_connected (snd (sys client))" and "role_inv i (snd (sys client))"
    and "tx_counter client + n \<le> 1000000000" and "encodes_counters NS DS pb_encode pong out"
    and "codec_laws pb_encode pb_decode" and "msgq_laws Q cap view" and "0 < cap"
    and "hub_setup led2 ncp settings q0 NS E Em El h0 = Some h" and "subs_inv (fst (sys h0))" and "raw_handler_ext (fst (sys h0)) = None"
    and "view (event_queue (fst (sys h0))) = []" and "length (subscribers (fst (sys h0))) < BLE_SETTINGS_MAX_SUBSCRIPTIONS"
  shows "\<exists>client' m' ds outs. outs = map out [tx_counter client ..< tx_counter client + n] \<and>
    exec (\<lambda>a u. client_expiry NS DS pb_encode Qc is a) client (replicate n ()) = Some client' \<and>
    tx_counter client' = tx_counter client + n \<and> snd (sys client') = fold (role_write Qc is) outs (snd (sys client)) \<and>
    (\<exists>es. role_backlog viewc i (snd (sys client')) = role_backlog viewc i (snd (sys client)) @ es \<and> subseq es outs) \<and>
    exec (receive Q pb_decode) (fst (sys h)) outs = Some m' \<and> calls m' = calls (fst (sys h)) @ handled evt_cb ds \<and>
    map (\<lambda>(N, D). (c_string N, c_string D)) ds = map (\<lambda>k. (pong, digits k)) [tx_counter client ..< tx_counter client + n]"
proof -
  have "0 \<notin> set pong" by (simp add: pong_def of_char_def)
  from counters_reach_peer [OF assms(1-8) this assms(9) [unfolded hub_setup_def]] assms(10-13)
  show ?thesis unfolding client_expiry_def by (simp only: app_setup_sys)
qed

lemma replicate_10: "replicate 10 x = x # replicate 9 x"
  by (simp add: eval_nat_numeral)

text \<open>Subscribing with a free position and a block.\<close>

lemma subscribe_works:
  assumes "cfg P = default_config" and "length topic \<le> 16" and "None \<in> set (callbacks s)" and "malloc_ok P s"
  shows "\<exists>i s'. pyrinas_cloud_subscribe P junk topic f s = Some (0, s') \<and> first_free (callbacks s) = Some i \<and>
    callbacks s' = (callbacks s)[i := Some (nat (env P (calls s) K_malloc))] \<and> imei s' = imei s"
proof -
  obtain i where "first_free (callbacks s) = Some i" using assms(3) first_free_None by (metis not_None_eq)
  then show ?thesis
    using assms by (simp add: pyrinas_cloud_subscribe_def default_config_def malloc_ok_def ext_def Let_def)
qed

lemma sample_topics: "length cmd = 3" "length cfg_topic = 3" "0 \<notin> set cmd" "0 \<notin> set cfg_topic" "cmd \<noteq> cfg_topic"
  by (simp_all add: cmd_def cfg_topic_def of_char_def)

text \<open>
  After its \<open>setup\<close> on a client without subscriptions, the sample gets every message on its \<open>cmd\<close> and on its \<open>cfg\<close> topic:
  the callback is called once, with the name and the payload, and nothing else happens.
\<close>

theorem sample_receives_commands:
  assumes "cfg P = default_config" and "callbacks (s_cloud s) = replicate 10 None"
    and "malloc_ok P (s_cloud s)"
    and "malloc_ok P (snd (the (pyrinas_cloud_subscribe P junk1 cmd application_callback (s_cloud s))))"
  shows "\<exists>s'. sample_setup P junk1 junk2 s = Some s' \<and>
    (let c = s_cloud s'; t1 = full_topic_of (cfg P) (imei c) cmd; t2 = full_topic_of (cfg P) (imei c) cfg_topic in
     dispatch_loop (t1 @ rest) (length t1) d (callbacks c) c = Some (emit (App_cb application_callback cmd 3 d) c) \<and>
     dispatch_loop (t2 @ rest) (length t2) d (callbacks c) c = Some (emit (App_cb application_callback cfg_topic 3 d) c))"
proof -
  let ?s = "s_cloud s"
  obtain c1 i where c1: "pyrinas_cloud_subscribe P junk1 cmd application_callback ?s = Some (0, c1)" "first_free (callbacks ?s) = Some i"
    "callbacks c1 = (callbacks ?s)[i := Some (nat (env P (calls ?s) K_malloc))]" "imei c1 = imei ?s"
    using subscribe_works [OF assms(1) _ _ assms(3), of cmd junk1 application_callback] sample_topics assms(2) by auto
  have cb: "callbacks ?s = None # replicate 9 None" unfolding assms(2) by (rule replicate_10)
  then have "i = 0" using c1(2) by simp
  then have free: "None \<in> set (callbacks c1)" by (simp add: c1(3) cb)
  have m: "malloc_ok P c1" using assms(4) c1(1) by simp
  obtain c where c: "pyrinas_cloud_subscribe P junk2 cfg_topic application_callback c1 = Some (0, c)" "imei c = imei c1"
    using subscribe_works [OF assms(1) _ free m, of cfg_topic junk2 application_callback] sample_topics by auto
  have none: "Some a \<notin> set (callbacks ?s)" for a using assms(2) by simp
  have "table_inv ?s" using none by (simp add: table_inv_def)
  moreover have "set (entries ?s) = {}" using none by (intro equals0I) (simp add: entries_set)
  ultimately have e1: "table_inv c1" "set (entries c1) = {new_entry P junk1 cmd application_callback ?s}"
    using subscribe_entries [OF c1(1) _ assms(3)] by auto
  then have e: "table_inv c" "set (entries c) = {new_entry P junk2 cfg_topic application_callback c1, new_entry P junk1 cmd application_callback ?s}"
    using subscribe_entries [OF c(1) _ m] by auto
  let ?t = "full_topic_of (cfg P) (imei ?s)"
  have full: "?t x = prec IMEI_LEN (imei ?s) @ [47, 97, 112, 112, 47, 115, 117, 98, 47] @ x" if "length x \<le> 16" for x
    using that assms(1) by (simp add: default_full_topic)
  have nul: "0 \<notin> set (?t cmd)" "0 \<notin> set (?t cfg_topic)" using prec_no_NUL sample_topics by (auto simp: full)
  have ne: "take (length (?t cmd)) (?t cfg_topic) \<noteq> ?t cmd" "take (length (?t cfg_topic)) (?t cmd) \<noteq> ?t cfg_topic"
    using sample_topics by (simp_all add: full)
  have ok: "table_ok c" using e nul c1(4) by (auto simp: table_ok_def new_entry_def)
  have f: "find_entry (?t cmd) (entries c) = Some (new_entry P junk1 cmd application_callback ?s)"
    "find_entry (?t cfg_topic) (entries c) = Some (new_entry P junk2 cfg_topic application_callback c1)"
    using ne c1(4) by (auto intro!: find_entry_only simp: e(2) new_entry_def)
  obtain s' where "sample_setup P junk1 junk2 s = Some s'" "s_cloud s' = c"
    using c1(1) c(1) by (cases s) (simp add: sample_setup_def emit_def)
  then show ?thesis
    using f c(2) c1(4) message_goes [OF ok nul(1)] message_goes [OF ok nul(2)]
    by (intro exI [of _ s']) (simp add: Let_def new_entry_def sample_topics)
qed


section \<open>The properties at work\<close>

definition example_out :: "nat \<Rightarrow> item" where
  "example_out k = the (example_encode (counter_event 16 16 ping k))"

lemma example_encodes: "encodes_counters 16 16 example_encode ping example_out"
  by (simp add: encodes_counters_def example_out_def example_encode_def counter_event_def pb_of_string_def c_length_def ping_def)

definition hub_example :: "(ble_event list ble \<times> item list role_link) ping_app" where
  "hub_example = \<lparr>calls = [], count = [], tx_counter = 7, led_dev = 0, button_dev = 0, sys = (ble_example, Central_link central_up)\<rparr>"

definition client_example :: "(ble_event list ble \<times> item list role_link) ping_app" where
  "client_example = \<lparr>calls = [], count = [], tx_counter = 0, led_dev = 0, button_dev = 0, sys = (ble_example, Peripheral_link peripheral_example)\<rparr>"

theorem pings_reach_client_witness:
  "\<exists>c hub' m' ds. client_setup False False False [] 16 (\<lambda>h c. 1) (\<lambda>h c. 0) (\<lambda>h c. 0) client_example = Some c \<and>
     exec (\<lambda>a u. hub_expiry 16 16 example_encode (fifo 10) 64 a) hub_example [(), ()] = Some hub' \<and> tx_counter hub' = 9 \<and>
     exec (receive (fifo 20) example_decode) (fst (sys c)) [example_out 7, example_out 8] = Some m' \<and>
     calls m' = calls (fst (sys c)) @ handled evt_cb ds \<and>
     map (\<lambda>(N, D). (c_string N, c_string D)) ds = [(ping, [55]), (ping, [56])]"
proof -
  let ?m = "fst (sys client_example)" and ?l = "snd (sys hub_example)" and ?k = "tx_counter hub_example"
  have c0: "sys client_example = (ble_example, Peripheral_link peripheral_example)" by (simp add: client_example_def)
  have k: "?k = 7" by (simp add: hub_example_def)
  have up: "ble_is_connected ?l" "role_inv 0 ?l" "?k + 2 \<le> 1000000000"
    by (simp_all add: hub_example_def ble_central_is_connected_def central_up_def)
  have m: "subs_inv ?m" "raw_handler_ext ?m = None" "take 20 (event_queue ?m) = []" "length (subscribers ?m) < BLE_SETTINGS_MAX_SUBSCRIPTIONS"
    by (simp_all add: c0 ble_example_def subs_inv_def BLE_SETTINGS_MAX_SUBSCRIPTIONS_def)
  obtain c where c: "client_setup False False False [] 16 (\<lambda>h c. 1) (\<lambda>h c. 0) (\<lambda>h c. 0) client_example = Some c"
    by (simp add: client_setup_def ble_setup_def app_setup_sys c0 ble_stack_init_def initialize_led_def ext_def emit_def Let_def)
  have ks: "[7 ..< 7 + 2] = [7, 8 :: nat]" by (simp add: upt_rec)
  have dig: "digits 7 = [55]" "digits 8 = [56]" by (simp_all add: digits_def of_char_byte)
  have n2: "replicate 2 () = [(), ()]" by (simp add: numeral_2_eq_2)
  have "0 < (20 :: nat)" by simp
  from pings_reach_client [where ?is = 64, OF fifo_laws [of 10] up example_encodes example_codec_laws fifo_laws [of 20] this c m]
  obtain hub' m' ds where "exec (\<lambda>a u. hub_expiry 16 16 example_encode (fifo 10) 64 a) hub_example (replicate 2 ()) = Some hub'"
    "tx_counter hub' = ?k + 2" "exec (receive (fifo 20) example_decode) (fst (sys c)) (map example_out [?k ..< ?k + 2]) = Some m'"
    "calls m' = calls (fst (sys c)) @ handled evt_cb ds"
    "map (\<lambda>(N, D). (c_string N, c_string D)) ds = map (\<lambda>k. (ping, digits k)) [?k ..< ?k + 2]"
    by blast
  then have "exec (\<lambda>a u. hub_expiry 16 16 example_encode (fifo 10) 64 a) hub_example [(), ()] = Some hub'"
    "tx_counter hub' = 9" "exec (receive (fifo 20) example_decode) (fst (sys c)) [example_out 7, example_out 8] = Some m'"
    "calls m' = calls (fst (sys c)) @ handled evt_cb ds" "map (\<lambda>(N, D). (c_string N, c_string D)) ds = [(ping, [55]), (ping, [56])]"
    by (simp_all only: ks n2 k dig list.map)
  then show ?thesis using c by (intro exI conjI)
qed

text \<open>An allocator that never gives a block twice.\<close>

definition sample_platform :: "(ota_msg \<times> dec_pos) option platform" where
  "sample_platform = example_platform\<lparr>env := (\<lambda>h c. if c = K_malloc then 1000 + int (length h) else 0)\<rparr>"

definition sample_example :: sample where
  "sample_example = \<lparr>calls = [], s_cloud = example_cloud, s_worker = \<lparr>calls = [], main_tasks_q = 1\<rparr>\<rparr>"

theorem sample_receives_commands_witness:
  "\<exists>s'. sample_setup sample_platform [0] [0] sample_example = Some s' \<and>
     (let t = full_topic_of default_config (imei (s_cloud s')) cmd in
      dispatch_loop t (length t) [5] (callbacks (s_cloud s')) (s_cloud s') =
        Some (emit (App_cb application_callback cmd 3 [5]) (s_cloud s')))"
proof -
  have P: "cfg sample_platform = default_config" by (simp add: sample_platform_def example_platform_def)
  have s: "s_cloud sample_example = example_cloud" "callbacks example_cloud = replicate 10 None"
    by (simp_all add: sample_example_def example_cloud_def)
  have m1: "malloc_ok sample_platform example_cloud" by (simp add: malloc_ok_def sample_platform_def example_cloud_def)
  have "first_free (replicate 10 (None :: nat option)) = Some 0" by (simp add: replicate_10)
  then have m2: "malloc_ok sample_platform (snd (the (pyrinas_cloud_subscribe sample_platform [0] cmd application_callback example_cloud)))"
    using sample_topics by (simp add: pyrinas_cloud_subscribe_def P s(2) default_config_def malloc_ok_def sample_platform_def ext_def Let_def)
      (simp add: example_cloud_def)
  from sample_receives_commands [OF P, of sample_example "[0]" "[0]" "[]" "[5]"] m1 m2 s P show ?thesis
    by (auto simp: Let_def)
qed

end
