(* ===== verification/Ping_Network.thy ===== *)
theory Ping_Network
  imports Applications
begin

text \<open>
  The hub and the client together: two applications of \<open>Applications\<close>, each with its timer, its Bluetooth
  manager and its link, and the payloads in the air between them. Everything happens in any
  order: timers, work, connections and disconnections, the arrival and the loss of payloads.
\<close>

section \<open>The network\<close>

text \<open>
  A device: the sizes and the codec of its events, its two kinds of queue, its Bluetooth stack, the
  connection under which it knows its peer if it is a central, and the name of the event that its timer publishes: with
  \<open>ping\<close> the timer is \<open>hub_expiry\<close>, with \<open>pong\<close> it is \<open>client_expiry\<close>.
\<close>

record ('q, 'r) node =
  name_size :: nat
  data_size :: nat
  encode :: "ble_event \<Rightarrow> item option"
  decode :: "item \<Rightarrow> ble_event option"
  event_msgq :: "(ble_event, 'q) msgq"
  payload_msgq :: "(item, 'r) msgq"
  payload_size :: nat
  central_env :: "central_call env"
  peripheral_env :: "peripheral_call env"
  peer_conn :: nat
  publishes :: "byte list"

type_synonym ('q, 'r) app = "('q ble \<times> 'r role_link) ping_app"

datatype node_event = Timer | Manager_work | Link role_event

definition node_step :: "('q, 'r) node \<Rightarrow> ('q, 'r) app \<Rightarrow> node_event \<Rightarrow> ('q, 'r) app option" where
  "node_step C a e =
     (case e of
        Timer \<Rightarrow> expiry (name_size C) (data_size C) (encode C) (payload_msgq C) (payload_size C) (publishes C) a
      | Manager_work \<Rightarrow>
          (case Ble_Manager.bt_send_work_handler (event_msgq C) (fst (sys a)) of
             None \<Rightarrow> None
           | Some m \<Rightarrow> Some (a\<lparr>sys := (m, snd (sys a))\<rparr>))
      | Link f \<Rightarrow>
          (case role_step (payload_msgq C) (payload_size C) (central_env C) (peripheral_env C) (snd (sys a)) f of
             None \<Rightarrow> None
           | Some l \<Rightarrow> Some (a\<lparr>sys := (fst (sys a), l)\<rparr>)))"

text \<open>A payload arrives at the link, which calls the manager's handler if that is attached.\<close>

definition node_receive :: "('q, 'r) node \<Rightarrow> item \<Rightarrow> ('q, 'r) app \<Rightarrow> ('q, 'r) app" where
  "node_receive C d a =
     (let (m, l) = sys a in
      a\<lparr>sys := (if role_attached l then ble_evt_handler (event_msgq C) (decode C) d m else m, role_receive d l)\<rparr>)"

datatype side = Hub | Client

fun peer :: "side \<Rightarrow> side" where
  "peer Hub = Client"
| "peer Client = Hub"

text \<open>\<open>air s\<close> is what the radio of \<open>s\<close> has accepted and its peer has not got yet, the oldest first.\<close>

record ('q, 'r) network =
  apps :: "side \<Rightarrow> ('q, 'r) app"
  air :: "side \<Rightarrow> item list"

datatype net_event = At side node_event | Arrives side | Lost side nat

definition net_step :: "(side \<Rightarrow> ('q, 'r) node) \<Rightarrow> ('q, 'r) network \<Rightarrow> net_event \<Rightarrow> ('q, 'r) network option" where
  "net_step C n e =
     (case e of
        At s f \<Rightarrow>
          (case node_step (C s) (apps n s) f of
             None \<Rightarrow> None
           | Some a \<Rightarrow> Some (n\<lparr>apps := (apps n)(s := a),
               air := (air n)(s := air n s @ role_aired (peer_conn (C s)) (snd (sys (apps n s))) (snd (sys a)))\<rparr>))
      | Arrives s \<Rightarrow>
          (case air n s of
             [] \<Rightarrow> Some n
           | d # ds \<Rightarrow> Some (n\<lparr>apps := (apps n)(peer s := node_receive (C (peer s)) d (apps n (peer s))), air := (air n)(s := ds)\<rparr>))
      | Lost s k \<Rightarrow> Some (n\<lparr>air := (air n)(s := take k (air n s) @ drop (Suc k) (air n s))\<rparr>))"

text \<open>Payloads are written by the timer and received from the air only; what the Bluetooth stack promises is as in \<open>central_ok\<close>.\<close>

fun of_stack :: "role_event \<Rightarrow> bool" where
  "of_stack (Central_event e) = (case e of central_event.Write d \<Rightarrow> False | Data_received d \<Rightarrow> False | _ \<Rightarrow> True)"
| "of_stack (Peripheral_event e) = (case e of peripheral_event.Write d \<Rightarrow> False | Received d \<Rightarrow> False | _ \<Rightarrow> True)"

fun net_ok :: "(side \<Rightarrow> ('q, 'r) node) \<Rightarrow> ('q, 'r) network \<Rightarrow> net_event \<Rightarrow> bool" where
  "net_ok C n (At s (Link f)) = (of_stack f \<and> role_ok (central_env (C s)) (snd (sys (apps n s))) f)"
| "net_ok C n e = True"

text \<open>What the calls of a trace tell the application: the handler that is called, the name and the text.\<close>

fun heard1 :: "ble_call \<Rightarrow> (nat \<times> byte list \<times> byte list) list" where
  "heard1 (Evt_handler h N D) = [(h, c_string N, c_string D)]"
| "heard1 c = []"

definition heard :: "(ble_call \<times> int) list \<Rightarrow> (nat \<times> byte list \<times> byte list) list" where
  "heard tr = concat (map (heard1 \<circ> fst) tr)"

text \<open>
  The promises of the platform: the laws of the queues, and a codec whose encoder accepts the counters and whose decoder on the other side
  reads what the encoder wrote.
\<close>

definition node_laws :: "(side \<Rightarrow> ('q, 'r) node) \<Rightarrow> ('q \<Rightarrow> ble_event list) \<Rightarrow> ('r \<Rightarrow> item list) \<Rightarrow> side \<Rightarrow> (nat \<Rightarrow> item) \<Rightarrow> bool" where
  "node_laws C viewq viewr s out \<longleftrightarrow>
     (\<exists>cap. msgq_laws (payload_msgq (C s)) cap viewr \<and> 0 < cap) \<and>
     (\<exists>cap. msgq_laws (event_msgq (C (peer s))) cap viewq \<and> 0 < cap) \<and>
     encodes_counters (name_size (C s)) (data_size (C s)) (encode (C s)) (publishes (C s)) out \<and>
     codec_laws (encode (C s)) (decode (C (peer s))) \<and> 0 \<notin> set (publishes (C s))"

section \<open>What a device does\<close>

lemma peer_ne [simp]: "peer s \<noteq> s" "s \<noteq> peer s"
  by (cases s; simp)+

lemma peer_peer [simp]: "peer (peer s) = s"
  by (cases s) simp_all

lemma side_cases: "t = s \<or> t = peer s"
  by (cases s; cases t) simp_all

lemma app_sys [simp]:
  "sys (a\<lparr>sys := x\<rparr>) = x" "tx_counter (a\<lparr>sys := x\<rparr>) = tx_counter a"
  by simp_all

lemma node_receive_parts:
  "fst (sys (node_receive C d a)) = (if role_attached (snd (sys a)) then ble_evt_handler (event_msgq C) (decode C) d (fst (sys a)) else fst (sys a))"
  "snd (sys (node_receive C d a)) = role_receive d (snd (sys a))" "tx_counter (node_receive C d a) = tx_counter a"
  by (simp_all add: node_receive_def case_prod_beta Let_def)

lemma expiry_counts:
  "expiry NS DS pb_encode Q is nm a = Some a' \<Longrightarrow> tx_counter a \<le> tx_counter a'"
  by (auto simp: expiry_def my_expiry_function_def Let_def case_prod_beta split: if_splits)

lemma expiry_cases:
  assumes "expiry NS DS pb_encode Q is nm a = Some a'" and "encodes_counters NS DS pb_encode nm out" and "tx_counter a' \<le> 1000000000"
  obtains "\<not> ble_is_connected (snd (sys a))" "tx_counter a' = tx_counter a" "sys a' = sys a"
  | "ble_is_connected (snd (sys a))" "tx_counter a' = Suc (tx_counter a)"
      "sys a' = (fst (sys a), role_write Q is (out (tx_counter a)) (snd (sys a)))"
proof (cases "ble_is_connected (snd (sys a))")
  case True
  then have "tx_counter a' = Suc (tx_counter a)"
    "sys a' = (fst (sys a), ble_publish NS DS pb_encode (role_write Q is) nm (snprintf 10 (digits (tx_counter a))) (snd (sys a)))"
    using assms(1) by (auto simp: expiry_def my_expiry_function_def Let_def case_prod_beta split: if_splits)
  moreover have "tx_counter a < 1000000000" using calculation(1) assms(3) by simp
  ultimately show ?thesis using publish_counter [OF assms(2)] True by (intro that(2)) simp_all
qed (use assms(1) that(1) in \<open>auto simp: expiry_def my_expiry_function_def case_prod_beta\<close>)

text \<open>A write of the timer is a step of the link.\<close>

fun write_event :: "item \<Rightarrow> 'r role_link \<Rightarrow> role_event" where
  "write_event d (Central_link l) = Central_event (central_event.Write d)"
| "write_event d (Peripheral_link l) = Peripheral_event (peripheral_event.Write d)"

lemma role_write_step:
  "role_step Q is Ec Ep l (write_event d l) = Some (role_write Q is d l)" "role_ok Ec l (write_event d l)"
  "role_writes (write_event d l) = [d]"
  by (cases l; simp)+

lemma of_stack_writes: "of_stack f \<Longrightarrow> role_writes f = []"
  by (cases f) (auto split: central_event.splits peripheral_event.splits)

lemma role_receive_frame [simp]:
  "role_consistent view (role_receive d l) = role_consistent view l"
  "role_pending view c (role_receive d l) = role_pending view c l"
  "role_attached (role_receive d l) = role_attached l"
  "ble_is_connected (role_receive d l) = ble_is_connected l"
  subgoal by (cases l) (simp_all add: ble_data_received_def)
  subgoal by (cases l) (simp_all add: ble_data_received_def waiting_def split: option.split)
  subgoal by (cases l) (simp_all add: ble_data_received_def bt_receive_cb_def)
  subgoal by (cases l) (simp_all add: ble_data_received_def ble_central_is_connected_def ble_peripheral_is_connected_def)
  done

section \<open>The flow in one direction\<close>

lemma subseq_of_map: "subseq xs (map f ys) \<Longrightarrow> \<exists>zs. xs = map f zs \<and> subseq zs ys"
  by (auto simp: subseq_conv_nths nths_map)

text \<open>An event that carries the number \<open>k\<close>, and a manager that has been set up for the name.\<close>

definition carries :: "byte list \<Rightarrow> ble_event \<Rightarrow> nat \<Rightarrow> bool" where
  "carries nm e k \<longleftrightarrow> pb_wf (name e) \<and> pb_wf (data e) \<and> key (name e) = nm @ [0] \<and> key (data e) = digits k @ [0]"

definition manager_set :: "byte list \<Rightarrow> 'q ble \<Rightarrow> bool" where
  "manager_set nm m \<longleftrightarrow> subs_inv m \<and> table m (nm @ [0]) = Some evt_cb \<and> raw_handler_ext m = None"

text \<open>
  The numbers from \<open>k0\<close> on that the timer has published are, in this order and with some of them lost, heard by the application, in
  the manager's queue, in the air, and in the queue of the link.
\<close>

definition flowing ::
    "byte list \<Rightarrow> (nat \<Rightarrow> item) \<Rightarrow> ('q \<Rightarrow> ble_event list) \<Rightarrow> ('r \<Rightarrow> item list) \<Rightarrow> nat \<Rightarrow> nat \<Rightarrow> (nat \<times> byte list \<times> byte list) list \<Rightarrow>
     'r role_link \<Rightarrow> nat \<Rightarrow> item list \<Rightarrow> 'q ble \<Rightarrow> bool" where
  "flowing nm out viewq viewr c k0 h0 l tx ds m \<longleftrightarrow> role_consistent viewr l \<and> manager_set nm m \<and> k0 \<le> tx \<and>
     (\<exists>hs qs ks ws. subseq (hs @ qs @ ks @ ws) [k0 ..< tx] \<and> ds = map out ks \<and> role_pending viewr c l = map out ws \<and>
        list_all2 (carries nm) (viewq (event_queue m)) qs \<and>
        heard (calls m) = h0 @ map (\<lambda>k. (evt_cb, nm, digits k)) hs)"

lemma flowingI:
  "role_consistent viewr l \<Longrightarrow> manager_set nm m \<Longrightarrow> k0 \<le> tx \<Longrightarrow> subseq (hs @ qs @ ks @ ws) [k0 ..< tx] \<Longrightarrow> ds = map out ks \<Longrightarrow>
   role_pending viewr c l = map out ws \<Longrightarrow> list_all2 (carries nm) (viewq (event_queue m)) qs \<Longrightarrow>
   heard (calls m) = h0 @ map (\<lambda>k. (evt_cb, nm, digits k)) hs \<Longrightarrow> flowing nm out viewq viewr c k0 h0 l tx ds m"
  unfolding flowing_def by blast

lemma flowingE:
  assumes "flowing nm out viewq viewr c k0 h0 l tx ds m"
  obtains hs qs ks ws where "role_consistent viewr l" "manager_set nm m" "k0 \<le> tx" "subseq (hs @ qs @ ks @ ws) [k0 ..< tx]"
    "ds = map out ks" "role_pending viewr c l = map out ws" "list_all2 (carries nm) (viewq (event_queue m)) qs"
    "heard (calls m) = h0 @ map (\<lambda>k. (evt_cb, nm, digits k)) hs"
  using assms unfolding flowing_def by blast

text \<open>The link moves payloads to the air; with \<open>[out tx]\<close> written it counts on.\<close>

lemma flowing_write:
  assumes "flowing nm out viewq viewr c k0 h0 l tx ds m" and "role_consistent viewr l'"
    and "subseq (new @ role_pending viewr c l') (role_pending viewr c l @ map out [tx ..< tx'])" and "tx \<le> tx'"
  shows "flowing nm out viewq viewr c k0 h0 l' tx' (ds @ new) m"
  using assms(1)
proof (rule flowingE)
  fix hs qs ks ws
  assume f: "manager_set nm m" "k0 \<le> tx" "subseq (hs @ qs @ ks @ ws) [k0 ..< tx]" "ds = map out ks" "role_pending viewr c l = map out ws"
    "list_all2 (carries nm) (viewq (event_queue m)) qs" "heard (calls m) = h0 @ map (\<lambda>k. (evt_cb, nm, digits k)) hs"
  have "subseq (new @ role_pending viewr c l') (map out (ws @ [tx ..< tx']))" using assms(3) f(5) by simp
  then obtain zs where zs: "new @ role_pending viewr c l' = map out zs" "subseq zs (ws @ [tx ..< tx'])"
    using subseq_of_map by metis
  then obtain ks' ws' where split: "new = map out ks'" "role_pending viewr c l' = map out ws'" "zs = ks' @ ws'"
    by (metis map_eq_append_conv)
  have "subseq (hs @ qs @ ks @ zs) ((hs @ qs @ ks @ ws) @ [tx ..< tx'])" using zs(2) by (simp add: subseq_append')
  moreover have "subseq ((hs @ qs @ ks @ ws) @ [tx ..< tx']) ([k0 ..< tx] @ [tx ..< tx'])"
    using f(3) by (simp only: subseq_append)
  ultimately have "subseq (hs @ qs @ ks @ zs) ([k0 ..< tx] @ [tx ..< tx'])" by (rule subseq_order.order_trans)
  then have "subseq (hs @ qs @ (ks @ ks') @ ws') [k0 ..< tx']"
    using f(2) assms(4) upt_add_eq_append [of k0 tx "tx' - tx"] by (simp add: split(3))
  then show ?thesis
    using f assms(2,4) split by (intro flowingI [where hs = hs and qs = qs and ks = "ks @ ks'" and ws = ws']) simp_all
qed

lemma flowing_lost:
  assumes "flowing nm out viewq viewr c k0 h0 l tx ds m" and "subseq ds' ds"
  shows "flowing nm out viewq viewr c k0 h0 l tx ds' m"
  using assms(1)
proof (rule flowingE)
  fix hs qs ks ws
  assume f: "role_consistent viewr l" "manager_set nm m" "k0 \<le> tx" "subseq (hs @ qs @ ks @ ws) [k0 ..< tx]" "ds = map out ks"
    "role_pending viewr c l = map out ws" "list_all2 (carries nm) (viewq (event_queue m)) qs"
    "heard (calls m) = h0 @ map (\<lambda>k. (evt_cb, nm, digits k)) hs"
  obtain zs where zs: "ds' = map out zs" "subseq zs ks" using assms(2) f(5) subseq_of_map by metis
  then have "subseq (zs @ ws) (ks @ ws)" by simp
  then have "subseq (hs @ qs @ zs @ ws) (hs @ qs @ ks @ ws)" by (simp add: subseq_append')
  then have "subseq (hs @ qs @ zs @ ws) [k0 ..< tx]" using f(4) subseq_order.order_trans by blast
  then show ?thesis using f zs(1) by (intro flowingI) simp_all
qed

text \<open>A payload arrives at the manager: its event joins the queue, or is lost when there is no room.\<close>

lemma counter_decodes:
  assumes "codec_laws pb_encode pb_decode" and "encodes_counters NS DS pb_encode nm out" and "k < 1000000000"
  shows "out k \<noteq> [] \<and> (\<exists>e. pb_decode (out k) = Some e \<and> carries nm e k)"
proof -
  have enc: "pb_encode (counter_event NS DS nm k) = Some (out k)" "length nm < 254"
    using assms(2,3) by (auto simp: encodes_counters_def)
  have "length (digits k) \<le> 9" by (rule digits_fit [OF assms(3)])
  then have "c_bytes nm = nm @ [0]" "c_bytes (digits k) = digits k @ [0]" using enc(2) by (simp_all add: c_bytes_short)
  then show ?thesis
    using codec_lawsD [OF assms(1) enc(1)] by (auto simp: counter_event_def pb_of_string_wf carries_def)
qed

lemma subseq_mem: "subseq xs ys \<Longrightarrow> x \<in> set xs \<Longrightarrow> x \<in> set ys"
  by (meson subseq_order.order_trans subseq_singleton_left)

lemma flowing_arrives:
  assumes "flowing nm out viewq viewr c k0 h0 l tx (d # ds) m" and Q: "msgq_laws Q cap viewq" and "codec_laws pb_encode pb_decode"
    and "encodes_counters NS DS pb_encode nm out" and "tx \<le> 1000000000"
  shows "flowing nm out viewq viewr c k0 h0 l tx ds (ble_evt_handler Q pb_decode d m)"
  using assms(1)
proof (rule flowingE)
  fix hs qs ks ws
  assume f: "role_consistent viewr l" "manager_set nm m" "k0 \<le> tx" "subseq (hs @ qs @ ks @ ws) [k0 ..< tx]" "d # ds = map out ks"
    "role_pending viewr c l = map out ws" "list_all2 (carries nm) (viewq (event_queue m)) qs"
    "heard (calls m) = h0 @ map (\<lambda>k. (evt_cb, nm, digits k)) hs"
  obtain k ks' where k: "ks = k # ks'" "d = out k" "ds = map out ks'" using f(5) by (cases ks) auto
  have "k < 1000000000" using subseq_mem [OF f(4), of k] k(1) assms(5) by simp
  then obtain e where e: "d \<noteq> []" "pb_decode d = Some e" "carries nm e k"
    using counter_decodes [OF assms(3,4)] k(2) by blast
  define m' where "m' = emit K_work_submit (m\<lparr>event_queue := snd (k_msgq_put Q e (event_queue m))\<rparr>)"
  have m': "ble_evt_handler Q pb_decode d m = m'" using e(1,2) by (simp add: ble_evt_handler_def case_prod_beta m'_def)
  have same: "manager_set nm m'" "heard (calls m') = heard (calls m)"
    using f(2) by (simp_all add: m'_def emit_def manager_set_def subs_inv_def table_def heard_def)
  have queue: "viewq (event_queue m') = (if length (viewq (event_queue m)) < cap then viewq (event_queue m) @ [e] else viewq (event_queue m))"
    by (simp add: m'_def emit_def msgq_put_view [OF Q])
  show ?thesis unfolding m'
  proof (cases "length (viewq (event_queue m)) < cap")
    case True
    then have "list_all2 (carries nm) (viewq (event_queue m')) (qs @ [k])" using queue f(7) e(3) by (simp add: list_all2_appendI)
    then show "flowing nm out viewq viewr c k0 h0 l tx ds m'"
      using f k same by (intro flowingI [where hs = hs and qs = "qs @ [k]" and ks = ks' and ws = ws]) simp_all
  next
    case False
    have "subseq (hs @ qs @ ks' @ ws) (hs @ qs @ ks @ ws)" by (simp add: k(1) subseq_append' list_emb_Cons)
    then have "subseq (hs @ qs @ ks' @ ws) [k0 ..< tx]" using f(4) subseq_order.order_trans by blast
    then show "flowing nm out viewq viewr c k0 h0 l tx ds m'"
      using False queue f k same by (intro flowingI [where hs = hs and qs = qs and ks = ks' and ws = ws]) simp_all
  qed
qed

lemma flowing_receive [simp]:
  "flowing nm out viewq viewr c k0 h0 (role_receive d l) tx ds m = flowing nm out viewq viewr c k0 h0 l tx ds m"
  by (simp add: flowing_def)

text \<open>The manager's work lets the application hear everything that is in its queue.\<close>

lemma heard_append [simp]: "heard (t @ u) = heard t @ heard u"
  by (simp add: heard_def)

lemma heard_carried:
  assumes "manager_set nm m" and "0 \<notin> set nm" and "list_all2 (carries nm) es ks"
  shows "heard (concat (map (handler_calls m) es)) = map (\<lambda>k. (evt_cb, nm, digits k)) ks"
  using assms(3)
proof (induction rule: list_all2_induct)
  case (Cons e es k ks)
  have wf: "pb_wf (name e)" "pb_wf (data e)" "key (name e) = nm @ [0]" "key (data e) = digits k @ [0]"
    using Cons.hyps(1) by (simp_all add: carries_def)
  have "c_string (pb_bytes (name e)) = nm" "c_string (pb_bytes (data e)) = digits k"
    using key_prefix [OF wf(1,3)] key_prefix [OF wf(2,4)] assms(2) digits_no_NUL by (auto intro: c_string_prefix)
  moreover have "handler_calls m e = [(Evt_handler evt_cb (pb_bytes (name e)) (pb_bytes (data e)), 0)]"
    using assms(1) wf(3) by (simp add: handler_calls_def manager_set_def)
  ultimately show ?case using Cons.IH by (simp add: heard_def)
qed (simp add: heard_def)

lemma flowing_work:
  assumes "flowing nm out viewq viewr c k0 h0 l tx ds m" and Q: "msgq_laws Q cap viewq" and "0 \<notin> set nm"
    and "Ble_Manager.bt_send_work_handler Q m = Some m'"
  shows "flowing nm out viewq viewr c k0 h0 l tx ds m' \<and> viewq (event_queue m') = []"
  using assms(1)
proof (rule flowingE)
  fix hs qs ks ws
  assume f: "role_consistent viewr l" "manager_set nm m" "k0 \<le> tx" "subseq (hs @ qs @ ks @ ws) [k0 ..< tx]" "ds = map out ks"
    "role_pending viewr c l = map out ws" "list_all2 (carries nm) (viewq (event_queue m)) qs"
    "heard (calls m) = h0 @ map (\<lambda>k. (evt_cb, nm, digits k)) hs"
  have wf: "list_all (\<lambda>e. pb_wf (name e)) (viewq (event_queue m))"
    using f(7) by (auto simp: list_all2_conv_all_nth list_all_length carries_def)
  have "subs_inv m" using f(2) by (simp add: manager_set_def)
  from work_handler_drains [OF Q this wf] obtain q where
    q: "m' = m\<lparr>event_queue := q, calls := calls m @ concat (map (handler_calls m) (viewq (event_queue m)))\<rparr>" "viewq q = []"
    using assms(4) by auto
  have "manager_set nm m'" using f(2) by (simp add: q(1) manager_set_def subs_inv_def table_def)
  moreover have "heard (calls m') = h0 @ map (\<lambda>k. (evt_cb, nm, digits k)) (hs @ qs)"
    using f(8) heard_carried [OF f(2) assms(3) f(7)] by (simp add: q(1))
  ultimately show ?thesis
    using f q by (auto intro!: flowingI [where hs = "hs @ qs" and qs = "[]" and ks = ks and ws = ws])
qed

section \<open>The flow in a run of the network\<close>

definition flows ::
    "(side \<Rightarrow> ('q, 'r) node) \<Rightarrow> (nat \<Rightarrow> item) \<Rightarrow> ('q \<Rightarrow> ble_event list) \<Rightarrow> ('r \<Rightarrow> item list) \<Rightarrow> side \<Rightarrow> nat \<Rightarrow> (nat \<times> byte list \<times> byte list) list \<Rightarrow>
     ('q, 'r) network \<Rightarrow> bool" where
  "flows C out viewq viewr s k0 h0 n \<longleftrightarrow>
     flowing (publishes (C s)) out viewq viewr (peer_conn (C s)) k0 h0 (snd (sys (apps n s))) (tx_counter (apps n s)) (air n s)
       (fst (sys (apps n (peer s))))"

lemma node_step_counts: "node_step C a e = Some a' \<Longrightarrow> tx_counter a \<le> tx_counter a'"
  by (auto simp: node_step_def expiry_counts split: node_event.splits option.splits)

lemma net_step_counts: "net_step C n e = Some n' \<Longrightarrow> tx_counter (apps n s) \<le> tx_counter (apps n' s)"
  by (auto simp: net_step_def node_step_counts node_receive_parts split: net_event.splits option.splits list.splits)

lemma net_exec_counts: "exec (net_step C) n es = Some n' \<Longrightarrow> tx_counter (apps n s) \<le> tx_counter (apps n' s)"
  by (rule exec_lift [where A = UNIV and R = "\<lambda>x y. tx_counter (apps x s) \<le> tx_counter (apps y s)"])
    (auto intro: net_step_counts)

text \<open>What a device does of its own: to the payloads on their way from its link into the air, and to its manager.\<close>

lemma node_flow:
  assumes "node_step C a e = Some a'" and "\<And>f. e = Link f \<Longrightarrow> of_stack f \<and> role_ok (central_env C) (snd (sys a)) f"
    and "msgq_laws (payload_msgq C) cap viewr" and "role_consistent viewr (snd (sys a))"
    and "encodes_counters (name_size C) (data_size C) (encode C) (publishes C) out" and "tx_counter a' \<le> 1000000000"
  shows "role_consistent viewr (snd (sys a')) \<and>
    subseq (role_aired (peer_conn C) (snd (sys a)) (snd (sys a')) @ role_pending viewr (peer_conn C) (snd (sys a')))
      (role_pending viewr (peer_conn C) (snd (sys a)) @ map out [tx_counter a ..< tx_counter a'])"
proof -
  have step: "role_consistent viewr l' \<and> subseq (role_aired (peer_conn C) (snd (sys a)) l' @ role_pending viewr (peer_conn C) l')
      (role_pending viewr (peer_conn C) (snd (sys a)) @ role_writes f)"
    if "role_ok (central_env C) (snd (sys a)) f"
      "role_step (payload_msgq C) (payload_size C) (central_env C) (peripheral_env C) (snd (sys a)) f = Some l'" for f l'
    using role_flow [OF assms(3,4) that] .
  have none: "role_aired (peer_conn C) l l = []" for l :: "'b role_link" by (cases l) simp_all
  show ?thesis
  proof (cases e)
    case Timer
    then have "expiry (name_size C) (data_size C) (encode C) (payload_msgq C) (payload_size C) (publishes C) a = Some a'"
      using assms(1) by (simp add: node_step_def)
    from expiry_cases [OF this assms(5,6)] show ?thesis
    proof cases
      case 1
      then show ?thesis using assms(4) none by simp
    next
      case 2
      then show ?thesis
        using step [OF role_write_step(2,1)] by (simp add: role_write_step(3))
    qed
  next
    case Manager_work
    then show ?thesis using assms(1,4) none by (auto simp: node_step_def split: option.splits)
  next
    case (Link f)
    then show ?thesis
      using assms(1,2) step [of f] of_stack_writes [of f] by (auto simp: node_step_def split: option.splits)
  qed
qed

text \<open>The three kinds of step of the network.\<close>

lemma flows_at:
  assumes "net_step C n (At t f) = Some n'" and "net_ok C n (At t f)" and "node_laws C viewq viewr s out"
    and "tx_counter (apps n' s) \<le> 1000000000" and "flows C out viewq viewr s k0 h0 n"
  shows "flows C out viewq viewr s k0 h0 n'"
proof -
  obtain capr capq where laws: "msgq_laws (payload_msgq (C s)) capr viewr" "msgq_laws (event_msgq (C (peer s))) capq viewq"
    "encodes_counters (name_size (C s)) (data_size (C s)) (encode (C s)) (publishes (C s)) out" "0 \<notin> set (publishes (C s))"
    using assms(3) by (auto simp: node_laws_def)
  note flow = assms(5) [unfolded flows_def]
  obtain a where a: "node_step (C t) (apps n t) f = Some a" "apps n' = (apps n)(t := a)"
    "air n' = (air n)(t := air n t @ role_aired (peer_conn (C t)) (snd (sys (apps n t))) (snd (sys a)))"
    using assms(1) by (auto simp: net_step_def split: option.splits)
  consider "t = s" | "t = peer s" using side_cases by blast
  then show ?thesis
  proof cases
    case 1
    have c: "role_consistent viewr (snd (sys (apps n s)))" using flow by (simp add: flowing_def)
    have ok: "of_stack g \<and> role_ok (central_env (C s)) (snd (sys (apps n s))) g" if "f = Link g" for g
      using that assms(2) 1 by simp
    have tx: "tx_counter a \<le> 1000000000" using assms(4) a(2) 1 by simp
    note b = node_flow [OF a(1) [unfolded 1] ok laws(1) c laws(3) tx]
    show ?thesis
      using flowing_write [OF flow conjunct1 [OF b] conjunct2 [OF b]] node_step_counts [OF a(1)] by (simp add: flows_def a(2,3) 1)
  next
    case 2
    show ?thesis
    proof (cases f)
      case Manager_work
      then show ?thesis
        using a(1) flowing_work [OF flow laws(2,4)] by (auto simp: flows_def a(2,3) 2 node_step_def split: option.splits)
    qed (use flow a(1) in \<open>auto simp: flows_def a(2,3) 2 node_step_def expiry_def my_expiry_function_def Let_def case_prod_beta
          split: option.splits if_splits\<close>)
  qed
qed

lemma flows_arrives:
  assumes "net_step C n (Arrives t) = Some n'" and "node_laws C viewq viewr s out"
    and "tx_counter (apps n s) \<le> 1000000000" and "flows C out viewq viewr s k0 h0 n"
  shows "flows C out viewq viewr s k0 h0 n'"
proof (cases "air n t")
  case (Cons d ds)
  obtain cap where laws: "msgq_laws (event_msgq (C (peer s))) cap viewq" "codec_laws (encode (C s)) (decode (C (peer s)))"
    "encodes_counters (name_size (C s)) (data_size (C s)) (encode (C s)) (publishes (C s)) out"
    using assms(2) by (auto simp: node_laws_def)
  note flow = assms(4) [unfolded flows_def]
  consider "t = s" | "t = peer s" using side_cases by blast
  then show ?thesis
  proof cases
    case 1
    then show ?thesis
      using assms(1,3) Cons flow flowing_arrives [OF _ laws] flowing_lost [OF flow, of ds]
      by (auto simp: flows_def net_step_def node_receive_parts list_emb_Cons)
  next
    case 2
    then show ?thesis using assms(1) Cons flow by (auto simp: flows_def net_step_def node_receive_parts)
  qed
qed (use assms(1,4) in \<open>simp add: net_step_def\<close>)

lemma flows_lost:
  assumes "net_step C n (Lost t k) = Some n'" and "flows C out viewq viewr s k0 h0 n"
  shows "flows C out viewq viewr s k0 h0 n'"
proof -
  have "subseq (take k (air n s) @ drop (Suc k) (air n s)) (take k (air n s) @ drop k (air n s))"
    unfolding subseq_append' drop_Suc by (metis suffix_imp_subseq suffix_tl tl_drop)
  then show ?thesis
    using assms flowing_lost [OF assms(2) [unfolded flows_def]] by (auto simp: flows_def net_step_def)
qed

lemma flows_step:
  assumes "net_step C n e = Some n'" and "net_ok C n e" and "node_laws C viewq viewr s out"
    and "tx_counter (apps n' s) \<le> 1000000000" and "flows C out viewq viewr s k0 h0 n"
  shows "flows C out viewq viewr s k0 h0 n'"
proof -
  have "tx_counter (apps n s) \<le> 1000000000" using net_step_counts [OF assms(1), of s] assms(4) by simp
  then show ?thesis
    using flows_at [OF _ _ assms(3-5)] flows_arrives [OF _ assms(3) _ assms(5)] flows_lost [OF _ assms(5)] assms(1,2)
    by (cases e) simp_all
qed

lemma flows_exec:
  assumes "node_laws C viewq viewr s out"
  shows "exec (net_step C) n es = Some n' \<Longrightarrow> exec_ok (net_step C) (net_ok C) n es \<Longrightarrow> tx_counter (apps n' s) \<le> 1000000000 \<Longrightarrow>
    flows C out viewq viewr s k0 h0 n \<Longrightarrow> flows C out viewq viewr s k0 h0 n'"
proof (induction es arbitrary: n)
  case (Cons e es)
  obtain n1 where n1: "net_step C n e = Some n1" "exec (net_step C) n1 es = Some n'"
    using Cons.prems(1) by (auto split: option.splits)
  have "tx_counter (apps n1 s) \<le> 1000000000"
    using net_exec_counts [OF n1(2), of s] Cons.prems(3) by simp
  then have "flows C out viewq viewr s k0 h0 n1"
    using flows_step [OF n1(1) _ assms] Cons.prems(2,4) by simp
  then show ?case using Cons.IH [OF n1(2) _ Cons.prems(3)] Cons.prems(2) n1(1) by simp
qed simp

section \<open>Setting up\<close>

text \<open>
  An application that has not been set up: no subscriptions, no events, and a link in its initial state, without connections
  or payloads. \<open>q0\<close> is an empty queue.
\<close>

fun fresh_link :: "('r \<Rightarrow> item list) \<Rightarrow> 'r role_link \<Rightarrow> bool" where
  "fresh_link viewr (Peripheral_link l) = (viewr (peripheral.q l) = [])"
| "fresh_link viewr (Central_link l) = list_all (\<lambda>x. conn x = None \<and> \<not> ready x \<and> viewr (slot.q x) = []) (conns l)"

definition fresh_app :: "('q \<Rightarrow> ble_event list) \<Rightarrow> ('r \<Rightarrow> item list) \<Rightarrow> ('q, 'r) app \<Rightarrow> bool" where
  "fresh_app viewq viewr a \<longleftrightarrow> subscribers (fst (sys a)) = [] \<and> raw_handler_ext (fst (sys a)) = None \<and>
     viewq (event_queue (fst (sys a))) = [] \<and> fresh_link viewr (snd (sys a))"

lemma fresh_role_init:
  assumes "role_init q0 settings E l = Some l'" and "fresh_link viewr l" and "viewr q0 = []"
  shows "role_consistent viewr l' \<and> role_pending viewr c l' = [] \<and> role_attached l'"
proof (cases l)
  case (Peripheral_link p)
  then show ?thesis using assms by (auto simp: ble_peripheral_attach_handler_def ble_peripheral_init_def)
next
  case (Central_link a)
  then obtain err a' where a': "ble_central_init q0 settings E True (ble_central_attach_handler True a) = Some (err, a')" "l' = Central_link a'"
    using assms(1) by auto
  have "list_all (\<lambda>x. conn x = None \<and> \<not> ready x \<and> viewr (slot.q x) = []) (conns a')"
    using central_init_conns [OF a'(1)] assms(2,3) Central_link by (auto simp: ble_central_attach_handler_def list_all_iff)
  moreover have "central.evt_cb a'" using central_init_attached [OF a'(1)] by (simp add: ble_central_attach_handler_def)
  ultimately show ?thesis by (simp add: a'(2) idle_slots)
qed

text \<open>The network when both applications have been set up.\<close>

definition network_start :: "('q, 'r) app \<Rightarrow> ('q, 'r) app \<Rightarrow> ('q, 'r) network" where
  "network_start h c = \<lparr>apps = (\<lambda>s. case s of Hub \<Rightarrow> h | Client \<Rightarrow> c), air = (\<lambda>s. [])\<rparr>"

lemma setup_node:
  assumes "ble_setup led2 ncp settings q0 NS Em El nm a0 = Some a" and "fresh_app viewq viewr a0" and "viewr q0 = []"
    and "length nm < 255" and "length nm < NS"
  shows "manager_set nm (fst (sys a)) \<and> viewq (event_queue (fst (sys a))) = [] \<and> role_consistent viewr (snd (sys a)) \<and>
    role_pending viewr c (snd (sys a)) = [] \<and> role_attached (snd (sys a))"
proof -
  have fresh: "subs_inv (fst (sys a0))" "length (subscribers (fst (sys a0))) < BLE_SETTINGS_MAX_SUBSCRIPTIONS"
    "raw_handler_ext (fst (sys a0)) = None" "viewq (event_queue (fst (sys a0))) = []" "fresh_link viewr (snd (sys a0))"
    using assms(2) by (simp_all add: fresh_app_def subs_inv_def BLE_SETTINGS_MAX_SUBSCRIPTIONS_def)
  have "role_init q0 settings El (snd (sys a0)) = Some (snd (sys a))"
    using assms(1) by (auto simp: ble_setup_def split: option.splits)
  then show ?thesis
    using ble_setup_manager [OF assms(1) fresh(1) assms(4,5) fresh(2)] fresh_role_init [OF _ fresh(5) assms(3)] fresh(3,4)
    by (simp add: manager_set_def)
qed

lemma ping_pong: "length ping = 4" "length pong = 4"
  by (simp_all add: ping_def pong_def)

definition network_set_up ::
    "(side \<Rightarrow> ('q, 'r) node) \<Rightarrow> ('q \<Rightarrow> ble_event list) \<Rightarrow> ('r \<Rightarrow> item list) \<Rightarrow> ('q, 'r) app \<Rightarrow> ('q, 'r) app \<Rightarrow> bool" where
  "network_set_up C viewq viewr h c \<longleftrightarrow>
     publishes (C Hub) = ping \<and> publishes (C Client) = pong \<and>
     (\<exists>led2 ncp settings q0 E Em h0. fresh_app viewq viewr h0 \<and> viewr q0 = [] \<and>
        hub_setup led2 ncp settings q0 (name_size (C Hub)) E Em (central_env (C Hub)) h0 = Some h) \<and>
     (\<exists>led2 ncp settings q0 E Em c0. fresh_app viewq viewr c0 \<and> viewr q0 = [] \<and>
        client_setup led2 ncp settings q0 (name_size (C Client)) E Em (central_env (C Client)) c0 = Some c)"

lemma network_set_up_parts:
  assumes "network_set_up C viewq viewr h c" and "\<And>s. \<exists>out. node_laws C viewq viewr s out"
  shows "let n = network_start h c in manager_set (publishes (C s)) (fst (sys (apps n (peer s)))) \<and>
    viewq (event_queue (fst (sys (apps n s)))) = [] \<and> role_consistent viewr (snd (sys (apps n s))) \<and>
    role_pending viewr p (snd (sys (apps n s))) = [] \<and> role_attached (snd (sys (apps n s)))"
proof -
  have len: "4 < name_size (C s)" for s
    using assms(2) [of s] assms(1) ping_pong by (cases s) (auto simp: node_laws_def encodes_counters_def network_set_up_def)
  obtain led2 ncp settings q0 E Em h0 where h: "fresh_app viewq viewr (led_init E h0)" "viewr q0 = []"
    "ble_setup led2 ncp settings q0 (name_size (C Hub)) Em (central_env (C Hub)) pong (led_init E h0) = Some h"
    using assms(1) by (auto simp: network_set_up_def hub_setup_def fresh_app_def app_setup_sys)
  obtain led2' ncp' settings' q0' E' Em' c0 where c: "fresh_app viewq viewr (config_button E' c0)" "viewr q0' = []"
    "ble_setup led2' ncp' settings' q0' (name_size (C Client)) Em' (central_env (C Client)) ping (config_button E' c0) = Some c"
    using assms(1) by (auto simp: network_set_up_def client_setup_def fresh_app_def app_setup_sys)
  have names: "publishes (C Hub) = ping" "publishes (C Client) = pong" using assms(1) by (simp_all add: network_set_up_def)
  show ?thesis
    using setup_node [OF h(3,1,2)] setup_node [OF c(3,1,2)] len [of Hub] len [of Client] names
    by (cases s) (simp_all add: Let_def network_start_def ping_pong)
qed

lemma flows_start:
  assumes "network_set_up C viewq viewr h c" and "\<And>s. \<exists>out. node_laws C viewq viewr s out"
  shows "flows C out viewq viewr s (tx_counter (apps (network_start h c) s)) (heard (calls (fst (sys (apps (network_start h c) (peer s))))))
    (network_start h c)"
proof -
  let ?n = "network_start h c"
  have n: "manager_set (publishes (C s)) (fst (sys (apps ?n (peer s))))" "viewq (event_queue (fst (sys (apps ?n (peer s))))) = []"
    "role_consistent viewr (snd (sys (apps ?n s)))" "role_pending viewr (peer_conn (C s)) (snd (sys (apps ?n s))) = []"
    using network_set_up_parts [OF assms, of s "peer_conn (C s)"] network_set_up_parts [OF assms, of "peer s"]
    by (auto simp: Let_def)
  show ?thesis unfolding flows_def
    by (rule flowingI [where hs = "[]" and qs = "[]" and ks = "[]" and ws = "[]"]) (use n in \<open>simp_all add: network_start_def\<close>)
qed

section \<open>Property\<close>

text \<open>
  C3. Between the hub and the client nothing is invented, repeated, reordered or changed. From the moment both are set up, whatever happens in
  whatever order (timers, work, connections, disconnections, failing sends, full queues, payloads lost in the air), the handler of
  each hears the other's name with some of the numbers that the other's timer has counted, in decimal, in increasing order
  and each at most once, and nothing else.
\<close>

theorem network_delivers_in_order:
  assumes "\<forall>s. node_laws C viewq viewr s (out s)" and "network_set_up C viewq viewr h c"
    and "exec_ok (net_step C) (net_ok C) (network_start h c) es" and "exec (net_step C) (network_start h c) es = Some n"
    and "tx_counter (apps n s) \<le> 1000000000"
  shows "\<exists>ks. subseq ks [tx_counter (apps (network_start h c) s) ..< tx_counter (apps n s)] \<and>
    heard (calls (fst (sys (apps n (peer s))))) =
      heard (calls (fst (sys (apps (network_start h c) (peer s))))) @ map (\<lambda>k. (evt_cb, publishes (C s), digits k)) ks"
proof -
  have laws: "node_laws C viewq viewr s (out s)" for s using assms(1) by blast
  from flows_exec [OF laws assms(4,3,5) flows_start [OF assms(2)]] laws
  have "flows C (out s) viewq viewr s (tx_counter (apps (network_start h c) s))
    (heard (calls (fst (sys (apps (network_start h c) (peer s)))))) n" by blast
  then show ?thesis unfolding flows_def
  proof (rule flowingE)
    fix hs qs ks ws
    assume f: "subseq (hs @ qs @ ks @ ws) [tx_counter (apps (network_start h c) s) ..< tx_counter (apps n s)]"
      "heard (calls (fst (sys (apps n (peer s))))) = heard (calls (fst (sys (apps (network_start h c) (peer s))))) @
         map (\<lambda>k. (evt_cb, publishes (C s), digits k)) hs"
    have "subseq hs (hs @ qs @ ks @ ws)" by (rule subseq_rev_drop_many) simp
    then show ?thesis using f subseq_order.order_trans by blast
  qed
qed

end
