(* ===== verification/Ping_Delivery.thy ===== *)
theory Ping_Delivery
  imports Ping_Network
begin

text \<open>
  The hub and the client of \<open>Ping_Network\<close> while the connection is up and the radio takes and
  delivers what it is given: every number that the timer counts is heard.
\<close>

section \<open>One payload through a link that is up\<close>

text \<open>The link has a connection that is secured, of a central the one in slot \<open>i\<close> to \<open>c\<close>.\<close>

fun role_up :: "nat \<Rightarrow> nat \<Rightarrow> 'r role_link \<Rightarrow> bool" where
  "role_up i c (Central_link l) = up i c l"
| "role_up i c (Peripheral_link l) = (m_ready l \<and> current_conn l \<noteq> None)"

fun is_central :: "'r role_link \<Rightarrow> bool" where
  "is_central (Central_link l) = True"
| "is_central (Peripheral_link l) = False"

text \<open>The send work of a role, and the confirmation that its payload has been sent.\<close>

definition work_event :: "bool \<Rightarrow> role_event" where
  "work_event b = (if b then Central_event central_event.Send_work else Peripheral_event peripheral_event.Send_work)"

definition sent_event :: "bool \<Rightarrow> nat \<Rightarrow> role_event" where
  "sent_event b i = (if b then Central_event (Data_sent i) else Peripheral_event Sent)"

definition radio_accepts :: "central_call env \<Rightarrow> peripheral_call env \<Rightarrow> bool" where
  "radio_accepts Ec Ep \<longleftrightarrow> (\<forall>h i c d. Ec h (Nus_c_send i c d) = 0) \<and> (\<forall>h c d. Ep h (Nus_send c d) = 0)"

lemma role_up_connected: "role_up i c l \<Longrightarrow> ble_is_connected l"
  by (cases l) (auto simp: up_def connected_ex ble_peripheral_is_connected_def)

lemma role_up_pending:
  assumes "role_consistent view l" and "role_up i c l"
  shows "role_pending view c l = (case l of Central_link a \<Rightarrow> queued view i a | Peripheral_link b \<Rightarrow> view (peripheral.q b))"
  using assms by (cases l) (simp_all add: waiting_up)

lemma sends_aired:
  assumes "radio_accepts Ec Ep"
  shows "\<exists>t. calls (fold (send_slot Q Ec) js s) = calls s @ t \<and> central_aired c t = Ble_Central.sends c t"
proof (induction js arbitrary: s)
  case (Cons j js)
  have acc: "Ec h (Nus_c_send k b d) = 0" for h k b d using assms by (simp add: radio_accepts_def)
  obtain t where t: "calls (send_slot Q Ec j s) = calls s @ t" "central_aired c t = Ble_Central.sends c t"
  proof (cases "calls (send_slot Q Ec j s) = calls s")
    case True
    then show ?thesis by (intro that [of "[]"]) simp_all
  next
    case False
    then obtain b d where "calls (send_slot Q Ec j s) = calls s @ [(Nus_c_send j b d, 0)]"
      by (auto simp: send_slot_def Let_def case_prod_beta acc split: option.splits if_splits)
    then show ?thesis by (rule that) (simp split: option.split)
  qed
  obtain u where u: "calls (fold (send_slot Q Ec) js (send_slot Q Ec j s)) = calls (send_slot Q Ec j s) @ u"
    "central_aired c u = Ble_Central.sends c u"
    using Cons.IH by blast
  have "central_aired c (t @ u) = central_aired c t @ central_aired c u" for t u
    by (induction c t rule: central_aired.induct) auto
  then show ?case using t u by (intro exI [of _ "t @ u"]) simp
qed (simp add: exI [of _ "[]"])

lemma role_writes_one:
  assumes Q: "msgq_laws Q cap view" "0 < cap" and l: "role_consistent view l" "role_up i c l" "role_pending view c l = []"
    and "length d \<le> is"
  shows "role_consistent view (role_write Q is d l) \<and> role_up i c (role_write Q is d l) \<and> role_pending view c (role_write Q is d l) = [d] \<and>
    role_aired c l (role_write Q is d l) = [] \<and> is_central (role_write Q is d l) = is_central l"
proof (cases l)
  case (Central_link a)
  have up: "up i c (ble_central_write Q is d a)" using l(2) Central_link by (auto simp: up_def write_conns)
  have c: "role_consistent view (role_write Q is d l)"
    using role_flow [OF Q(1) l(1) role_write_step(2,1)] by blast
  then have "waiting view c (ble_central_write Q is d a) = queued view i (ble_central_write Q is d a)"
    using waiting_up [OF _ up] Central_link by simp
  also have "\<dots> = [d]"
    using l(2,3) role_up_pending [OF l(1,2)] Central_link assms(6) Q by (auto simp: up_def write_conns msgq_put_view [OF Q(1)])
  finally show ?thesis using c up Central_link by (auto simp: ble_central_write_def)
next
  case (Peripheral_link b)
  then show ?thesis
    using l assms(6) Q(2) by (auto simp: msgq_put_view [OF Q(1)] ble_peripheral_write_def Let_def case_prod_beta)
qed

lemma role_sends_one:
  assumes Q: "msgq_laws Q cap view" and l: "role_consistent view l" "role_up i c l" "role_pending view c l = [d]"
    and "radio_accepts Ec Ep"
  shows "\<exists>l'. role_step Q is Ec Ep l (work_event (is_central l)) = Some l' \<and> role_consistent view l' \<and> role_up i c l' \<and>
    role_pending view c l' = [] \<and> role_aired c l l' = [d] \<and> is_central l' = is_central l"
proof (cases l)
  case (Central_link a)
  let ?a = "Ble_Central.bt_send_work_handler Q Ec a"
  have inv: "central_inv view a" "up i c a" "queued view i a = [d]"
    using l Central_link role_up_pending [OF l(1,2)] by simp_all
  note s = send_work_up [OF Q inv(1,2), of Ec]
  have inv': "central_inv view ?a" by (rule bt_send_work_inv [OF inv(1)])
  obtain t where t: "calls ?a = calls a @ t" "central_aired c t = Ble_Central.sends c t"
    using sends_aired [OF assms(5)] unfolding Ble_Central.bt_send_work_handler_def by blast
  have "central_aired c t = [d]" using s(3) t inv(3) by simp
  then show ?thesis
    using Central_link inv' s(1,2) inv(3) t(1) waiting_up [OF inv' s(1)] by (simp add: work_event_def)
next
  case (Peripheral_link b)
  obtain x where x: "current_conn b = Some x" using l(2) Peripheral_link by auto
  have "view (peripheral.q b) = [d]" using l(3) Peripheral_link by simp
  then have "fst (k_msgq_get Q (peripheral.q b)) = Some d" "view (snd (k_msgq_get Q (peripheral.q b))) = []"
    by (simp_all add: msgq_get_item [OF Q] msgq_get_view [OF Q])
  moreover have "Ep h (Nus_send x d) = 0" for h using assms(5) by (simp add: radio_accepts_def)
  ultimately show ?thesis
    using Peripheral_link l(2) x by (simp add: work_event_def Ble_Peripheral.bt_send_work_handler_def Let_def case_prod_beta)
qed

lemma role_confirmed:
  assumes Q: "msgq_laws Q cap view" and l: "role_consistent view l" "role_up i c l" "role_pending view c l = []"
  shows "role_step Q is Ec Ep l (sent_event (is_central l) i) = Some l"
proof (cases l)
  case (Central_link a)
  then show ?thesis
    using l role_up_pending [OF l(1,2)] msgq_used [OF Q] by (simp add: sent_event_def ble_data_sent_def)
next
  case (Peripheral_link b)
  then show ?thesis using l(3) msgq_used [OF Q] by (simp add: sent_event_def bt_sent_cb_def)
qed

section \<open>One number through the network\<close>

text \<open>
  The link of \<open>s\<close> is up, the application on the other side has been set up; \<open>ps\<close> waits in the link, \<open>ds\<close> is in the air, \<open>es\<close> waits in
  the manager on the other side.
\<close>

definition under_way ::
    "(side \<Rightarrow> ('q, 'r) node) \<Rightarrow> ('q \<Rightarrow> ble_event list) \<Rightarrow> ('r \<Rightarrow> item list) \<Rightarrow> side \<Rightarrow> nat \<Rightarrow> bool \<Rightarrow> ('q, 'r) network \<Rightarrow>
     item list \<Rightarrow> item list \<Rightarrow> ble_event list \<Rightarrow> bool" where
  "under_way C viewq viewr s i b n ps ds es \<longleftrightarrow>
     (let l = snd (sys (apps n s)); m = fst (sys (apps n (peer s))) in
      is_central l = b \<and> role_consistent viewr l \<and> role_up i (peer_conn (C s)) l \<and> role_pending viewr (peer_conn (C s)) l = ps \<and>
      air n s = ds \<and> manager_set (publishes (C s)) m \<and> viewq (event_queue m) = es \<and> role_attached (snd (sys (apps n (peer s)))))"

text \<open>What the counter of \<open>s\<close> is and what the other side has heard.\<close>

definition told :: "side \<Rightarrow> ('q, 'r) network \<Rightarrow> nat \<times> (nat \<times> byte list \<times> byte list) list" where
  "told s n = (tx_counter (apps n s), heard (calls (fst (sys (apps n (peer s))))))"

text \<open>The timer, the send work, the arrival, the confirmation, and the work of the manager on the other side.\<close>

definition ping_round :: "side \<Rightarrow> nat \<Rightarrow> bool \<Rightarrow> net_event list" where
  "ping_round s i b = [At s Timer, At s (Link (work_event b)), Arrives s, At s (Link (sent_event b i)), At (peer s) Manager_work]"

lemma round_ok: "exec_ok (net_step C) (net_ok C) n (ping_round s i b)"
proof (rule exec_ok_always)
  have "role_ok E l (work_event b)" "role_ok E l (sent_event b i)" for E and l :: "'x role_link"
    by (cases l; simp add: work_event_def sent_event_def)+
  then show "\<forall>e \<in> set (ping_round s i b). \<forall>n. net_ok C n e"
    by (auto simp: ping_round_def) (auto simp: work_event_def sent_event_def)
qed

lemma timer_writes:
  assumes "encodes_counters (name_size C) (data_size C) (encode C) (publishes C) out" and "ble_is_connected (snd (sys a))"
    and "tx_counter a < 1000000000"
  shows "\<exists>a'. node_step C a Timer = Some a' \<and> tx_counter a' = Suc (tx_counter a) \<and> fst (sys a') = fst (sys a) \<and>
    snd (sys a') = role_write (payload_msgq C) (payload_size C) (out (tx_counter a)) (snd (sys a))"
  using assms publish_counter [OF assms(1), of "tx_counter a"]
  by (simp add: node_step_def expiry_def my_expiry_function_def INT_MAX_def case_prod_beta Let_def)

lemma link_works:
  assumes "role_step (payload_msgq C) (payload_size C) (central_env C) (peripheral_env C) (snd (sys a)) f = Some l"
  shows "\<exists>a'. node_step C a (Link f) = Some a' \<and> tx_counter a' = tx_counter a \<and> sys a' = (fst (sys a), l)"
  using assms by (simp add: node_step_def)

lemma manager_works:
  assumes "manager_set nm m" and Q: "msgq_laws Q cap viewq" and "0 \<notin> set nm" and "viewq (event_queue m) = [e]" and "carries nm e k"
  shows "\<exists>m'. Ble_Manager.bt_send_work_handler Q m = Some m' \<and> manager_set nm m' \<and> viewq (event_queue m') = [] \<and>
    heard (calls m') = heard (calls m) @ [(evt_cb, nm, digits k)]"
proof -
  have "subs_inv m" "list_all (\<lambda>e. pb_wf (name e)) (viewq (event_queue m))"
    using assms(1,4,5) by (simp_all add: manager_set_def carries_def)
  from work_handler_drains [OF Q this] obtain q where
    q: "Ble_Manager.bt_send_work_handler Q m = Some (m\<lparr>event_queue := q, calls := calls m @ concat (map (handler_calls m) [e])\<rparr>)" "viewq q = []"
    using assms(4) by auto
  then show ?thesis
    using heard_carried [OF assms(1,3), of "[e]" "[k]"] assms(1,5) by (simp add: manager_set_def subs_inv_def table_def)
qed

lemma step_timer:
  assumes "under_way C viewq viewr s i b n [] [] es" and "node_laws C viewq viewr s out"
    and "tx_counter (apps n s) < 1000000000" and "length (out (tx_counter (apps n s))) \<le> payload_size (C s)"
  shows "\<exists>n'. net_step C n (At s Timer) = Some n' \<and> under_way C viewq viewr s i b n' [out (tx_counter (apps n s))] [] es \<and>
    told s n' = (Suc (tx_counter (apps n s)), snd (told s n))"
proof -
  let ?l = "snd (sys (apps n s))" and ?k = "tx_counter (apps n s)"
  obtain cap where laws: "msgq_laws (payload_msgq (C s)) cap viewr" "0 < cap"
    "encodes_counters (name_size (C s)) (data_size (C s)) (encode (C s)) (publishes (C s)) out"
    using assms(2) by (auto simp: node_laws_def)
  have l: "role_consistent viewr ?l" "role_up i (peer_conn (C s)) ?l" "role_pending viewr (peer_conn (C s)) ?l = []"
    using assms(1) by (simp_all add: under_way_def Let_def)
  obtain a where a: "node_step (C s) (apps n s) Timer = Some a" "tx_counter a = Suc ?k" "fst (sys a) = fst (sys (apps n s))"
    "snd (sys a) = role_write (payload_msgq (C s)) (payload_size (C s)) (out ?k) ?l"
    using timer_writes [OF laws(3) role_up_connected [OF l(2)] assms(3)] by blast
  show ?thesis
    using a(1) assms(1) role_writes_one [OF laws(1,2) l assms(4)] by (simp add: net_step_def under_way_def told_def Let_def a(2-))
qed

lemma step_work:
  assumes "under_way C viewq viewr s i b n [d] [] es" and "node_laws C viewq viewr s out"
    and "radio_accepts (central_env (C s)) (peripheral_env (C s))"
  shows "\<exists>n'. net_step C n (At s (Link (work_event b))) = Some n' \<and> under_way C viewq viewr s i b n' [] [d] es \<and> told s n' = told s n"
proof -
  let ?l = "snd (sys (apps n s))"
  obtain cap where laws: "msgq_laws (payload_msgq (C s)) cap viewr" using assms(2) by (auto simp: node_laws_def)
  have l: "role_consistent viewr ?l" "role_up i (peer_conn (C s)) ?l" "role_pending viewr (peer_conn (C s)) ?l = [d]" "is_central ?l = b"
    using assms(1) by (simp_all add: under_way_def Let_def)
  obtain l' where l': "role_step (payload_msgq (C s)) (payload_size (C s)) (central_env (C s)) (peripheral_env (C s)) ?l (work_event b) = Some l'"
    "role_consistent viewr l'" "role_up i (peer_conn (C s)) l'" "role_pending viewr (peer_conn (C s)) l' = []"
    "role_aired (peer_conn (C s)) ?l l' = [d]" "is_central l' = b"
    using role_sends_one [OF laws l(1-3) assms(3), unfolded l(4)] by blast
  obtain a where "node_step (C s) (apps n s) (Link (work_event b)) = Some a" "tx_counter a = tx_counter (apps n s)"
    "sys a = (fst (sys (apps n s)), l')"
    using link_works [OF l'(1)] by blast
  then show ?thesis using assms(1) l'(2-) by (simp add: net_step_def under_way_def told_def Let_def)
qed

lemma step_arrives:
  assumes "under_way C viewq viewr s i b n [] [out k] []" and "node_laws C viewq viewr s out" and "k < 1000000000"
  shows "\<exists>n' e. net_step C n (Arrives s) = Some n' \<and> carries (publishes (C s)) e k \<and> under_way C viewq viewr s i b n' [] [] [e] \<and> told s n' = told s n"
proof -
  let ?m = "fst (sys (apps n (peer s)))"
  obtain cap where Q: "msgq_laws (event_msgq (C (peer s))) cap viewq" "0 < cap" using assms(2) by (auto simp: node_laws_def)
  have "codec_laws (encode (C s)) (decode (C (peer s)))" "encodes_counters (name_size (C s)) (data_size (C s)) (encode (C s)) (publishes (C s)) out"
    using assms(2) by (simp_all add: node_laws_def)
  from counter_decodes [OF this assms(3)] obtain e
    where e: "out k \<noteq> []" "decode (C (peer s)) (out k) = Some e" "carries (publishes (C s)) e k" by blast
  define m where "m = emit K_work_submit (?m\<lparr>event_queue := snd (k_msgq_put (event_msgq (C (peer s))) e (event_queue ?m))\<rparr>)"
  have m: "ble_evt_handler (event_msgq (C (peer s))) (decode (C (peer s))) (out k) ?m = m"
    using e(1,2) by (simp add: ble_evt_handler_def case_prod_beta m_def)
  have "viewq (event_queue ?m) = []" "manager_set (publishes (C s)) ?m" using assms(1) by (simp_all add: under_way_def Let_def)
  then have "viewq (event_queue m) = [e]" "manager_set (publishes (C s)) m" "heard (calls m) = heard (calls ?m)"
    using Q(2) by (simp_all add: m_def emit_def msgq_put_view [OF Q(1)] manager_set_def subs_inv_def table_def heard_def)
  then show ?thesis
    using assms(1) e(3) by (simp add: net_step_def under_way_def told_def Let_def node_receive_parts m)
qed

lemma step_confirmed:
  assumes "under_way C viewq viewr s i b n [] [] es" and "node_laws C viewq viewr s out"
  shows "\<exists>n'. net_step C n (At s (Link (sent_event b i))) = Some n' \<and> under_way C viewq viewr s i b n' [] [] es \<and> told s n' = told s n"
proof -
  let ?l = "snd (sys (apps n s))"
  obtain cap where laws: "msgq_laws (payload_msgq (C s)) cap viewr" using assms(2) by (auto simp: node_laws_def)
  have l: "role_consistent viewr ?l" "role_up i (peer_conn (C s)) ?l" "role_pending viewr (peer_conn (C s)) ?l = []" "is_central ?l = b"
    using assms(1) by (simp_all add: under_way_def Let_def)
  obtain a where "node_step (C s) (apps n s) (Link (sent_event b i)) = Some a" "tx_counter a = tx_counter (apps n s)"
    "sys a = (fst (sys (apps n s)), ?l)"
    using link_works [OF role_confirmed [OF laws l(1-3)]] l(4) by blast
  moreover have "role_aired (peer_conn (C s)) ?l ?l = []" by (cases ?l) simp_all
  ultimately show ?thesis using assms(1) by (simp add: net_step_def under_way_def told_def Let_def)
qed

lemma step_manager:
  assumes "under_way C viewq viewr s i b n [] [] [e]" and "node_laws C viewq viewr s out" and "carries (publishes (C s)) e k"
  shows "\<exists>n'. net_step C n (At (peer s) Manager_work) = Some n' \<and> under_way C viewq viewr s i b n' [] [] [] \<and>
    told s n' = (fst (told s n), snd (told s n) @ [(evt_cb, publishes (C s), digits k)])"
proof -
  let ?m = "fst (sys (apps n (peer s)))"
  obtain cap where Q: "msgq_laws (event_msgq (C (peer s))) cap viewq" "0 \<notin> set (publishes (C s))" using assms(2) by (auto simp: node_laws_def)
  have m: "manager_set (publishes (C s)) ?m" "viewq (event_queue ?m) = [e]" using assms(1) by (simp_all add: under_way_def Let_def)
  obtain m' where "Ble_Manager.bt_send_work_handler (event_msgq (C (peer s))) ?m = Some m'" "manager_set (publishes (C s)) m'"
    "viewq (event_queue m') = []" "heard (calls m') = heard (calls ?m) @ [(evt_cb, publishes (C s), digits k)]"
    using manager_works [OF m(1) Q m(2) assms(3)] by blast
  then show ?thesis using assms(1) by (simp add: net_step_def node_step_def under_way_def told_def Let_def)
qed

lemma round_delivers:
  assumes "under_way C viewq viewr s i b n [] [] []" and "node_laws C viewq viewr s out"
    and "radio_accepts (central_env (C s)) (peripheral_env (C s))"
    and "fst (told s n) < 1000000000" and "length (out (fst (told s n))) \<le> payload_size (C s)"
  shows "\<exists>n'. exec (net_step C) n (ping_round s i b) = Some n' \<and> under_way C viewq viewr s i b n' [] [] [] \<and>
    told s n' = (Suc (fst (told s n)), snd (told s n) @ [(evt_cb, publishes (C s), digits (fst (told s n)))])"
proof -
  let ?k = "fst (told s n)"
  have k: "tx_counter (apps n s) = ?k" by (simp add: told_def)
  obtain n1 where n1: "net_step C n (At s Timer) = Some n1" "under_way C viewq viewr s i b n1 [out ?k] [] []"
    "told s n1 = (Suc ?k, snd (told s n))"
    using step_timer [OF assms(1,2), unfolded k, OF assms(4,5)] by blast
  obtain n2 where n2: "net_step C n1 (At s (Link (work_event b))) = Some n2" "under_way C viewq viewr s i b n2 [] [out ?k] []" "told s n2 = told s n1"
    using step_work [OF n1(2) assms(2,3)] by blast
  obtain n3 e where n3: "net_step C n2 (Arrives s) = Some n3" "carries (publishes (C s)) e ?k" "under_way C viewq viewr s i b n3 [] [] [e]"
    "told s n3 = told s n2"
    using step_arrives [OF n2(2) assms(2,4)] by blast
  obtain n4 where n4: "net_step C n3 (At s (Link (sent_event b i))) = Some n4" "under_way C viewq viewr s i b n4 [] [] [e]" "told s n4 = told s n3"
    using step_confirmed [OF n3(3) assms(2)] by blast
  obtain n5 where "net_step C n4 (At (peer s) Manager_work) = Some n5" "under_way C viewq viewr s i b n5 [] [] []"
    "told s n5 = (fst (told s n4), snd (told s n4) @ [(evt_cb, publishes (C s), digits ?k)])"
    using step_manager [OF n4(2) assms(2) n3(2)] by blast
  then show ?thesis using n1 n2 n3 n4 by (simp add: ping_round_def)
qed

lemma rounds_deliver:
  assumes "node_laws C viewq viewr s out" and "radio_accepts (central_env (C s)) (peripheral_env (C s))"
    and "\<forall>k < 1000000000. length (out k) \<le> payload_size (C s)"
  shows "under_way C viewq viewr s i b n [] [] [] \<Longrightarrow> told s n = (k, h) \<Longrightarrow> k + m \<le> 1000000000 \<Longrightarrow>
    \<exists>n'. exec (net_step C) n (concat (replicate m (ping_round s i b))) = Some n' \<and> under_way C viewq viewr s i b n' [] [] [] \<and>
      told s n' = (k + m, h @ map (\<lambda>k. (evt_cb, publishes (C s), digits k)) [k ..< k + m])"
proof (induction m arbitrary: n k h)
  case (Suc m)
  have k: "fst (told s n) < 1000000000" "length (out (fst (told s n))) \<le> payload_size (C s)" using Suc.prems(2,3) assms(3) by auto
  obtain n1 where n1: "exec (net_step C) n (ping_round s i b) = Some n1" "under_way C viewq viewr s i b n1 [] [] []"
    "told s n1 = (Suc k, h @ [(evt_cb, publishes (C s), digits k)])"
    using round_delivers [OF Suc.prems(1) assms(1,2) k] Suc.prems(2) by auto
  have upt: "[k ..< Suc (k + m)] = k # [Suc k ..< Suc (k + m)]" by (simp add: upt_conv_Cons)
  show ?case using Suc.IH [OF n1(2,3)] Suc.prems(3) n1(1) by (simp add: exec_append upt del: upt_Suc)
qed simp

section \<open>The application stays set up\<close>

lemma role_step_attached:
  assumes "role_step Q is Ec Ep l e = Some l'"
  shows "role_attached l' = role_attached l"
  using assms
proof (cases rule: role_step_cases)
  case (1 a f a')
  then show ?thesis using central_step_attached [OF 1(4)] by simp
next
  case (2 b f b')
  then show ?thesis using peripheral_step_attached [OF 2(4)] by simp
qed simp

lemma role_write_attached [simp]: "role_attached (role_write Q is d l) = role_attached l"
  by (cases l) simp_all

lemma node_step_attached: "node_step C a e = Some a' \<Longrightarrow> role_attached (snd (sys a')) = role_attached (snd (sys a))"
proof (cases e)
  case Timer
  have "role_attached (ble_publish NS DS f (role_write Q is) nm d l) = role_attached l" for NS DS f Q "is" nm d and l :: "'b role_link"
    by (simp add: ble_publish_def ble_publish_raw_def split: option.split)
  moreover assume "node_step C a e = Some a'"
  ultimately show ?thesis
    using Timer by (auto simp: node_step_def expiry_def my_expiry_function_def Let_def case_prod_beta split: if_splits)
qed (auto simp: node_step_def role_step_attached split: option.splits)

lemma net_step_attached:
  assumes "net_step C n e = Some n'"
  shows "role_attached (snd (sys (apps n' s))) = role_attached (snd (sys (apps n s)))"
proof (cases e)
  case (At t f)
  then show ?thesis
    using assms by (cases "s = t") (auto simp: net_step_def dest: node_step_attached split: option.splits)
next
  case (Arrives t)
  then show ?thesis
    using assms by (cases "s = peer t") (auto simp: net_step_def node_receive_parts split: list.splits)
qed (use assms in \<open>auto simp: net_step_def\<close>)

lemma net_exec_attached:
  "exec (net_step C) n es = Some n' \<Longrightarrow> role_attached (snd (sys (apps n' s))) = role_attached (snd (sys (apps n s)))"
  by (rule exec_lift [where A = UNIV and R = "\<lambda>x y. role_attached (snd (sys (apps y s))) = role_attached (snd (sys (apps x s)))"])
    (simp_all add: net_step_attached)

text \<open>Whenever nothing is on its way in a run, the rest of \<open>under_way\<close> holds.\<close>

lemma at_rest:
  assumes "\<forall>s. node_laws C viewq viewr s (out s)" and "network_set_up C viewq viewr h c"
    and "exec_ok (net_step C) (net_ok C) (network_start h c) es" and "exec (net_step C) (network_start h c) es = Some n"
    and "tx_counter (apps n s) \<le> 1000000000"
    and "role_up i (peer_conn (C s)) (snd (sys (apps n s)))" and "is_central (snd (sys (apps n s))) = b"
    and "role_pending viewr (peer_conn (C s)) (snd (sys (apps n s))) = []" and "air n s = []"
    and "viewq (event_queue (fst (sys (apps n (peer s))))) = []"
  shows "under_way C viewq viewr s i b n [] [] []"
proof -
  have laws: "node_laws C viewq viewr s (out s)" "\<And>t. \<exists>out. node_laws C viewq viewr t out" using assms(1) by blast+
  have "role_consistent viewr (snd (sys (apps n s))) \<and> manager_set (publishes (C s)) (fst (sys (apps n (peer s))))"
    using flows_exec [OF laws(1) assms(4,3,5) flows_start [OF assms(2) laws(2)]] by (simp add: flows_def flowing_def)
  moreover have "role_attached (snd (sys (apps n (peer s))))"
    using net_exec_attached [OF assms(4), of "peer s"] network_set_up_parts [OF assms(2) laws(2), of "peer s"] by (auto simp: Let_def)
  ultimately show ?thesis using assms(6-10) by (simp add: under_way_def Let_def)
qed

section \<open>Property\<close>


section \<open>At work\<close>

definition example_net :: "side \<Rightarrow> (ble_event list, item list) node" where
  "example_net s = \<lparr>name_size = 16, data_size = 16, encode = example_encode, decode = example_decode, event_msgq = fifo 20,
     payload_msgq = fifo 10, payload_size = 64, central_env = (\<lambda>h c. 0), peripheral_env = (\<lambda>h c. 0), peer_conn = 7,
     publishes = (case s of Hub \<Rightarrow> ping | Client \<Rightarrow> pong)\<rparr>"

definition net_out :: "side \<Rightarrow> nat \<Rightarrow> item" where
  "net_out s k = the (example_encode (counter_event 16 16 (publishes (example_net s)) k))"

lemma example_fields [simp]:
  "name_size (example_net s) = 16" "data_size (example_net s) = 16" "encode (example_net s) = example_encode"
  "decode (example_net s) = example_decode" "event_msgq (example_net s) = fifo 20" "payload_msgq (example_net s) = fifo 10"
  "payload_size (example_net s) = 64" "central_env (example_net s) = (\<lambda>h c. 0)" "peripheral_env (example_net s) = (\<lambda>h c. 0)"
  "peer_conn (example_net s) = 7" "publishes (example_net Hub) = ping" "publishes (example_net Client) = pong"
  by (simp_all add: example_net_def)

lemma example_name: "length (publishes (example_net s)) = 4 \<and> 0 \<notin> set (publishes (example_net s))"
  by (cases s) (simp_all add: ping_def pong_def of_char_def)

lemma example_counters:
  assumes "length nm = 4"
  shows "encodes_counters 16 16 example_encode nm (\<lambda>k. the (example_encode (counter_event 16 16 nm k)))"
  using assms by (simp add: encodes_counters_def example_encode_def counter_event_def pb_of_string_def c_length_def)

lemma example_node_laws: "node_laws example_net (take 20) (take 10) s (net_out s)"
proof -
  have "encodes_counters 16 16 example_encode (publishes (example_net s)) (net_out s)"
    using example_counters [of "publishes (example_net s)"] example_name [of s] unfolding net_out_def [abs_def] by simp
  moreover have "\<exists>cap. msgq_laws (fifo 10) cap (take 10 :: item list \<Rightarrow> item list) \<and> 0 < cap"
    "\<exists>cap. msgq_laws (fifo 20) cap (take 20 :: ble_event list \<Rightarrow> ble_event list) \<and> 0 < cap"
    using fifo_laws zero_less_numeral by blast+
  ultimately show ?thesis using example_codec_laws example_name by (simp add: node_laws_def)
qed

lemma example_out_fits: "k < 1000000000 \<Longrightarrow> length (net_out s k) \<le> 64"
  using digits_fit [of k] example_name [of s]
  by (simp add: net_out_def example_encode_def counter_event_def key_def pb_of_string_def c_length_def min_def)

text \<open>The hub and the client before they are set up, and after.\<close>

definition idle_hub :: "(ble_event list, item list) app" where
  "idle_hub = \<lparr>calls = [], count = [], tx_counter = 0, led_dev = 0, button_dev = 0, sys = (ble_example, Central_link central_example)\<rparr>"

definition connects :: "net_event list" where
  "connects = map (\<lambda>e. At Hub (Link (Central_event e))) [central_event.Connected 7 0,
     central_event.Security_changed 7 0, Discovery_completed 0 (Some 7)]"

lemma example_set_up:
  "\<exists>h c. network_set_up example_net (take 20) (take 10) h c \<and> tx_counter h = 0 \<and> heard (calls (fst (sys c))) = [] \<and>
     (\<exists>l. snd (sys h) = Central_link l \<and> conns l = replicate 2 \<lparr>ready = False, conn = None, q = [], nus_c = None\<rparr>)"
proof -
  have "\<exists>h. hub_setup False False False [] 16 (\<lambda>h c. 0) (\<lambda>h c. 0) (\<lambda>h c. 0) idle_hub = Some h \<and> tx_counter h = 0 \<and>
      (\<exists>l. snd (sys h) = Central_link l \<and> conns l = replicate 2 \<lparr>ready = False, conn = None, q = [], nus_c = None\<rparr>)"
    by (simp add: hub_setup_def ble_setup_def app_setup_sys idle_hub_def ble_stack_init_def initialize_led_def led_init_def
      ble_central_init_def ble_central_scan_init_def ble_central_attach_handler_def central_example_def ext_def emit_def Let_def)
  moreover have "\<exists>c. client_setup False False False [] 16 (\<lambda>h c. 1) (\<lambda>h c. 0) (\<lambda>h c. 0) client_example = Some c \<and>
      heard (calls (fst (sys c))) = []"
    by (simp add: client_setup_def ble_setup_def app_setup_sys client_example_def ble_stack_init_def initialize_led_def
      ble_subscribe_def ble_example_def ext_def emit_def Let_def heard_def)
  moreover have "fresh_app (take 20) (take 10) idle_hub" "fresh_app (take 20) (take 10) client_example"
    by (simp_all add: fresh_app_def idle_hub_def client_example_def ble_example_def central_example_def peripheral_example_def list_all_iff)
  ultimately show ?thesis unfolding network_set_up_def by (simp, metis take_Nil)
qed

lemma example_connects:
  assumes "snd (sys h) = Central_link l" and "conns l = replicate 2 \<lparr>ready = False, conn = None, q = [], nus_c = None\<rparr>"
  shows "\<exists>n. exec (net_step example_net) (network_start h c) connects = Some n \<and>
    exec_ok (net_step example_net) (net_ok example_net) (network_start h c) connects \<and>
    role_up 0 7 (snd (sys (apps n Hub))) \<and> is_central (snd (sys (apps n Hub))) \<and> role_pending (take 10) 7 (snd (sys (apps n Hub))) = [] \<and>
    air n Hub = [] \<and> apps n Client = c \<and> tx_counter (apps n Hub) = tx_counter h"
proof -
  obtain x where l: "conns l = [x, x]" "x = \<lparr>ready = False, conn = None, q = [], nus_c = None\<rparr>"
    using assms(2) by (simp add: numeral_2_eq_2)
  let ?E = "\<lambda>h c. 0 :: int"
  define l1 where "l1 = Ble_Central.connected (fifo 10) ?E 7 0 l"
  define l2 where "l2 = Ble_Central.security_changed ?E 7 0 l1"
  define l3 where "l3 = discovery_completed ?E 0 (Some 7) l2"
  have l1: "conns l1 = [x\<lparr>conn := Some 7\<rparr>, x]" by (simp add: l1_def connected_conns l)
  then have l2: "conns l2 = [x\<lparr>conn := Some 7\<rparr>, x]" by (simp add: l2_def)
  then have l3: "conns l3 = [x\<lparr>conn := Some 7, nus_c := Some 7, ready := True\<rparr>, x]"
    by (simp add: l3_def discovery_completed_conns discovery_ok_def Let_def)
  have quiet: "central_aired 7 (drop (length (calls l)) (calls l1)) = []" "central_aired 7 (drop (length (calls l1)) (calls l2)) = []"
    "central_aired 7 (drop (length (calls l2)) (calls l3)) = []"
    by (simp_all add: l1_def l2_def l3_def central_defs Let_def case_prod_beta split: option.split)
  have e: "central_step (fifo 10) 64 ?E l (central_event.Connected 7 0) = Some l1"
    "central_step (fifo 10) 64 ?E l1 (central_event.Security_changed 7 0) = Some l2"
    "central_step (fifo 10) 64 ?E l2 (Discovery_completed 0 (Some 7)) = Some l3"
    by (simp_all add: l1_def l2_def l3_def)
  show ?thesis
    using assms(1) l l1 l2 l3 quiet
    by (simp add: connects_def net_step_def node_step_def network_start_def e waiting_def up_def del: central_step.simps)
qed

text \<open>The example network with the hub connected.\<close>

lemma example_connected:
  "\<exists>h c n. network_set_up example_net (take 20) (take 10) h c \<and> exec (net_step example_net) (network_start h c) connects = Some n \<and>
     exec_ok (net_step example_net) (net_ok example_net) (network_start h c) connects \<and>
     role_up 0 7 (snd (sys (apps n Hub))) \<and> is_central (snd (sys (apps n Hub))) \<and> role_pending (take 10) 7 (snd (sys (apps n Hub))) = [] \<and>
     air n Hub = [] \<and> take 20 (event_queue (fst (sys (apps n Client)))) = [] \<and> apps (network_start h c) Client = apps n Client \<and>
     tx_counter (apps n Hub) = 0 \<and> tx_counter (apps (network_start h c) Hub) = 0 \<and> heard (calls (fst (sys (apps n Client)))) = []"
proof -
  obtain h c l where h: "network_set_up example_net (take 20) (take 10) h c" "tx_counter h = 0" "heard (calls (fst (sys c))) = []"
    "snd (sys h) = Central_link l" "conns l = replicate 2 \<lparr>ready = False, conn = None, q = [], nus_c = None\<rparr>"
    using example_set_up by blast
  have laws: "\<exists>out. node_laws example_net (take 20) (take 10) s out" for s using example_node_laws by blast
  have "take 20 (event_queue (fst (sys (apps (network_start h c) Client)))) = []"
    using network_set_up_parts [OF h(1) laws, of Client] by (simp add: Let_def)
  then show ?thesis
    using h(1-3) example_connects [OF h(4,5), of c] by (intro exI [of _ h] exI [of _ c]) (auto simp: network_start_def)
qed

lemma example_radio: "radio_accepts (central_env (example_net s)) (peripheral_env (example_net s))"
  by (simp add: radio_accepts_def)


text \<open>The same network once a ping has been heard.\<close>

theorem network_delivers_in_order_witness:
  "\<exists>h c n ks. network_set_up example_net (take 20) (take 10) h c \<and>
     exec (net_step example_net) (network_start h c) (connects @ ping_round Hub 0 True) = Some n \<and> tx_counter (apps n Hub) = 1 \<and>
     subseq ks [0 ..< 1] \<and> heard (calls (fst (sys (apps n Client)))) = map (\<lambda>k. (evt_cb, ping, digits k)) ks \<and> ks \<noteq> []"
proof -
  obtain h c n where n: "network_set_up example_net (take 20) (take 10) h c"
    "exec_ok (net_step example_net) (net_ok example_net) (network_start h c) connects"
    "exec (net_step example_net) (network_start h c) connects = Some n"
    "role_up 0 (peer_conn (example_net Hub)) (snd (sys (apps n Hub)))" "is_central (snd (sys (apps n Hub))) = True"
    "role_pending (take 10) (peer_conn (example_net Hub)) (snd (sys (apps n Hub))) = []" "air n Hub = []"
    "take 20 (event_queue (fst (sys (apps n (peer Hub))))) = []" "apps (network_start h c) Client = apps n Client"
    "tx_counter (apps n Hub) = 0" "tx_counter (apps (network_start h c) Hub) = 0" "heard (calls (fst (sys (apps n Client)))) = []"
    using example_connected by auto
  have laws: "\<forall>s. node_laws example_net (take 20) (take 10) s (net_out s)" using example_node_laws by blast
  have way: "under_way example_net (take 20) (take 10) Hub 0 True n [] [] []"
    using n(10) by (intro at_rest [OF laws n(1-3) _ n(4-8)]) simp
  obtain n' where n': "exec (net_step example_net) n (ping_round Hub 0 True) = Some n'"
    "told Hub n' = (1, [(evt_cb, ping, digits 0)])"
    using round_delivers [OF way example_node_laws example_radio] example_out_fits [of 0 Hub] n(10,12) by (auto simp: told_def)
  have run: "exec (net_step example_net) (network_start h c) (connects @ ping_round Hub 0 True) = Some n'"
    using n(3) n'(1) by (simp add: exec_append)
  have "exec_ok (net_step example_net) (net_ok example_net) n (ping_round Hub 0 True)"
    by (rule round_ok)
  then have ok: "exec_ok (net_step example_net) (net_ok example_net) (network_start h c) (connects @ ping_round Hub 0 True)"
    using n(2,3) by (simp add: exec_ok_append)
  have told: "tx_counter (apps n' Hub) = 1" "heard (calls (fst (sys (apps n' Client)))) = [(evt_cb, ping, digits 0)]"
    using n'(2) by (simp_all add: told_def)
  have "tx_counter (apps n' Hub) \<le> 1000000000" by (simp add: told(1))
  from network_delivers_in_order [OF laws n(1) ok run this, unfolded peer.simps example_fields n(9,11,12) told(1) append_Nil]
  obtain ks where "subseq ks [0 ..< 1]" "heard (calls (fst (sys (apps n' Client)))) = map (\<lambda>k. (evt_cb, ping, digits k)) ks" by blast
  then show ?thesis
    using n(1) run told by (intro exI [of _ h] exI [of _ c] exI [of _ n'] exI [of _ ks]) auto
qed

end
