(* ===== verification/Spec2Isabelle.thy ===== *)
theory Spec2Isabelle
  imports Ota_Version Comms_Uart Hci_Uart Rtc_Pcf85063a Cloud_Defined Cloud_Boots Ping_Delivery
begin

text \<open>
  \<^bold>\<open>A model of Pyrinas Zephyr.\<close> The repository holds the firmware of a hub (an nRF9160 with a modem and a
  Bluetooth radio on a UART), of a client (an nRF52), and the libraries they share. This development models its C code.

  \<^bold>\<open>The program.\<close> \<open>lib/app/main.c\<close> starts the device: the modem library and the modem
  (\<open>subsys/cellular\<close>), the clock chip (\<open>drivers/rtc/pcf85063a\<close>) and the cloud client (\<open>subsys/pyrinas_cloud\<close>), which connects
  to an MQTT broker, asks for firmware updates, and calls the framework back when the connection or the update
  changes; the framework reconnects and lets the application's \<open>setup\<close> run. Applications talk to each other over
  \<open>lib/ble\<close>: a manager (\<open>ble_m.c\<close>) publishes events by name to a link, which is built for the central
  (\<open>ble_central.c\<close>) or the peripheral role (\<open>ble_peripheral.c\<close>), and dispatches what arrives to subscribers.
  \<open>subsys/comms\<close> is a framed UART link, \<open>samples/hci_uart\<close> the firmware of the radio.

  \<^bold>\<open>Theories.\<close>
  \<^item> \<open>Prelude\<close>: bytes, the parts of the C library that the code uses, the trace of outside calls, and the
    locales for systems of events (\<open>event_system\<close>: an invariant over runs; \<open>accounting\<close>: a quantity over runs; \<open>simulation\<close>: a
    system inside another).
  \<^item> \<open>Ota_Version\<close>: the version union, \<open>ver_comp\<close> (\<open>pyrinas_cloud_helper.c\<close>), \<open>get_version_string\<close> (\<open>applications/sample/src/version.c\<close>).
  \<^item> \<open>Comms_Uart\<close>: \<open>comms.c\<close>, the receive thread over the chunks of its ring buffer, the driver's callback, sending.
  \<^item> \<open>Ble_Common\<close>: queues, their documented laws, the sizes of \<open>ble_settings.h\<close>, and the two interfaces \<open>ble_link\<close> (what the manager
    relies on in a link) and \<open>link_worker\<close> (how a queue is emptied). \<open>Ble_Central\<close> and \<open>Ble_Peripheral\<close> model the
    two roles and interpret both interfaces; \<open>Ble_Manager\<close> models \<open>ble_m.c\<close>, with the locale
    \<open>subscription_table\<close> for its table, and \<open>Ble_Roles\<close> the functions that forward to the link of the role, which
    is again a \<open>ble_link\<close>, and the link of either role as a system of events. \<open>link_stream\<close> is the contract of both roles and
    of \<open>Ble_Roles\<close> about the stream of payloads to a peer.
  \<^item> \<open>Rtc_Pcf85063a\<close>: the driver over a bus and a chip that are parameters, and the register map of the chip. \<open>Cellular\<close>: \<open>cellular.c\<close>.
  \<^item> \<open>Cloud_Codec\<close>: \<open>pyrinas_cloud_codec.c\<close> over the operations of the CBOR library, with their documented laws as the predicate
    \<open>decoder_laws\<close>. \<open>Cloud_State\<close>: the client's state, publishing and reading payloads. \<open>Cloud_Callbacks\<close>: the
    application's subscriptions, with a heap. \<open>Pyrinas_Cloud\<close>: handlers, work, connection and thread, and the client as the step function \<open>cloud_step\<close>.
    \<open>Cloud_Relation\<close> is the interface for relations between the states before and after a step (\<open>quiet_relation\<close>: laws for
    the few ways in which the client's functions change the state, and the relation for every step without an offer from them;
    \<open>client_relation\<close> extends it to offers); \<open>Cloud_Safety\<close>, \<open>Cloud_Ota\<close>, \<open>App_Update\<close> and \<open>Cloud_Boots\<close> interpret them. \<open>Cloud_Safety\<close> and \<open>Cloud_Defined\<close> prove properties of the client's runs,
    \<open>Cloud_Ota\<close> those of a firmware update: an abstract machine of its life (\<open>ota_move\<close>), and the client under a scheduler as its
    refinement.
  \<^item> \<open>Hci_Uart\<close>: \<open>samples/hci_uart/src/main.c\<close>, the interrupt handler over the portions in which the host's bytes arrive, with
    a parser of the whole stream as its reference (\<open>h4_parse\<close>).
  \<^item> \<open>App_Main\<close>: \<open>lib/app/main.c\<close> and \<open>subsys/worker/worker.c\<close>; its \<open>device\<close> contains the states of client, modem and clock, and
    \<open>device_step\<close> runs them together with the reconnection work and the main thread. \<open>App_Update\<close>: the device while an update is under way.
    \<open>Cloud_Boots\<close>: updates across reboots (\<open>life_step\<close>): the boot loader and the images of the server as parameters, \<open>app_main\<close> at every reset, the
    scheduled client in between; when firmware goes back to an older version, and when it cannot.
  \<^item> \<open>Applications\<close>: the hub, the client, the sample and the weak defaults of \<open>app_weak.c\<close>, on the models of what they call. \<open>Ping_Network\<close> puts the hub and the client
    together, with their links and the air between them, as one system of events (\<open>net_step\<close>); it and \<open>Ping_Delivery\<close> prove what the
    handler of each hears of the other's timer.

  \<^bold>\<open>How state, effects and errors are modelled.\<close> The static variables of a file are a record. Every record extends \<open>world\<close>, whose \<open>calls\<close> is
  the trace of the calls into code outside the repository with their results; these results come from an
  environment \<open>E :: history \<Rightarrow> call \<Rightarrow> result\<close>, so a theorem about every \<open>E\<close> holds for every behaviour of the kernel, the drivers
  and the libraries. \<open>ext E c\<close> is a call whose result is used, \<open>emit c\<close> one whose result is not. Where the code relies on
  documented behaviour, this is a hypothesis by name: \<open>msgq_laws\<close> (kernel queues), \<open>codec_laws\<close> (nanopb), \<open>decoder_laws\<close> (QCBOR),
  \<open>i2c_laws\<close>, \<open>reads_ok\<close> (MQTT payloads), \<open>malloc_ok\<close>, \<open>sem_laws\<close>, \<open>pool_laws\<close>, \<open>one_download\<close> (the FOTA library refuses a second download),
  \<open>mcuboot_laws\<close> (the boot loader), \<open>library_starts\<close> and \<open>reads_whole\<close> (a download that starts, a payload that arrives in one piece). Each has a concrete instance in a witness. Error numbers are integers as
  in the code. \<open>None\<close> is a failed assertion or a step outside of defined C (a NULL or dangling pointer, a write past an array, reading
  what was never written), so a result \<open>Some\<close> says that neither happens. Bytes and fixed-width fields are words where they wrap.

  \<^bold>\<open>Concurrency.\<close> Handlers, work items and callbacks run to completion, one after the other, in any order: a component's \<open>step\<close>
  function takes one event, and the theorems over \<open>exec\<close> are about every list of events. Preemption inside a function is
  not modelled. \<open>cloud_step\<close> runs any work item at any time; where it matters that an item runs only when it has been submitted,
  \<open>scheduled_step\<close> (\<open>Cloud_Ota\<close>) keeps the set of those that are due, and lets the library report only about a download that is
  under way. A reboot is a call in the trace; what follows it in a run is what the code would do if it returned. In
  \<open>device_step\<close> the callbacks that the client makes into \<open>main.c\<close> run when the client's function has returned; they touch
  only state of \<open>main.c\<close>, so the order does not matter.

  \<^bold>\<open>Loops.\<close> No fuel is used. Loops over tables are structural; the payload, the UART and the HCI loops are \<open>function\<close>s with a measure (bytes
  still to be read, or still to arrive); the work handler of the manager, whose end depends on the queue, is a
  \<open>partial_function\<close> that is proved to return under the queue's laws.

  \<^bold>\<open>What is shown.\<close>
  \<^item> Data paths: what one side sends the other gets, once, in order and unchanged (UART messages, HCI packets, Bluetooth payloads, OTA messages,
    payloads of the broker, the counters between hub and client over every run of both), with the exact conditions.
  \<^item> State: slots, queues, tables and connection state keep their invariants over all histories; the application's view of the connection is right; reconnection is always scheduled; an update goes from the offer to the reboot without getting stuck;
    an offer that is accepted is installed, and firmware does not go back as long as no second message comes between;
    the client never leaves defined behaviour when the platform keeps its promises.
  \<^item> Limits of the code, as theorems: what is lost, overwritten, leaked or never ends, each on the model of the code as it is.

  \<^bold>\<open>Not modelled.\<close> Log output; the services of Zephyr and the libraries (kernel, MQTT, QCBOR, nanopb, FOTA download, modem, controller);
  Kconfig, devicetree and build files, whose values are constants or
  arguments; configurations without FOTA download; the manifest script. The handlers that only log
  (\<open>evt_cb\<close>, \<open>button_pressed\<close>, \<open>application_callback\<close>, the logging callbacks of the radio) are numbers in traces or have no definition.
\<close>

end
